(* ===== verification/Prelude.thy ===== *)
theory Prelude
  imports Main "HOL-Library.Word"
begin

text \<open>
  Shared base of the development: the machine integer types, the panics of the simulator as
  values, the result type of fallible code with its bind, bounds-checked indexing and slicing as
  Rust performs them, and the generic lemmas on lists, powers of two and words that the component
  theories use.

  Integer conventions.  \<open>u8\<close>, \<open>u16\<close>, \<open>u32\<close>, \<open>u64\<close> are words and wrap around (the release
  profile in which the documentation runs the simulator).  \<open>usize\<close> values (lengths, indices,
  way numbers, event counters) are \<open>nat\<close>.
\<close>

unbundle bit_operations_syntax

named_theorems res_simps \<open>rewriting of results of fallible code\<close>
named_theorems upd_simps \<open>frame facts: what an operation leaves unchanged\<close>

type_synonym u8 = "8 word"
type_synonym u16 = "16 word"
type_synonym u32 = "32 word"
type_synonym u64 = "64 word"

subsection \<open>Panics\<close>

text \<open>
  One constructor per kind of panic site of the sources: failed assertions, out-of-range
  indexing, \<open>unwrap\<close>/\<open>expect\<close> on \<open>None\<close>, and \<open>todo!()\<close>.
\<close>

datatype panic =
    CompletionLength nat nat      \<comment> \<open>load completed with the wrong number of bytes\<close>
  | NotALoadReq                   \<comment> \<open>store request unwrapped as a load\<close>
  | NotAStoreReq                  \<comment> \<open>load request unwrapped as a store\<close>
  | IndexOutOfBounds nat nat
  | SliceOutOfBounds nat nat nat
  | SliceLenMismatch nat nat      \<comment> \<open>\<open>clone_from_slice\<close> on slices of different lengths\<close>
  | UnwrapNone
  | OutOfBoundAccess u32          \<comment> \<open>\<open>SimpleMem::try_register_req\<close>\<close>
  | OutOfBoundDram u32 nat nat    \<comment> \<open>\<open>SimpleDram::try_register_req\<close>\<close>
  | ActNotIdle | PreNotActive | CasNotActive | CasWrongRow u32 u32
  | ZeroTiming
  | DivisionByZero
  | RowSizeInvalid nat
  | PlruNotPowerOfTwo nat
  | InvalidWay nat                \<comment> \<open>cache way accessed while its valid bit is clear\<close>
  | CacheAlignment u32 nat
  | EmptyRandomRange
  | TodoFence                     \<comment> \<open>\<open>todo!()\<close> for the MISC-MEM opcode\<close>
  | UnreachableFunct3
  | IllegalInstruction u32 u32
  | UnsupportedFence u32
  | IllegalOpcode
  | MissingRs1 | MissingRs2 | MissingPrediction
  | NotControlFlow
  | NotALoadAccess
  | LoadedLength nat nat
  | NopInsertOccupied
  | TodoPredictor
  | Unimplemented                 \<comment> \<open>\<open>unimplemented!()\<close>\<close>
  | ArithmeticOverflow            \<comment> \<open>checked arithmetic of a debug build\<close>
  | FileUnreadable | ElfUnparsable | NotElf32 | NotRiscv32 | NotExecutable | NotLittleEndian
  | SegmentOutOfMemory            \<comment> \<open>ELF segment past the end of memory\<close>
  | DeallocationError             \<comment> \<open>deallocation on an empty heap\<close>

type_synonym 'a res = "panic + 'a"

definition bindR :: "'a res \<Rightarrow> ('a \<Rightarrow> 'b res) \<Rightarrow> 'b res" where
  "bindR m f = (case m of Inl e \<Rightarrow> Inl e | Inr x \<Rightarrow> f x)"

definition assertR :: "bool \<Rightarrow> panic \<Rightarrow> unit res" where
  "assertR b e = (if b then Inr () else Inl e)"

definition unwrapR :: "panic \<Rightarrow> 'a option \<Rightarrow> 'a res" where
  "unwrapR e x = (case x of None \<Rightarrow> Inl e | Some v \<Rightarrow> Inr v)"

text \<open>Bounds-checked reads and writes of boxed slices.\<close>

definition idx :: "'a list \<Rightarrow> nat \<Rightarrow> 'a res" where
  "idx xs i = (if i < length xs then Inr (xs ! i) else Inl (IndexOutOfBounds i (length xs)))"

definition upd :: "'a list \<Rightarrow> nat \<Rightarrow> 'a \<Rightarrow> 'a list res" where
  "upd xs i v =
     (if i < length xs then Inr (xs[i := v]) else Inl (IndexOutOfBounds i (length xs)))"

definition seg :: "nat \<Rightarrow> nat \<Rightarrow> 'a list \<Rightarrow> 'a list" where
  "seg a n xs = take n (drop a xs)"

definition put_seg :: "nat \<Rightarrow> 'a list \<Rightarrow> 'a list \<Rightarrow> 'a list" where
  "put_seg a ys xs = take a xs @ ys @ drop (a + length ys) xs"

text \<open>\<open>xs[a..b]\<close>\<close>

definition get_range :: "'a list \<Rightarrow> nat \<Rightarrow> nat \<Rightarrow> 'a list res" where
  "get_range xs a b =
     (if a \<le> b \<and> b \<le> length xs then Inr (seg a (b - a) xs)
      else Inl (SliceOutOfBounds a b (length xs)))"

text \<open>\<open>xs[a..b].clone_from_slice(ys)\<close>\<close>

definition set_range :: "'a list \<Rightarrow> nat \<Rightarrow> nat \<Rightarrow> 'a list \<Rightarrow> 'a list res" where
  "set_range xs a b ys =
     (if \<not> (a \<le> b \<and> b \<le> length xs) then Inl (SliceOutOfBounds a b (length xs))
      else if b - a \<noteq> length ys then Inl (SliceLenMismatch (b - a) (length ys))
      else Inr (put_seg a ys xs))"

subsection \<open>Arithmetic of the standard library\<close>

definition is_power_of_two :: "nat \<Rightarrow> bool" where
  "is_power_of_two n = (0 < n \<and> n AND (n - 1) = 0)"

text \<open>\<open>ilog2\<close>, by repeated halving.\<close>

fun ilog2 :: "nat \<Rightarrow> nat" where
  "ilog2 n = (if n < 2 then 0 else Suc (ilog2 (n div 2)))"

declare ilog2.simps [simp del]

text \<open>Shifts of a \<open>u32\<close> in the release profile use the amount modulo 32.\<close>

definition shl32 :: "u32 \<Rightarrow> nat \<Rightarrow> u32" where
  "shl32 w n = push_bit (n mod 32) w"

definition shr32 :: "u32 \<Rightarrow> nat \<Rightarrow> u32" where
  "shr32 w n = drop_bit (n mod 32) w"

definition u32_of_usize :: "nat \<Rightarrow> u32" where
  "u32_of_usize n = of_nat n"

subsection \<open>Results\<close>

lemma bindR_Inl [simp]: "bindR (Inl e) f = Inl e"
  by (simp add: bindR_def)

lemma bindR_Inr [simp]: "bindR (Inr x) f = f x"
  by (simp add: bindR_def)

lemma bindR_assoc [simp]: "bindR (bindR m f) g = bindR m (\<lambda>x. bindR (f x) g)"
  by (cases m) simp_all

lemma bindR_eq_Inr [res_simps]: "bindR m f = Inr y \<longleftrightarrow> (\<exists>x. m = Inr x \<and> f x = Inr y)"
  by (cases m) auto

lemma bindR_cong [fundef_cong]:
  "m = m' \<Longrightarrow> (\<And>x. m' = Inr x \<Longrightarrow> f x = f' x) \<Longrightarrow> bindR m f = bindR m' f'"
  by (cases m') auto

lemma assertR_True [simp]: "b \<Longrightarrow> assertR b e = Inr ()"
  by (simp add: assertR_def)

lemma assertR_False [simp]: "\<not> b \<Longrightarrow> assertR b e = Inl e"
  by (simp add: assertR_def)

lemma assertR_eq_Inr [res_simps]: "assertR b e = Inr u \<longleftrightarrow> b"
  by (simp add: assertR_def)

lemma unwrapR_simps [simp]:
  "unwrapR e None = Inl e"
  "unwrapR e (Some v) = Inr v"
  by (simp_all add: unwrapR_def)

lemma unwrapR_eq_Inr [res_simps]: "unwrapR e x = Inr v \<longleftrightarrow> x = Some v"
  by (cases x) simp_all

lemma idx_ok [simp]: "i < length xs \<Longrightarrow> idx xs i = Inr (xs ! i)"
  by (simp add: idx_def)

lemma idx_eq_Inr [res_simps]: "idx xs i = Inr v \<longleftrightarrow> i < length xs \<and> xs ! i = v"
  by (simp add: idx_def)

lemma upd_ok [simp]: "i < length xs \<Longrightarrow> upd xs i v = Inr (xs[i := v])"
  by (simp add: upd_def)

lemma upd_eq_Inr [res_simps]: "upd xs i v = Inr ys \<longleftrightarrow> i < length xs \<and> ys = xs[i := v]"
  by (auto simp: upd_def)

lemma get_range_ok [simp]:
  "a \<le> b \<Longrightarrow> b \<le> length xs \<Longrightarrow> get_range xs a b = Inr (seg a (b - a) xs)"
  by (simp add: get_range_def)

lemma get_range_eq_Inr [res_simps]:
  "get_range xs a b = Inr ys \<longleftrightarrow> a \<le> b \<and> b \<le> length xs \<and> ys = seg a (b - a) xs"
  by (auto simp: get_range_def)

lemma set_range_ok [simp]:
  "a + length ys = b \<Longrightarrow> b \<le> length xs \<Longrightarrow> set_range xs a b ys = Inr (put_seg a ys xs)"
  by (auto simp: set_range_def)

lemma set_range_eq_Inr [res_simps]:
  "set_range xs a b ys = Inr zs \<longleftrightarrow>
     a + length ys = b \<and> b \<le> length xs \<and> zs = put_seg a ys xs"
  by (auto simp: set_range_def)

subsection \<open>Slices\<close>

lemma length_seg [simp]: "length (seg a n xs) = min n (length xs - a)"
  by (simp add: seg_def)

lemma nth_seg [simp]: "i < n \<Longrightarrow> a + i < length xs \<Longrightarrow> seg a n xs ! i = xs ! (a + i)"
  by (simp add: seg_def)

lemma length_put_seg [simp]: "a + length ys \<le> length xs \<Longrightarrow> length (put_seg a ys xs) = length xs"
  by (simp add: put_seg_def)

lemma nth_put_seg:
  "a + length ys \<le> length xs \<Longrightarrow> i < length xs \<Longrightarrow>
   put_seg a ys xs ! i = (if a \<le> i \<and> i < a + length ys then ys ! (i - a) else xs ! i)"
  by (auto simp: put_seg_def nth_append min_def)

lemma seg_put_seg_same:
  "a + length ys \<le> length xs \<Longrightarrow> seg a (length ys) (put_seg a ys xs) = ys"
  by (simp add: seg_def put_seg_def)

lemma seg_seg:
  "b + k \<le> n \<Longrightarrow> seg b k (seg a n xs) = seg (a + b) k xs"
  by (simp add: seg_def take_drop min_def add.commute)

lemma seg_put_seg_disjoint:
  assumes "a + length ys \<le> length xs" and "b + n \<le> a \<or> a + length ys \<le> b"
  shows "seg b n (put_seg a ys xs) = seg b n xs"
proof (rule nth_equalityI)
  show "length (seg b n (put_seg a ys xs)) = length (seg b n xs)"
    using assms by simp
next
  fix i assume "i < length (seg b n (put_seg a ys xs))"
  with assms show "seg b n (put_seg a ys xs) ! i = seg b n xs ! i"
    by (auto simp: nth_put_seg)
qed

lemma put_seg_put_seg_same:
  "a + length ys \<le> length xs \<Longrightarrow> length zs = length ys \<Longrightarrow>
   put_seg a zs (put_seg a ys xs) = put_seg a zs xs"
  by (rule nth_equalityI) (auto simp: nth_put_seg)

lemma put_seg_idem: "a + length ys \<le> length xs \<Longrightarrow> put_seg a ys (put_seg a ys xs) = put_seg a ys xs"
  by (rule put_seg_put_seg_same) simp_all

lemma put_seg_seg_same: "a + n \<le> length xs \<Longrightarrow> put_seg a (seg a n xs) xs = xs"
  by (rule nth_equalityI) (auto simp: nth_put_seg)

subsection \<open>Powers of two\<close>

lemma is_power_of_two_exp [simp]: "is_power_of_two (2 ^ k)"
proof -
  have "(2 ^ k :: nat) AND (2 ^ k - 1) = take_bit k (2 ^ k)"
    by (simp add: take_bit_eq_mask mask_eq_exp_minus_1)
  then show ?thesis
    by (simp add: is_power_of_two_def)
qed

lemma and_pred_even: "0 < m \<Longrightarrow> (2 * m) AND (2 * m - Suc 0) = 2 * (m AND (m - Suc 0))"
  for m :: nat
proof -
  assume "0 < m"
  then have eq: "2 * m - Suc 0 = Suc (2 * (m - Suc 0))" by simp
  show ?thesis
    unfolding eq by (simp add: and_rec [of "2 * m"])
qed

lemma and_pred_odd: "(2 * m + 1) AND (2 * m) = 2 * m" for m :: nat
  by (subst and_rec) simp

lemma power_of_twoD: "0 < n \<Longrightarrow> n AND (n - 1) = 0 \<Longrightarrow> \<exists>k. n = 2 ^ k" for n :: nat
proof (induction n rule: less_induct)
  case (less n)
  show ?case
  proof (cases "even n")
    case True
    then obtain m where m: "n = 2 * m" by (auto elim: evenE)
    with less.prems have "0 < m" "m AND (m - 1) = 0"
      by (auto simp: and_pred_even)
    with less.IH [of m] m obtain k where "m = 2 ^ k" by auto
    with m show ?thesis by (intro exI [of _ "Suc k"]) simp
  next
    case False
    then obtain m where m: "n = 2 * m + 1" by (auto elim: oddE)
    with less.prems have "2 * m = 0" using and_pred_odd [of m] by simp
    with m show ?thesis by (intro exI [of _ 0]) simp
  qed
qed

lemma is_power_of_two_iff: "is_power_of_two n \<longleftrightarrow> (\<exists>k. n = 2 ^ k)"
  by (metis is_power_of_two_def is_power_of_two_exp power_of_twoD)

lemma small_powers:
  "is_power_of_two 1" "is_power_of_two 2" "is_power_of_two 4" "is_power_of_two 8" "is_power_of_two 16"
  "is_power_of_two 32" "is_power_of_two 64"
  using is_power_of_two_exp [of 0] is_power_of_two_exp [of 1] is_power_of_two_exp [of 2]
    is_power_of_two_exp [of 3] is_power_of_two_exp [of 4] is_power_of_two_exp [of 5]
    is_power_of_two_exp [of 6] by simp_all

lemma ilog2_exp [simp]: "ilog2 (2 ^ k) = k"
proof (induction k)
  case 0
  then show ?case by (simp add: ilog2.simps)
next
  case (Suc k)
  have "(1::nat) \<le> 2 ^ k" by simp
  then have "\<not> (2 ^ Suc k :: nat) < 2" by simp
  moreover have "(2 ^ Suc k :: nat) div 2 = 2 ^ k" by simp
  ultimately show ?case using Suc ilog2.simps [of "2 ^ Suc k"] by presburger
qed

lemma exp_ilog2: "is_power_of_two n \<Longrightarrow> 2 ^ ilog2 n = n"
  by (auto simp: is_power_of_two_iff)

lemma power_of_two_dvd:
  assumes "is_power_of_two a" "is_power_of_two b" "a \<le> b"
  shows "a dvd b"
proof -
  from assms obtain j k where "a = 2 ^ j" "b = 2 ^ k" by (auto simp: is_power_of_two_iff)
  with assms(3) show ?thesis by (simp add: le_imp_power_dvd)
qed

end
