(* ===== verification/Riscv_Format.thy ===== *)
theory Riscv_Format
  imports Prelude
begin

text \<open>
  The RV32 instruction formats (\<^verbatim>\<open>riscv/encoding.rs\<close>, \<^verbatim>\<open>riscv/format_types.rs\<close>): the opcode map and
  the register and immediate fields of the six formats, with the lemmas that the immediates are
  the signed bit-field concatenations of the instruction set manual.
\<close>

subsection \<open>Opcodes\<close>

datatype OpcodeMap =
  Op | OpImm | Load | Store | Branch | Jal | Jalr | Lui | Auipc | MiscMem | System

text \<open>\<open>TryFrom<u8> for OpcodeMap\<close>; \<open>None\<close> is \<open>Err(())\<close>.\<close>

definition OpcodeMap_try_from :: "u8 \<Rightarrow> OpcodeMap option" where
  "OpcodeMap_try_from value =
     (if value = 0b0110011 then Some Op
      else if value = 0b0010011 then Some OpImm
      else if value = 0b0000011 then Some Load
      else if value = 0b0100011 then Some Store
      else if value = 0b1100011 then Some Branch
      else if value = 0b1101111 then Some Jal
      else if value = 0b1100111 then Some Jalr
      else if value = 0b0110111 then Some Lui
      else if value = 0b0010111 then Some Auipc
      else if value = 0b0001111 then Some MiscMem
      else if value = 0b1110011 then Some System
      else None)"

subsection \<open>Fields\<close>

text \<open>
  \<open>sign_ext_helper\<close> shifts left and arithmetically right again.  Its assertion
  \<open>bit_width \<le> 32\<close> holds at its three call sites, which pass 12, 13 and 21.
\<close>

definition sign_ext_helper :: "u32 \<Rightarrow> nat \<Rightarrow> u32" where
  "sign_ext_helper data bit_width =
     (let shamt = 32 - bit_width in signed_drop_bit shamt (push_bit shamt data))"

datatype RType = RType u32
datatype IType = IType u32
datatype SType = SType u32
datatype BType = BType u32
datatype UType = UType u32
datatype JType = JType u32

primrec RType_rs1 :: "RType \<Rightarrow> u8" where
  "RType_rs1 (RType w) = ucast (drop_bit 15 w AND 0x1f)"
primrec RType_rs2 :: "RType \<Rightarrow> u8" where
  "RType_rs2 (RType w) = ucast (drop_bit 20 w AND 0x1f)"
primrec RType_rd :: "RType \<Rightarrow> u8" where
  "RType_rd (RType w) = ucast (drop_bit 7 w AND 0x1f)"
primrec RType_func3 :: "RType \<Rightarrow> u8" where
  "RType_func3 (RType w) = ucast (drop_bit 12 w AND 0x7)"
primrec RType_func7 :: "RType \<Rightarrow> u8" where
  "RType_func7 (RType w) = ucast (drop_bit 25 w AND 0x7f)"

primrec IType_rs1 :: "IType \<Rightarrow> u8" where
  "IType_rs1 (IType w) = ucast (drop_bit 15 w AND 0x1f)"
primrec IType_imm11_0 :: "IType \<Rightarrow> u32" where
  "IType_imm11_0 (IType w) = drop_bit 20 w"
primrec IType_rd :: "IType \<Rightarrow> u8" where
  "IType_rd (IType w) = ucast (drop_bit 7 w AND 0x1f)"
primrec IType_func3 :: "IType \<Rightarrow> u8" where
  "IType_func3 (IType w) = ucast (drop_bit 12 w AND 0x7)"
definition IType_imm_sign_ext :: "IType \<Rightarrow> u32" where
  "IType_imm_sign_ext i = sign_ext_helper (IType_imm11_0 i) 12"

primrec SType_rs1 :: "SType \<Rightarrow> u8" where
  "SType_rs1 (SType w) = ucast (drop_bit 15 w AND 0x1f)"
primrec SType_rs2 :: "SType \<Rightarrow> u8" where
  "SType_rs2 (SType w) = ucast (drop_bit 20 w AND 0x1f)"
primrec SType_imm4_0 :: "SType \<Rightarrow> u32" where
  "SType_imm4_0 (SType w) = drop_bit 7 w AND 0x1f"
primrec SType_imm11_5 :: "SType \<Rightarrow> u32" where
  "SType_imm11_5 (SType w) = drop_bit 25 w"
primrec SType_func3 :: "SType \<Rightarrow> u8" where
  "SType_func3 (SType w) = ucast (drop_bit 12 w AND 0x7)"
definition SType_sign_ext :: "SType \<Rightarrow> u32" where
  "SType_sign_ext i =
     (let origin_imm = push_bit 5 (SType_imm11_5 i) + SType_imm4_0 i
      in sign_ext_helper origin_imm 12)"

primrec BType_func3 :: "BType \<Rightarrow> u8" where
  "BType_func3 (BType w) = ucast (drop_bit 12 w AND 0x7)"
primrec BType_rs1 :: "BType \<Rightarrow> u8" where
  "BType_rs1 (BType w) = ucast (drop_bit 15 w AND 0x1f)"
primrec BType_rs2 :: "BType \<Rightarrow> u8" where
  "BType_rs2 (BType w) = ucast (drop_bit 20 w AND 0x1f)"
primrec BType_imm11 :: "BType \<Rightarrow> u32" where
  "BType_imm11 (BType w) = drop_bit 7 w AND 0x1"
primrec BType_imm4_1 :: "BType \<Rightarrow> u32" where
  "BType_imm4_1 (BType w) = drop_bit 8 w AND 0xf"
primrec BType_imm10_5 :: "BType \<Rightarrow> u32" where
  "BType_imm10_5 (BType w) = drop_bit 25 w AND 0x3f"
primrec BType_imm12 :: "BType \<Rightarrow> u32" where
  "BType_imm12 (BType w) = drop_bit 31 w"
definition BType_sign_ext :: "BType \<Rightarrow> u32" where
  "BType_sign_ext i =
     (let origin_imm = push_bit 12 (BType_imm12 i) + push_bit 11 (BType_imm11 i)
                     + push_bit 5 (BType_imm10_5 i) + push_bit 1 (BType_imm4_1 i)
      in sign_ext_helper origin_imm 13)"

primrec UType_rd :: "UType \<Rightarrow> u8" where
  "UType_rd (UType w) = ucast (drop_bit 7 w AND 0x1f)"
primrec UType_imm31_12 :: "UType \<Rightarrow> u32" where
  "UType_imm31_12 (UType w) = drop_bit 12 w"
definition UType_sign_ext :: "UType \<Rightarrow> u32" where
  "UType_sign_ext i = push_bit 12 (UType_imm31_12 i)"

primrec JType_rd :: "JType \<Rightarrow> u8" where
  "JType_rd (JType w) = ucast (drop_bit 7 w AND 0x1f)"
primrec JType_imm19_12 :: "JType \<Rightarrow> u32" where
  "JType_imm19_12 (JType w) = drop_bit 12 w AND 0xff"
primrec JType_imm11 :: "JType \<Rightarrow> u32" where
  "JType_imm11 (JType w) = drop_bit 20 w AND 0x1"
primrec JType_imm10_1 :: "JType \<Rightarrow> u32" where
  "JType_imm10_1 (JType w) = drop_bit 21 w AND 0x3ff"
primrec JType_imm20 :: "JType \<Rightarrow> u32" where
  "JType_imm20 (JType w) = drop_bit 31 w"
definition JType_sign_ext :: "JType \<Rightarrow> u32" where
  "JType_sign_ext i =
     (let origin_imm = push_bit 20 (JType_imm20 i) + push_bit 12 (JType_imm19_12 i)
                     + push_bit 11 (JType_imm11 i) + push_bit 1 (JType_imm10_1 i)
      in sign_ext_helper origin_imm 21)"

subsection \<open>Immediates as bit-field concatenations\<close>

text \<open>\<open>field lo n w\<close> is the unsigned value of the \<open>n\<close> bits of \<open>w\<close> from bit \<open>lo\<close> upwards.\<close>

definition field :: "nat \<Rightarrow> nat \<Rightarrow> u32 \<Rightarrow> int" where
  "field lo n w = take_bit n (drop_bit lo (uint w))"

lemma field_nonneg [simp]: "0 \<le> field lo n w"
  by (simp add: field_def)

lemma field_less: "field lo n w < 2 ^ n"
  by (simp add: field_def)

lemma field_split: "field lo (m + n) w = field lo m w + 2 ^ m * field (lo + m) n w"
proof -
  have "field lo (m + n) w = take_bit m (field lo (m + n) w) + 2 ^ m * drop_bit m (field lo (m + n) w)"
    by (metis add.commute bits_ident mult.commute push_bit_eq_mult)
  also have "take_bit m (field lo (m + n) w) = field lo m w"
    by (simp add: field_def min_def)
  also have "drop_bit m (field lo (m + n) w) = field (lo + m) n w"
    by (rule bit_eqI) (auto simp: field_def bit_simps ac_simps)
  finally show ?thesis .
qed

lemma drop_and_mask_field:
  "drop_bit lo w AND mask n = word_of_int (field lo n w)" for w :: u32
  by (rule bit_word_eqI) (auto simp: field_def bit_simps)

lemma drop_bit_field: "lo \<le> 32 \<Longrightarrow> drop_bit lo w = word_of_int (field lo (32 - lo) w)"
  for w :: u32
  by (rule bit_word_eqI) (auto simp: field_def bit_simps dest: bit_imp_le_length)

lemma and_literal_masks:
  "drop_bit lo w AND 0x1 = word_of_int (field lo 1 w)"
  "drop_bit lo w AND 0xf = word_of_int (field lo 4 w)"
  "drop_bit lo w AND 0x1f = word_of_int (field lo 5 w)"
  "drop_bit lo w AND 0x3f = word_of_int (field lo 6 w)"
  "drop_bit lo w AND 0xff = word_of_int (field lo 8 w)"
  "drop_bit lo w AND 0x3ff = word_of_int (field lo 10 w)"
  for w :: u32
  using drop_and_mask_field [of lo w 1] drop_and_mask_field [of lo w 4]
    drop_and_mask_field [of lo w 5] drop_and_mask_field [of lo w 6]
    drop_and_mask_field [of lo w 8] drop_and_mask_field [of lo w 10]
  by (simp_all add: mask_eq_exp_minus_1)

lemma push_bit_word_of_int: "push_bit k (word_of_int x :: u32) = word_of_int (2 ^ k * x)"
  by (simp add: push_bit_eq_mult)

lemma drop_bit_signed_take_bit_push_bit:
  "s \<le> m \<Longrightarrow> drop_bit s (signed_take_bit m (push_bit s (x::int))) = signed_take_bit (m - s) x"
  by (rule bit_eqI) (auto simp: bit_simps min_def)

lemma sint_sign_ext_helper:
  assumes "0 < n" "n \<le> 32"
  shows "sint (sign_ext_helper (word_of_int x) n) = signed_take_bit (n - 1) x"
proof -
  have "sint (push_bit (32 - n) (word_of_int x :: u32)) = signed_take_bit 31 (push_bit (32 - n) x)"
    unfolding push_bit_word_of_int
    by (simp add: sint_sbintrunc' push_bit_eq_mult mult.commute del: of_int_mult)
  with assms show ?thesis
    by (simp add: sign_ext_helper_def Let_def sint_signed_drop_bit_eq
        drop_bit_signed_take_bit_push_bit)
qed

text \<open>A field whose top bit \<open>b\<close> is the sign bit.\<close>

lemma signed_take_bit_concat:
  fixes b x :: int
  assumes "0 \<le> b" "b < 2" "0 \<le> x" "x < 2 ^ n"
  shows "signed_take_bit n (2 ^ n * b + x) = x - 2 ^ n * b"
proof -
  have "b = 0 \<or> b = 1" using assms by auto
  then show ?thesis
  proof
    assume "b = 0"
    with assms show ?thesis by (simp add: signed_take_bit_int_eq_self)
  next
    assume b: "b = 1"
    have "signed_take_bit n (2 ^ n * b + x) = take_bit (Suc n) (2 ^ n + x + 2 ^ n) - 2 ^ n"
      using b by (simp add: signed_take_bit_eq_take_bit_shift)
    also have "2 ^ n + x + 2 ^ n = x + 2 ^ Suc n" by simp
    also have "take_bit (Suc n) (x + 2 ^ Suc n) = x"
      using assms by (simp add: take_bit_eq_mod)
    finally show ?thesis using b by simp
  qed
qed

lemma sint_sign_ext_concat:
  assumes "0 \<le> x" "x < 2 ^ n" "n < 32"
  shows "sint (sign_ext_helper (word_of_int (2 ^ n * field 31 1 w + x)) (Suc n)) =
    x - 2 ^ n * field 31 1 w"
proof -
  have "sint (sign_ext_helper (word_of_int (2 ^ n * field 31 1 w + x)) (Suc n)) =
      signed_take_bit n (2 ^ n * field 31 1 w + x)"
    using assms(3) by (subst sint_sign_ext_helper) simp_all
  also have "\<dots> = x - 2 ^ n * field 31 1 w"
    using assms field_less [of 31 1 w] by (intro signed_take_bit_concat) simp_all
  finally show ?thesis .
qed

lemma IType_imm_sint:
  "sint (IType_imm_sign_ext (IType w)) = field 20 11 w - 2 ^ 11 * field 31 1 w"
proof -
  have "field 20 (11 + 1) w = field 20 11 w + 2 ^ 11 * field (20 + 11) 1 w"
    by (rule field_split)
  then have "IType_imm_sign_ext (IType w) =
      sign_ext_helper (word_of_int (2 ^ 11 * field 31 1 w + field 20 11 w)) (Suc 11)"
    by (simp add: IType_imm_sign_ext_def drop_bit_field [of 20] add.commute)
  then show ?thesis
    using field_less [of 20 11 w] by (simp only: sint_sign_ext_concat field_nonneg)
qed

lemma SType_imm_sint:
  "sint (SType_sign_ext (SType w)) = 2 ^ 5 * field 25 6 w + field 7 5 w - 2 ^ 11 * field 31 1 w"
proof -
  let ?x = "2 ^ 5 * field 25 6 w + field 7 5 w"
  have "field 25 (6 + 1) w = field 25 6 w + 2 ^ 6 * field (25 + 6) 1 w"
    by (rule field_split)
  then have "SType_sign_ext (SType w) =
      sign_ext_helper (word_of_int (2 ^ 11 * field 31 1 w + ?x)) (Suc 11)"
    unfolding SType_sign_ext_def Let_def SType_imm4_0.simps SType_imm11_5.simps and_literal_masks
      drop_bit_field [of 25, simplified] push_bit_word_of_int
    by (simp add: algebra_simps)
  moreover have "?x < 2 ^ 11" "0 \<le> ?x"
    using field_less [of 25 6 w] field_less [of 7 5 w] by simp_all
  ultimately show ?thesis
    by (simp only: sint_sign_ext_concat)
qed

lemma BType_imm_sint:
  "sint (BType_sign_ext (BType w)) =
     2 ^ 11 * field 7 1 w + 2 ^ 5 * field 25 6 w + 2 * field 8 4 w - 2 ^ 12 * field 31 1 w"
proof -
  let ?x = "2 ^ 11 * field 7 1 w + 2 ^ 5 * field 25 6 w + 2 * field 8 4 w"
  have "BType_sign_ext (BType w) =
      sign_ext_helper (word_of_int (2 ^ 12 * field 31 1 w + ?x)) (Suc 12)"
    unfolding BType_sign_ext_def Let_def BType_imm12.simps BType_imm11.simps BType_imm10_5.simps
      BType_imm4_1.simps and_literal_masks
    by (simp add: drop_bit_field [of 31] push_bit_word_of_int ac_simps)
  moreover have "?x < 2 ^ 12" "0 \<le> ?x"
    using field_less [of 7 1 w] field_less [of 25 6 w] field_less [of 8 4 w] by simp_all
  ultimately show ?thesis
    by (simp only: sint_sign_ext_concat)
qed

lemma JType_imm_sint:
  "sint (JType_sign_ext (JType w)) =
     2 ^ 12 * field 12 8 w + 2 ^ 11 * field 20 1 w + 2 * field 21 10 w - 2 ^ 20 * field 31 1 w"
proof -
  let ?x = "2 ^ 12 * field 12 8 w + 2 ^ 11 * field 20 1 w + 2 * field 21 10 w"
  have "JType_sign_ext (JType w) =
      sign_ext_helper (word_of_int (2 ^ 20 * field 31 1 w + ?x)) (Suc 20)"
    unfolding JType_sign_ext_def Let_def JType_imm20.simps JType_imm19_12.simps
      JType_imm11.simps JType_imm10_1.simps and_literal_masks
    by (simp add: drop_bit_field [of 31] push_bit_word_of_int ac_simps)
  moreover have "?x < 2 ^ 20" "0 \<le> ?x"
    using field_less [of 12 8 w] field_less [of 20 1 w] field_less [of 21 10 w] by simp_all
  ultimately show ?thesis
    by (simp only: sint_sign_ext_concat)
qed

lemma UType_imm_uint: "uint (UType_sign_ext (UType w)) = 2 ^ 12 * field 12 20 w"
proof -
  have "UType_sign_ext (UType w) = word_of_int (2 ^ 12 * field 12 20 w)"
    by (simp add: UType_sign_ext_def drop_bit_field [of 12] push_bit_word_of_int)
  then have "uint (UType_sign_ext (UType w)) = (2 ^ 12 * field 12 20 w) mod 2 ^ 32"
    by (simp only: uint_word_of_int) simp
  with field_less [of 12 20 w] show ?thesis by simp
qed

text \<open>
  C9.  Immediates: for every instruction word, the sign-extended immediates of the five formats
  that carry one are the two's complement values the instruction set defines, written as weighted
  sums of the bit fields of the word with the sign bit 31 weighing negative.
\<close>

theorem immediates_isa:
  "sint (IType_imm_sign_ext (IType w)) = field 20 11 w - 2 ^ 11 * field 31 1 w \<and>
   sint (SType_sign_ext (SType w)) =
     2 ^ 5 * field 25 6 w + field 7 5 w - 2 ^ 11 * field 31 1 w \<and>
   sint (BType_sign_ext (BType w)) =
     2 ^ 11 * field 7 1 w + 2 ^ 5 * field 25 6 w + 2 * field 8 4 w - 2 ^ 12 * field 31 1 w \<and>
   sint (JType_sign_ext (JType w)) =
     2 ^ 12 * field 12 8 w + 2 ^ 11 * field 20 1 w + 2 * field 21 10 w - 2 ^ 20 * field 31 1 w \<and>
   uint (UType_sign_ext (UType w)) = 2 ^ 12 * field 12 20 w"
  by (simp only: IType_imm_sint SType_imm_sint BType_imm_sint JType_imm_sint UType_imm_uint)

end
