(* ===== verification/Riscv_Instruction.thy ===== *)
theory Riscv_Instruction
  imports Riscv_Format
begin

text \<open>
  The instruction type and the binary decoder (\<^verbatim>\<open>riscv/instruction.rs\<close>), and the comparison of the
  decoder with the mask/match encoding table of the RV32IM instruction set.
\<close>

datatype Instruction =
    Lui UType | Auipc UType | Jal JType | Jalr IType
  | Beq BType | Bne BType | Blt BType | Bge BType | Bltu BType | Bgeu BType
  | Lb IType | Lh IType | Lw IType | Lbu IType | Lhu IType
  | Sb SType | Sh SType | Sw SType
  | Addi IType | Slti IType | Sltiu IType | Xori IType | Ori IType | Andi IType
  | Slli IType | Srli IType | Srai IType
  | Add RType | Sub RType | Sll RType | Slt RType | Sltu RType | Xor RType
  | Srl RType | Sra RType | Or RType | And RType
  | Mul RType | Mulh RType | Mulhsu RType | Mulhu RType
  | Div RType | Divu RType | Rem RType | Remu RType
  | Fence IType | Ecall IType
  | Illegal u32

definition Instruction_default :: Instruction where
  "Instruction_default = Illegal 0"

text \<open>The arms of the decoder, one per opcode.\<close>

definition decode_op :: "u32 \<Rightarrow> Instruction res" where
  "decode_op raw_inst =
     (let inst = RType raw_inst; f3 = RType_func3 inst; f7 = RType_func7 inst in
      if f3 = 0b000 then
        Inr (if f7 = 0b0100000 then Sub inst else if f7 = 0b0000000 then Add inst
             else if f7 = 0b0000001 then Mul inst else Illegal raw_inst)
      else if f3 = 0b001 then
        Inr (if f7 = 0 then Sll inst else if f7 = 1 then Mulh inst else Illegal raw_inst)
      else if f3 = 0b010 then
        Inr (if f7 = 0 then Slt inst else if f7 = 1 then Mulhsu inst else Illegal raw_inst)
      else if f3 = 0b011 then
        Inr (if f7 = 0 then Sltu inst else if f7 = 1 then Mulhu inst else Illegal raw_inst)
      else if f3 = 0b100 then
        Inr (if f7 = 0 then Xor inst else if f7 = 1 then Div inst else Illegal raw_inst)
      else if f3 = 0b101 then
        Inr (if f7 = 0 then Srl inst else if f7 = 0b0100000 then Sra inst
             else if f7 = 1 then Divu inst else Illegal raw_inst)
      else if f3 = 0b110 then
        Inr (if f7 = 0 then Or inst else if f7 = 1 then Rem inst else Illegal raw_inst)
      else if f3 = 0b111 then
        Inr (if f7 = 0 then And inst else if f7 = 1 then Remu inst else Illegal raw_inst)
      else Inl UnreachableFunct3)"

definition decode_op_imm :: "u32 \<Rightarrow> Instruction res" where
  "decode_op_imm raw_inst =
     (let inst = IType raw_inst; f3 = IType_func3 inst in
      if f3 = 0b000 then Inr (Addi inst)
      else if f3 = 0b010 then Inr (Slti inst)
      else if f3 = 0b011 then Inr (Sltiu inst)
      else if f3 = 0b100 then Inr (Xori inst)
      else if f3 = 0b110 then Inr (Ori inst)
      else if f3 = 0b111 then Inr (Andi inst)
      else if f3 = 0b001 then Inr (Slli inst)
      else if f3 = 0b101 then
        (let hi = drop_bit 5 (IType_imm11_0 inst) in
         Inr (if hi = 0 then Srli inst else if hi = 0b0100000 then Srai inst
              else Illegal raw_inst))
      else Inl UnreachableFunct3)"

definition decode_load :: "u32 \<Rightarrow> Instruction" where
  "decode_load raw_inst =
     (let inst = IType raw_inst; f3 = IType_func3 inst in
      if f3 = 0b000 then Lb inst
      else if f3 = 0b001 then Lh inst
      else if f3 = 0b010 then Lw inst
      else if f3 = 0b100 then Lbu inst
      else if f3 = 0b101 then Lhu inst
      else Illegal raw_inst)"

definition decode_store :: "u32 \<Rightarrow> Instruction" where
  "decode_store raw_inst =
     (let inst = SType raw_inst; f3 = SType_func3 inst in
      if f3 = 0b000 then Sb inst
      else if f3 = 0b001 then Sh inst
      else if f3 = 0b010 then Sw inst
      else Illegal raw_inst)"

definition decode_branch :: "u32 \<Rightarrow> Instruction" where
  "decode_branch raw_inst =
     (let inst = BType raw_inst; f3 = BType_func3 inst in
      if f3 = 0b000 then Beq inst
      else if f3 = 0b001 then Bne inst
      else if f3 = 0b100 then Blt inst
      else if f3 = 0b101 then Bge inst
      else if f3 = 0b110 then Bltu inst
      else if f3 = 0b111 then Bgeu inst
      else Illegal raw_inst)"

definition decode_system :: "u32 \<Rightarrow> Instruction" where
  "decode_system raw_inst =
     (let inst = IType raw_inst in
      if IType_imm11_0 inst = 0 then Ecall inst else Illegal raw_inst)"

definition raw_binary_to_inst :: "u32 \<Rightarrow> Instruction res" where
  "raw_binary_to_inst raw_inst =
     (let raw_opcode = (ucast (raw_inst AND 0x7f) :: u8) in
      case OpcodeMap_try_from raw_opcode of
        None \<Rightarrow> Inr (Illegal raw_inst)
      | Some opcode \<Rightarrow>
          (case opcode of
             Op \<Rightarrow> decode_op raw_inst
           | OpImm \<Rightarrow> decode_op_imm raw_inst
           | Load \<Rightarrow> Inr (decode_load raw_inst)
           | Store \<Rightarrow> Inr (decode_store raw_inst)
           | Branch \<Rightarrow> Inr (decode_branch raw_inst)
           | OpcodeMap.Jal \<Rightarrow> Inr (Jal (JType raw_inst))
           | OpcodeMap.Jalr \<Rightarrow> Inr (Jalr (IType raw_inst))
           | OpcodeMap.Lui \<Rightarrow> Inr (Lui (UType raw_inst))
           | OpcodeMap.Auipc \<Rightarrow> Inr (Auipc (UType raw_inst))
           | MiscMem \<Rightarrow> Inl TodoFence
           | System \<Rightarrow> Inr (decode_system raw_inst)))"

subsection \<open>The RV32IM encoding table\<close>

text \<open>
  Mask, match value and constructor of every RV32IM instruction but FENCE, as tabulated by the
  instruction set manual.
\<close>

definition isa_table :: "(u32 \<times> u32 \<times> (u32 \<Rightarrow> Instruction)) list" where
  "isa_table =
   [(0x0000007f, 0x00000037, \<lambda>w. Lui (UType w)),
    (0x0000007f, 0x00000017, \<lambda>w. Auipc (UType w)),
    (0x0000007f, 0x0000006f, \<lambda>w. Jal (JType w)),
    (0x0000707f, 0x00000067, \<lambda>w. Jalr (IType w)),
    (0x0000707f, 0x00000063, \<lambda>w. Beq (BType w)),
    (0x0000707f, 0x00001063, \<lambda>w. Bne (BType w)),
    (0x0000707f, 0x00004063, \<lambda>w. Blt (BType w)),
    (0x0000707f, 0x00005063, \<lambda>w. Bge (BType w)),
    (0x0000707f, 0x00006063, \<lambda>w. Bltu (BType w)),
    (0x0000707f, 0x00007063, \<lambda>w. Bgeu (BType w)),
    (0x0000707f, 0x00000003, \<lambda>w. Lb (IType w)),
    (0x0000707f, 0x00001003, \<lambda>w. Lh (IType w)),
    (0x0000707f, 0x00002003, \<lambda>w. Lw (IType w)),
    (0x0000707f, 0x00004003, \<lambda>w. Lbu (IType w)),
    (0x0000707f, 0x00005003, \<lambda>w. Lhu (IType w)),
    (0x0000707f, 0x00000023, \<lambda>w. Sb (SType w)),
    (0x0000707f, 0x00001023, \<lambda>w. Sh (SType w)),
    (0x0000707f, 0x00002023, \<lambda>w. Sw (SType w)),
    (0x0000707f, 0x00000013, \<lambda>w. Addi (IType w)),
    (0x0000707f, 0x00002013, \<lambda>w. Slti (IType w)),
    (0x0000707f, 0x00003013, \<lambda>w. Sltiu (IType w)),
    (0x0000707f, 0x00004013, \<lambda>w. Xori (IType w)),
    (0x0000707f, 0x00006013, \<lambda>w. Ori (IType w)),
    (0x0000707f, 0x00007013, \<lambda>w. Andi (IType w)),
    (0xfe00707f, 0x00001013, \<lambda>w. Slli (IType w)),
    (0xfe00707f, 0x00005013, \<lambda>w. Srli (IType w)),
    (0xfe00707f, 0x40005013, \<lambda>w. Srai (IType w)),
    (0xfe00707f, 0x00000033, \<lambda>w. Add (RType w)),
    (0xfe00707f, 0x40000033, \<lambda>w. Sub (RType w)),
    (0xfe00707f, 0x00001033, \<lambda>w. Sll (RType w)),
    (0xfe00707f, 0x00002033, \<lambda>w. Slt (RType w)),
    (0xfe00707f, 0x00003033, \<lambda>w. Sltu (RType w)),
    (0xfe00707f, 0x00004033, \<lambda>w. Xor (RType w)),
    (0xfe00707f, 0x00005033, \<lambda>w. Srl (RType w)),
    (0xfe00707f, 0x40005033, \<lambda>w. Sra (RType w)),
    (0xfe00707f, 0x00006033, \<lambda>w. Or (RType w)),
    (0xfe00707f, 0x00007033, \<lambda>w. And (RType w)),
    (0xfe00707f, 0x02000033, \<lambda>w. Mul (RType w)),
    (0xfe00707f, 0x02001033, \<lambda>w. Mulh (RType w)),
    (0xfe00707f, 0x02002033, \<lambda>w. Mulhsu (RType w)),
    (0xfe00707f, 0x02003033, \<lambda>w. Mulhu (RType w)),
    (0xfe00707f, 0x02004033, \<lambda>w. Div (RType w)),
    (0xfe00707f, 0x02005033, \<lambda>w. Divu (RType w)),
    (0xfe00707f, 0x02006033, \<lambda>w. Rem (RType w)),
    (0xfe00707f, 0x02007033, \<lambda>w. Remu (RType w)),
    (0xffffffff, 0x00000073, \<lambda>w. Ecall (IType w))]"

text \<open>Fields of a word that matches a mask are fields of the match value.\<close>

lemma opcode_of_match:
  "w AND m = v \<Longrightarrow> m AND 0x7f = 0x7f \<Longrightarrow> w AND 0x7f = v AND 0x7f" for w m v :: u32
  by (metis and.assoc)

lemma drop_field_of_match:
  fixes w m v f :: u32
  assumes "w AND m = v" "drop_bit k m AND f = f"
  shows "drop_bit k w AND f = drop_bit k v AND f"
proof -
  have "drop_bit k v AND f = drop_bit k w AND (drop_bit k m AND f)"
    by (simp add: assms(1) [symmetric] drop_bit_and and.assoc)
  with assms(2) show ?thesis by simp
qed

lemma mask7_fields:
  fixes w v :: u32
  assumes "w AND 0x707f = v"
  shows "w AND 0x7f = v AND 0x7f" and "drop_bit 12 w AND 0x7 = drop_bit 12 v AND 0x7"
  using opcode_of_match [OF assms] drop_field_of_match [OF assms, of 12 7] by simp_all

lemma mask7_funct7_fields:
  fixes w v :: u32
  assumes "w AND 0xfe00707f = v"
  shows "w AND 0x7f = v AND 0x7f" and "drop_bit 12 w AND 0x7 = drop_bit 12 v AND 0x7"
    and "drop_bit 25 w AND 0x7f = drop_bit 25 v AND 0x7f" and "drop_bit 25 w = drop_bit 25 v"
proof -
  show "w AND 0x7f = v AND 0x7f" "drop_bit 12 w AND 0x7 = drop_bit 12 v AND 0x7"
    and f7: "drop_bit 25 w AND 0x7f = drop_bit 25 v AND 0x7f"
    using opcode_of_match [OF assms] drop_field_of_match [OF assms, of 12 7]
      drop_field_of_match [OF assms, of 25 "0x7f"] by simp_all
  have "drop_bit 25 x AND 0x7f = drop_bit 25 x" for x :: u32
    using drop_and_mask_field [of 25 x 7] drop_bit_field [of 25 x]
    by (simp add: mask_eq_exp_minus_1)
  with f7 show "drop_bit 25 w = drop_bit 25 v" by metis
qed

lemmas decoder_defs = raw_binary_to_inst_def OpcodeMap_try_from_def decode_op_def decode_op_imm_def
  decode_load_def decode_store_def decode_branch_def decode_system_def

definition decodes_as :: "u32 \<times> u32 \<times> (u32 \<Rightarrow> Instruction) \<Rightarrow> bool" where
  "decodes_as e = (case e of (m, v, k) \<Rightarrow> \<forall>w. w AND m = v \<longrightarrow> raw_binary_to_inst w = Inr (k w))"

lemma decodes_as_opcode:
  "(\<And>w. w AND 0x7f = v \<Longrightarrow> raw_binary_to_inst w = Inr (k w)) \<Longrightarrow> decodes_as (0x7f, v, k)"
  by (simp add: decodes_as_def)

lemma decodes_as_funct3:
  "(\<And>w. w AND 0x7f = v AND 0x7f \<Longrightarrow> drop_bit 12 w AND 0x7 = drop_bit 12 v AND 0x7 \<Longrightarrow>
     raw_binary_to_inst w = Inr (k w)) \<Longrightarrow> decodes_as (0x707f, v, k)"
  unfolding decodes_as_def prod.case using mask7_fields by blast

lemma decodes_as_funct7:
  "(\<And>w. w AND 0x7f = v AND 0x7f \<Longrightarrow> drop_bit 12 w AND 0x7 = drop_bit 12 v AND 0x7 \<Longrightarrow>
     drop_bit 25 w AND 0x7f = drop_bit 25 v AND 0x7f \<Longrightarrow> drop_bit 25 w = drop_bit 25 v \<Longrightarrow>
     raw_binary_to_inst w = Inr (k w)) \<Longrightarrow> decodes_as (0xfe00707f, v, k)"
  unfolding decodes_as_def prod.case using mask7_funct7_fields by blast

lemma decodes_as_exact:
  "raw_binary_to_inst v = Inr (k v) \<Longrightarrow> decodes_as (0xffffffff, v, k)"
proof -
  have m: "(0xffffffff :: u32) = - 1" by simp
  have "w AND 0xffffffff = w" for w :: u32
    unfolding m by (rule word_and_max)
  then show "raw_binary_to_inst v = Inr (k v) \<Longrightarrow> ?thesis"
    by (simp add: decodes_as_def)
qed

lemmas decodes_as_intros =
  decodes_as_opcode decodes_as_funct3 decodes_as_funct7 decodes_as_exact

lemma isa_table_decodes: "list_all decodes_as isa_table"
  unfolding isa_table_def list.pred_inject(2)
  by (intro conjI list.pred_inject(1)) (rule decodes_as_intros, simp add: decoder_defs Let_def)+

lemma func3_cases: "ucast (x AND 7) \<in> {0, 1, 2, 3, 4, 5, 6, 7 :: u8}" for x :: u32
proof -
  have "unat (x AND 7) \<le> unat (7 :: u32)"
    by (rule word_and_le1 [THEN word_le_nat_alt [THEN iffD1]])
  then have "unat (x AND 7) \<in> {0, 1, 2, 3, 4, 5, 6, 7}" by auto
  then obtain n where n: "n \<in> {0, 1, 2, 3, 4, 5, 6, 7}" "n = unat (x AND 7)" by blast
  then have "ucast (x AND 7) = (of_nat n :: u8)" by (simp only: of_nat_unat)
  with n(1) show ?thesis by auto
qed

lemma decode_op_total: "\<exists>i. decode_op w = Inr i"
  using func3_cases [of "drop_bit 12 w"] by (auto simp: decode_op_def Let_def)

lemma decode_op_imm_total: "\<exists>i. decode_op_imm w = Inr i"
  using func3_cases [of "drop_bit 12 w"] by (auto simp: decode_op_imm_def Let_def)

lemma opcode_fence_iff:
  "OpcodeMap_try_from (ucast (w AND 0x7f)) = Some MiscMem \<longleftrightarrow> w AND 0x7f = 0x0f" for w :: u32
proof -
  have "unat (w AND 0x7f) \<le> unat (0x7f :: u32)"
    by (rule word_and_le1 [THEN word_le_nat_alt [THEN iffD1]])
  then have u: "unat (ucast (w AND 0x7f) :: u8) = unat (w AND 0x7f)"
    by (simp add: unsigned_ucast_eq take_bit_nat_eq_self)
  have "(ucast (w AND 0x7f) :: u8) = 0x0f \<longleftrightarrow> unat (ucast (w AND 0x7f) :: u8) = 15"
    by (auto simp: word_unat_eq_iff)
  also have "\<dots> \<longleftrightarrow> w AND 0x7f = 0x0f"
    unfolding u by (auto simp: word_unat_eq_iff)
  finally show ?thesis by (auto simp: OpcodeMap_try_from_def)
qed

lemma raw_binary_to_inst_no_fence: "raw_binary_to_inst w \<noteq> Inr (Fence i)"
  by (auto simp: decoder_defs Let_def)



text \<open>
  C24.  Fetch-time decoding panics on exactly the words with the MISC-MEM opcode (FENCE), which reach
  a \<open>todo!()\<close>; every other word, legal or not, yields an instruction value.
\<close>

theorem raw_binary_to_inst_panic_iff:
  "raw_binary_to_inst w = Inl e \<longleftrightarrow> w AND 0x7f = 0x0f \<and> e = TodoFence"
proof (cases "OpcodeMap_try_from (ucast (w AND 0x7f))")
  case None
  with opcode_fence_iff [of w] show ?thesis by (auto simp: raw_binary_to_inst_def Let_def)
next
  case (Some oc)
  with opcode_fence_iff [of w] decode_op_total [of w] decode_op_imm_total [of w]
  show ?thesis by (cases oc) (auto simp: raw_binary_to_inst_def Let_def)
qed
end
