(* ===== verification/Branch_Predictor.thy ===== *)
theory Branch_Predictor
  imports Prelude
begin

text \<open>
  Branch prediction (\<^verbatim>\<open>hardware/branch_predictor\<close>): the result type, the always-not-taken dummy
  predictor, the bimodal predictor with its saturating counter and branch history table, the
  unimplemented two-level predictor, and the dispatch of \<open>Box<dyn BranchPredict>\<close>.  The locale
  \<open>branch_predictor\<close> is the interface the fetch stage relies on; it is interpreted on the
  dispatch and on both implementations.
\<close>

record BranchPredictResult =
  bp_direction :: bool
  bp_addr :: u32

text \<open>Dummy predictor.\<close>

definition not_taken :: BranchPredictResult where
  "not_taken = \<lparr>bp_direction = False, bp_addr = 0\<rparr>"

definition dummy_branch_predict :: "unit \<Rightarrow> u32 \<Rightarrow> BranchPredictResult" where
  "dummy_branch_predict p pc = \<lparr>bp_direction = False, bp_addr = 0\<rparr>"

definition dummy_mispredict_recovery :: "unit \<Rightarrow> bool \<Rightarrow> u32 \<Rightarrow> u32 \<Rightarrow> unit" where
  "dummy_mispredict_recovery p correct_direction pc target_addr = p"

subsection \<open>Bimodal predictor\<close>

datatype BimodalCounter = BimodalCounter u8

definition BimodalCounter_new :: BimodalCounter where
  "BimodalCounter_new = BimodalCounter 0"

fun get_direction :: "BimodalCounter \<Rightarrow> bool" where
  "get_direction (BimodalCounter c) = (if c \<le> 1 then False else True)"

fun counter_increase :: "BimodalCounter \<Rightarrow> BimodalCounter" where
  "counter_increase (BimodalCounter c) = BimodalCounter (if c < 3 then c + 1 else c)"

fun counter_decrease :: "BimodalCounter \<Rightarrow> BimodalCounter" where
  "counter_decrease (BimodalCounter c) = BimodalCounter (if c > 0 then c - 1 else c)"

record TagPcPair =
  tp_tag :: u32
  tp_target_pc :: u32

record BimodalPredictor =
  direction_predictor :: BimodalCounter
  history_table :: "u32 \<rightharpoonup> TagPcPair"

definition BimodalPredictor_new :: BimodalPredictor where
  "BimodalPredictor_new = \<lparr>direction_predictor = BimodalCounter_new, history_table = Map.empty\<rparr>"

definition pc_hash :: "u32 \<Rightarrow> u32" where
  "pc_hash pc = pc AND 0xffffffff"

definition bimodal_branch_predict :: "BimodalPredictor \<Rightarrow> u32 \<Rightarrow> BranchPredictResult" where
  "bimodal_branch_predict p pc =
     (if get_direction (direction_predictor p) then
        (case history_table p pc of
           Some tag_pc \<Rightarrow>
             (if tp_tag tag_pc = pc
              then \<lparr>bp_direction = True, bp_addr = tp_target_pc tag_pc\<rparr>
              else \<lparr>bp_direction = False, bp_addr = 0\<rparr>)
         | None \<Rightarrow> \<lparr>bp_direction = False, bp_addr = 0\<rparr>)
      else \<lparr>bp_direction = False, bp_addr = 0\<rparr>)"

definition bimodal_mispredict_recovery ::
  "BimodalPredictor \<Rightarrow> bool \<Rightarrow> u32 \<Rightarrow> u32 \<Rightarrow> BimodalPredictor" where
  "bimodal_mispredict_recovery p correct_direction pc target_addr =
     (let p1 = p\<lparr>direction_predictor :=
                 (if correct_direction then counter_increase (direction_predictor p)
                  else counter_decrease (direction_predictor p))\<rparr>
      in case history_table p1 (pc_hash pc) of
           Some old_tag_pc \<Rightarrow>
             p1\<lparr>history_table := (history_table p1)
                 (pc_hash pc \<mapsto> old_tag_pc\<lparr>tp_tag := pc, tp_target_pc := target_addr\<rparr>)\<rparr>
         | None \<Rightarrow>
             p1\<lparr>history_table := (history_table p1)
                 (pc_hash pc \<mapsto> \<lparr>tp_tag = pc, tp_target_pc = target_addr\<rparr>)\<rparr>)"

subsection \<open>Two-level adaptive predictor: every operation is \<open>todo!()\<close>\<close>

definition two_level_new :: "unit res" where
  "two_level_new = Inl TodoPredictor"

definition two_level_branch_predict :: "u32 \<Rightarrow> BranchPredictResult res" where
  "two_level_branch_predict current_pc = Inl TodoPredictor"

definition two_level_mispredict_recovery :: "bool \<Rightarrow> u32 \<Rightarrow> u32 \<Rightarrow> unit res" where
  "two_level_mispredict_recovery correct_direction pc target_addr = Inl TodoPredictor"

subsection \<open>Dynamic dispatch\<close>

datatype Predictor = DummyPredictor | Bimodal BimodalPredictor

fun branch_predict :: "Predictor \<Rightarrow> u32 \<Rightarrow> BranchPredictResult" where
  "branch_predict DummyPredictor pc = dummy_branch_predict () pc"
| "branch_predict (Bimodal p) pc = bimodal_branch_predict p pc"

fun mispredict_recovery :: "Predictor \<Rightarrow> bool \<Rightarrow> u32 \<Rightarrow> u32 \<Rightarrow> Predictor" where
  "mispredict_recovery DummyPredictor d pc t = DummyPredictor"
| "mispredict_recovery (Bimodal p) d pc t = Bimodal (bimodal_mispredict_recovery p d pc t)"

subsection \<open>Interface\<close>

text \<open>A recovery event: actual direction, branch address, destination.\<close>

type_synonym recovery = "bool \<times> u32 \<times> u32"

text \<open>Destination of the latest recovery at \<open>pc\<close>, over a history with the latest event last.\<close>

fun last_target :: "recovery list \<Rightarrow> u32 \<Rightarrow> u32 option" where
  "last_target [] pc = None"
| "last_target ((d, a, t) # evs) pc =
     (case last_target evs pc of Some x \<Rightarrow> Some x | None \<Rightarrow> if a = pc then Some t else None)"

locale branch_predictor =
  fixes predict :: "'p \<Rightarrow> u32 \<Rightarrow> BranchPredictResult"
    and recover :: "'p \<Rightarrow> bool \<Rightarrow> u32 \<Rightarrow> u32 \<Rightarrow> 'p"
    and target :: "'p \<Rightarrow> u32 \<Rightarrow> u32 option"
  assumes predict_taken: "bp_direction (predict p pc) \<Longrightarrow> target p pc = Some (bp_addr (predict p pc))"
    and predict_not_taken: "\<not> bp_direction (predict p pc) \<Longrightarrow> bp_addr (predict p pc) = 0"
    and recover_target: "target (recover p d a t) \<subseteq>\<^sub>m (target p)(a \<mapsto> t)"
begin

fun train :: "'p \<Rightarrow> recovery list \<Rightarrow> 'p" where
  "train p [] = p"
| "train p ((d, a, t) # evs) = train (recover p d a t) evs"

lemma train_target:
  "target (train p evs) pc = Some x \<Longrightarrow>
   last_target evs pc = Some x \<or> last_target evs pc = None \<and> target p pc = Some x"
proof (induction p evs rule: train.induct)
  case (1 p)
  then show ?case by simp
next
  case (2 p d a t evs)
  from recover_target [of p d a t] have
    "target (recover p d a t) pc = Some y \<Longrightarrow> ((target p)(a \<mapsto> t)) pc = Some y" for y
    by (auto simp: map_le_def dom_def)
  with 2 show ?case by (auto split: option.splits if_splits)
qed

lemma taken_prediction_is_last_target:
  assumes "target p = Map.empty" "bp_direction (predict (train p evs) pc)"
  shows "last_target evs pc = Some (bp_addr (predict (train p evs) pc))"
  using train_target [OF predict_taken [OF assms(2)]] assms(1) by auto

end

subsection \<open>The implementations meet the interface\<close>

definition bimodal_target :: "BimodalPredictor \<Rightarrow> u32 \<Rightarrow> u32 option" where
  "bimodal_target p pc = map_option tp_target_pc (history_table p pc)"

fun predictor_target :: "Predictor \<Rightarrow> u32 \<Rightarrow> u32 option" where
  "predictor_target DummyPredictor pc = None"
| "predictor_target (Bimodal p) pc = bimodal_target p pc"

lemma pc_hash_id [simp]: "pc_hash pc = pc"
proof -
  have m: "(0xffffffff :: u32) = - 1" by simp
  show ?thesis unfolding pc_hash_def m by (rule word_and_max)
qed

lemma bimodal_target_recovery:
  "bimodal_target (bimodal_mispredict_recovery p d a t) = (bimodal_target p)(a \<mapsto> t)"
  by (rule ext) (auto simp: bimodal_target_def bimodal_mispredict_recovery_def Let_def
      split: option.splits)

interpretation bimodal_bp: branch_predictor
  bimodal_branch_predict bimodal_mispredict_recovery bimodal_target
  by unfold_locales
    (auto simp: bimodal_branch_predict_def bimodal_target_recovery bimodal_target_def
      split: option.splits if_splits)

interpretation dummy_bp: branch_predictor
  dummy_branch_predict dummy_mispredict_recovery "\<lambda>_ _. None"
  by unfold_locales (auto simp: dummy_branch_predict_def map_le_def)

lemma predictor_target_Bimodal: "predictor_target (Bimodal p) = bimodal_target p"
  by (rule ext) simp

lemma predictor_target_Dummy: "predictor_target DummyPredictor = Map.empty"
  by (rule ext) simp

interpretation dyn_bp: branch_predictor branch_predict mispredict_recovery predictor_target
proof unfold_locales
  fix p pc
  show "bp_direction (branch_predict p pc) \<Longrightarrow>
    predictor_target p pc = Some (bp_addr (branch_predict p pc))"
    by (cases p) (simp_all add: bimodal_bp.predict_taken dummy_branch_predict_def)
  show "\<not> bp_direction (branch_predict p pc) \<Longrightarrow> bp_addr (branch_predict p pc) = 0"
    by (cases p) (simp_all add: bimodal_bp.predict_not_taken dummy_branch_predict_def)
next
  fix p d a t
  show "predictor_target (mispredict_recovery p d a t) \<subseteq>\<^sub>m (predictor_target p)(a \<mapsto> t)"
    by (cases p) (auto simp: predictor_target_Bimodal predictor_target_Dummy
        bimodal_target_recovery map_le_def)
qed

subsection \<open>The saturating counter\<close>

fun counter_value :: "BimodalCounter \<Rightarrow> nat" where
  "counter_value (BimodalCounter c) = unat c"

definition bimodal_inv :: "BimodalPredictor \<Rightarrow> bool" where
  "bimodal_inv p \<longleftrightarrow> counter_value (direction_predictor p) \<le> 3 \<and>
     (\<forall>pc e. history_table p pc = Some e \<longrightarrow> tp_tag e = pc)"

lemma counter_increase_value:
  "counter_value c \<le> 3 \<Longrightarrow> counter_value (counter_increase c) = min 3 (Suc (counter_value c))"
  by (cases c) (auto simp: word_less_nat_alt unat_word_ariths)

lemma counter_decrease_value: "counter_value (counter_decrease c) = counter_value c - 1"
  by (cases c) (auto simp: word_less_nat_alt unat_sub_if' word_neq_0_conv [symmetric]
      unat_eq_0 [symmetric] split: if_splits)

lemma get_direction_value: "get_direction c \<longleftrightarrow> 2 \<le> counter_value c"
  by (cases c) (auto simp: word_le_nat_alt)

lemma bimodal_inv_new: "bimodal_inv BimodalPredictor_new"
  by (simp add: bimodal_inv_def BimodalPredictor_new_def BimodalCounter_new_def)

lemma bimodal_inv_recovery:
  "bimodal_inv p \<Longrightarrow> bimodal_inv (bimodal_mispredict_recovery p d a t)"
  by (auto simp: bimodal_inv_def bimodal_mispredict_recovery_def Let_def counter_increase_value
      counter_decrease_value split: option.splits if_splits)

text \<open>
  C22.  Predicted targets are real: whichever predictor is plugged in, after any history of
  mispredict recoveries from its initial state a taken prediction for \<open>pc\<close> names the destination of
  the latest recovery reported for \<open>pc\<close>; a branch that was never recovered is predicted not taken.
\<close>

theorem taken_prediction_last_recovery:
  assumes "p = DummyPredictor \<or> p = Bimodal BimodalPredictor_new"
    and "bp_direction (branch_predict (dyn_bp.train p evs) pc)"
  shows "last_target evs pc = Some (bp_addr (branch_predict (dyn_bp.train p evs) pc))"
proof (rule dyn_bp.taken_prediction_is_last_target [OF _ assms(2)])
  from assms(1) show "predictor_target p = Map.empty"
    by (auto simp: predictor_target_Bimodal predictor_target_Dummy bimodal_target_def
        BimodalPredictor_new_def)
qed

theorem taken_prediction_last_recovery_witness:
  "last_target [(True, 0x10, 0x40), (True, 0x20, 0x80)] 0x10 =
     Some (bp_addr (branch_predict (dyn_bp.train (Bimodal BimodalPredictor_new)
       [(True, 0x10, 0x40), (True, 0x20, 0x80)]) 0x10))"
proof (rule taken_prediction_last_recovery)
  show "bp_direction (branch_predict (dyn_bp.train (Bimodal BimodalPredictor_new)
      [(True, 0x10, 0x40), (True, 0x20, 0x80)]) 0x10)"
    by (simp add: bimodal_mispredict_recovery_def bimodal_branch_predict_def
        BimodalPredictor_new_def BimodalCounter_new_def Let_def word_le_nat_alt)
qed simp

fun saturate :: "bool list \<Rightarrow> nat \<Rightarrow> nat" where
  "saturate [] c = c"
| "saturate (d # ds) c = saturate ds (if d then min 3 (Suc c) else c - 1)"

lemma bimodal_recovery_counter:
  assumes "bimodal_inv p"
  shows "counter_value (direction_predictor (bimodal_mispredict_recovery p d a t)) =
    (if d then min 3 (Suc (counter_value (direction_predictor p)))
     else counter_value (direction_predictor p) - 1)"
  using assms by (auto simp: bimodal_inv_def bimodal_mispredict_recovery_def Let_def
      counter_increase_value counter_decrease_value split: option.splits)

lemma bimodal_train_counter:
  "bimodal_inv p \<Longrightarrow> bimodal_inv (bimodal_bp.train p evs) \<and>
     counter_value (direction_predictor (bimodal_bp.train p evs)) =
       saturate (map fst evs) (counter_value (direction_predictor p))"
proof (induction p evs rule: bimodal_bp.train.induct)
  case (1 p)
  then show ?case by simp
next
  case (2 p d a t evs)
  then show ?case using bimodal_recovery_counter [of p d a t]
    by (simp add: bimodal_inv_recovery)
qed

lemma saturate_le: "c \<le> 3 \<Longrightarrow> saturate ds c \<le> 3"
  by (induction ds c rule: saturate.induct) auto

text \<open>
  C23.  The direction of the bimodal predictor is a two-bit saturating counter of the recovered
  directions: after any recovery history the shared counter stays within 0 to 3, and a branch
  with a table entry is predicted taken exactly when the counter, started at 0 and moved by one
  towards 3 or 0 with each recovery, has reached 2.
\<close>

theorem bimodal_direction_saturating:
  "counter_value (direction_predictor (bimodal_bp.train BimodalPredictor_new evs)) \<le> 3 \<and>
   (bp_direction (bimodal_branch_predict (bimodal_bp.train BimodalPredictor_new evs) pc) \<longleftrightarrow>
      history_table (bimodal_bp.train BimodalPredictor_new evs) pc \<noteq> None \<and>
      2 \<le> saturate (map fst evs) 0)"
proof -
  have v: "counter_value (direction_predictor BimodalPredictor_new) = 0"
    by (simp add: BimodalPredictor_new_def BimodalCounter_new_def)
  note t = bimodal_train_counter [OF bimodal_inv_new, of evs, unfolded v]
  then show ?thesis
    by (auto simp: bimodal_branch_predict_def bimodal_inv_def get_direction_value not_taken_def
        split: option.splits)
qed

end
