(* ===== verification/Uop.thy ===== *)
theory Uop
  imports Riscv_Instruction Branch_Predictor
begin

text \<open>
  Micro-operations (\<^verbatim>\<open>hardware/uop.rs\<close>): ALU selectors, memory accesses with load materialization,
  branch resolution and the \<open>PreDecodeMicroOp\<close> that flows through the pipeline stages.
\<close>

datatype AluOpTypes =
  Add | Sll | Slt | Sltu | Xor | Srl | Or | And | Sub | Sra
  | Mul | Mulh | Mulhu | Mulhsu | Div | Divu | Rem | Remu

datatype AluOpOneSelect = RegRs1 | CurrentPc | Zero
datatype AluOpTwoSelect = RegRs2 | ImmSignExt

datatype MemoryAccessWidth = Byte | HalfWord | Word

fun width_len :: "MemoryAccessWidth \<Rightarrow> nat" where
  "width_len Byte = 1"
| "width_len HalfWord = 2"
| "width_len Word = 4"

datatype LoadExtension = ExtSign | ExtZero

datatype MemoryAccess =
    MaLoad u32 MemoryAccessWidth LoadExtension
  | MaStore u32 MemoryAccessWidth u32

fun ma_addr :: "MemoryAccess \<Rightarrow> u32" where
  "ma_addr (MaLoad addr _ _) = addr"
| "ma_addr (MaStore addr _ _) = addr"

fun ma_len :: "MemoryAccess \<Rightarrow> nat" where
  "ma_len (MaLoad _ width _) = width_len width"
| "ma_len (MaStore _ width _) = width_len width"

fun ma_store_value :: "MemoryAccess \<Rightarrow> u32 option" where
  "ma_store_value (MaStore _ _ v) = Some v"
| "ma_store_value (MaLoad _ _ _) = None"

fun ma_is_load :: "MemoryAccess \<Rightarrow> bool" where
  "ma_is_load (MaLoad _ _ _) = True"
| "ma_is_load (MaStore _ _ _) = False"

text \<open>\<open>u32::from_le_bytes\<close> and \<open>u32::to_le_bytes\<close> on four bytes.\<close>

definition from_le_bytes :: "u8 list \<Rightarrow> u32" where
  "from_le_bytes bs = foldr (\<lambda>b acc. ucast b OR push_bit 8 acc) bs 0"

definition to_le_bytes :: "u32 \<Rightarrow> u8 list" where
  "to_le_bytes w = [ucast w, ucast (drop_bit 8 w), ucast (drop_bit 16 w), ucast (drop_bit 24 w)]"

fun loaded_value :: "MemoryAccess \<Rightarrow> u8 list \<Rightarrow> u32 res" where
  "loaded_value (MaStore _ _ _) bytes = Inl NotALoadAccess"
| "loaded_value (MaLoad _ width extension) bytes =
     bindR (assertR (length bytes = width_len width) (LoadedLength (length bytes) (width_len width)))
       (\<lambda>_. let word = bytes @ replicate (4 - length bytes) 0;
                value = from_le_bytes word
            in Inr (case (width, extension) of
                      (Byte, ExtSign) \<Rightarrow> scast (ucast value :: u8)
                    | (HalfWord, ExtSign) \<Rightarrow> scast (ucast value :: u16)
                    | (_, ExtZero) \<Rightarrow> value
                    | (Word, ExtSign) \<Rightarrow> value))"

record BranchResolutionInputs =
  br_inst :: Instruction
  br_pc :: u32
  br_predicted :: BranchPredictResult
  br_rs1 :: u32
  br_rs2 :: u32
  br_target :: u32

definition needs_recovery :: "BranchResolutionInputs \<Rightarrow> bool \<Rightarrow> bool" where
  "needs_recovery b actual_direction =
     (bp_direction (br_predicted b) \<noteq> actual_direction \<or>
      (actual_direction \<and> bp_addr (br_predicted b) \<noteq> br_target b))"

definition recovery_destination :: "BranchResolutionInputs \<Rightarrow> bool \<Rightarrow> u32" where
  "recovery_destination b actual_direction =
     (if actual_direction then br_target b else br_pc b + 4)"

record PreDecodeMicroOp =
  op_raw_inst :: u32
  op_inst :: Instruction
  op_pc :: u32
  op_rs1 :: "(u8 \<times> u32) option"
  op_rs2 :: "(u8 \<times> u32) option"
  op_immediate_signext :: u32
  op_alu_op_type :: AluOpTypes
  op_alu_op1_sel :: AluOpOneSelect
  op_alu_op2_sel :: AluOpTwoSelect
  op_alu_result :: u32
  op_alu_result_as_rd_dst_value :: bool
  op_rd_index :: "u8 option"
  op_rd_write_value :: "u32 option"
  op_bp_result :: "BranchPredictResult option"
  op_placeholder :: bool

definition PreDecodeMicroOp_default :: PreDecodeMicroOp where
  "PreDecodeMicroOp_default =
     \<lparr>op_raw_inst = 0, op_inst = Instruction_default, op_pc = 0, op_rs1 = None, op_rs2 = None,
      op_immediate_signext = 0, op_alu_op_type = Add, op_alu_op1_sel = RegRs1,
      op_alu_op2_sel = RegRs2, op_alu_result = 0, op_alu_result_as_rd_dst_value = False,
      op_rd_index = None, op_rd_write_value = None, op_bp_result = None, op_placeholder = False\<rparr>"

definition fetched :: "u32 \<Rightarrow> Instruction \<Rightarrow> u32 \<Rightarrow> PreDecodeMicroOp" where
  "fetched raw_inst inst pc =
     PreDecodeMicroOp_default\<lparr>op_raw_inst := raw_inst, op_inst := inst, op_pc := pc\<rparr>"

definition fetched_branch ::
  "u32 \<Rightarrow> Instruction \<Rightarrow> u32 \<Rightarrow> BranchPredictResult \<Rightarrow> PreDecodeMicroOp" where
  "fetched_branch raw_inst inst pc bp = (fetched raw_inst inst pc)\<lparr>op_bp_result := Some bp\<rparr>"

definition generate_nop :: PreDecodeMicroOp where
  "generate_nop =
     PreDecodeMicroOp_default\<lparr>op_pc := 0xffffffff, op_inst := Addi (IType 0x00000013),
       op_rs1 := Some (0, 0), op_rs2 := Some (0, 0)\<rparr>"

definition placeholder_nop :: PreDecodeMicroOp where
  "placeholder_nop = generate_nop\<lparr>op_placeholder := True\<rparr>"

definition memory_access :: "PreDecodeMicroOp \<Rightarrow> MemoryAccess option res" where
  "memory_access op =
     (let addr = op_alu_result op;
          store = (\<lambda>width. bindR (unwrapR MissingRs2 (op_rs2 op))
                     (\<lambda>r. Inr (Some (MaStore addr width (snd r)))))
      in case op_inst op of
           Lb _ \<Rightarrow> Inr (Some (MaLoad addr Byte ExtSign))
         | Lh _ \<Rightarrow> Inr (Some (MaLoad addr HalfWord ExtSign))
         | Lw _ \<Rightarrow> Inr (Some (MaLoad addr Word ExtZero))
         | Lbu _ \<Rightarrow> Inr (Some (MaLoad addr Byte ExtZero))
         | Lhu _ \<Rightarrow> Inr (Some (MaLoad addr HalfWord ExtZero))
         | Sb _ \<Rightarrow> store Byte
         | Sh _ \<Rightarrow> store HalfWord
         | Sw _ \<Rightarrow> store Word
         | _ \<Rightarrow> Inr None)"

definition op_is_load :: "PreDecodeMicroOp \<Rightarrow> bool res" where
  "op_is_load op =
     bindR (memory_access op)
       (\<lambda>a. Inr (case a of None \<Rightarrow> False | Some m \<Rightarrow> ma_is_load m))"

fun is_control_flow :: "Instruction \<Rightarrow> bool" where
  "is_control_flow (Beq _) = True"
| "is_control_flow (Bne _) = True"
| "is_control_flow (Blt _) = True"
| "is_control_flow (Bge _) = True"
| "is_control_flow (Bltu _) = True"
| "is_control_flow (Bgeu _) = True"
| "is_control_flow (Instruction.Jal _) = True"
| "is_control_flow (Instruction.Jalr _) = True"
| "is_control_flow _ = False"

definition branch_resolution_inputs :: "PreDecodeMicroOp \<Rightarrow> BranchResolutionInputs option res" where
  "branch_resolution_inputs op =
     (if is_control_flow (op_inst op) then
        bindR (unwrapR MissingPrediction (op_bp_result op))
          (\<lambda>predicted. Inr (Some
             \<lparr>br_inst = op_inst op, br_pc = op_pc op, br_predicted = predicted,
              br_rs1 = (case op_rs1 op of None \<Rightarrow> 0 | Some r \<Rightarrow> snd r),
              br_rs2 = (case op_rs2 op of None \<Rightarrow> 0 | Some r \<Rightarrow> snd r),
              br_target = op_alu_result op\<rparr>))
      else Inr None)"

definition set_writeback_value :: "u32 \<Rightarrow> PreDecodeMicroOp \<Rightarrow> PreDecodeMicroOp" where
  "set_writeback_value value op = op\<lparr>op_rd_write_value := Some value\<rparr>"

text \<open>\<open>self.rd_index.zip(self.rd_write_value)\<close>\<close>

definition writeback :: "PreDecodeMicroOp \<Rightarrow> (u8 \<times> u32) option" where
  "writeback op =
     (case (op_rd_index op, op_rd_write_value op) of
        (Some i, Some v) \<Rightarrow> Some (i, v) | _ \<Rightarrow> None)"

definition destination_register :: "PreDecodeMicroOp \<Rightarrow> u8 option" where
  "destination_register op = op_rd_index op"

definition is_placeholder :: "PreDecodeMicroOp \<Rightarrow> bool" where
  "is_placeholder op = op_placeholder op"

subsection \<open>Bytes and loaded values\<close>

lemma length_to_le_bytes [simp]: "length (to_le_bytes w) = 4"
  by (simp add: to_le_bytes_def)

lemma from_le_bytes_Nil [simp]: "from_le_bytes [] = 0"
  by (simp add: from_le_bytes_def)

lemma from_le_bytes_Cons [simp]: "from_le_bytes (b # bs) = ucast b OR push_bit 8 (from_le_bytes bs)"
  by (simp add: from_le_bytes_def)

lemma from_to_le_bytes: "from_le_bytes (to_le_bytes w) = w"
proof (rule bit_word_eqI)
  fix n assume "n < LENGTH(32)"
  then consider "n < 8" | "8 \<le> n" "n < 16" | "16 \<le> n" "n < 24" | "24 \<le> n" "n < 32"
    by fastforce
  then show "bit (from_le_bytes (to_le_bytes w)) n = bit w n"
    by cases (auto simp: to_le_bytes_def bit_simps)
qed

lemma from_le_bytes_take:
  "from_le_bytes [b] = ucast b"
  "from_le_bytes (take (width_len wd) (to_le_bytes w) @ replicate (4 - width_len wd) 0) =
     take_bit (8 * width_len wd) w"
proof -
  show "from_le_bytes [b] = ucast b" by simp
  show "from_le_bytes (take (width_len wd) (to_le_bytes w) @ replicate (4 - width_len wd) 0) =
     take_bit (8 * width_len wd) w"
  proof (cases wd)
    case Byte
    then show ?thesis
      by (intro bit_word_eqI) (auto simp: to_le_bytes_def bit_simps numeral_eq_Suc)
  next
    case HalfWord
    then show ?thesis
      by (intro bit_word_eqI) (auto simp: to_le_bytes_def bit_simps numeral_2_eq_2)
  next
    case Word
    then show ?thesis using from_to_le_bytes [of w] by (simp add: take_bit_word_eq_self)
  qed
qed

lemma scast_ucast_signed_take_bit:
  "scast (ucast w :: u8) = signed_take_bit 7 w"
  "scast (ucast w :: u16) = signed_take_bit 15 w" for w :: u32
  by (rule bit_word_eqI, auto simp: bit_simps min_def)+

lemma signed_take_bit_of_take_bit:
  "signed_take_bit 7 (take_bit 8 w) = signed_take_bit 7 w"
  "signed_take_bit 15 (take_bit 16 w) = signed_take_bit 15 w" for w :: u32
  by (rule bit_word_eqI, auto simp: bit_simps min_def)+

text \<open>
  C21.  Store/load round trip at byte level: materializing, at any width, the little-endian bytes a
  store of \<open>v\<close> of the same width writes gives the low bits of \<open>v\<close>, zero-extended or
  sign-extended as the load instruction asks.
\<close>

theorem loaded_value_of_stored_bytes:
  "loaded_value (MaLoad a wd e) (take (width_len wd) (to_le_bytes v)) =
     Inr (case e of ExtZero \<Rightarrow> take_bit (8 * width_len wd) v
                  | ExtSign \<Rightarrow> signed_take_bit (8 * width_len wd - 1) v)"
proof -
  have len: "min 4 (width_len wd) = width_len wd" by (cases wd) simp_all
  have "signed_take_bit 31 v = v"
  proof (rule bit_word_eqI)
    fix n assume "n < LENGTH(32)"
    then have "n < 31 \<or> n = 31" by auto
    then show "bit (signed_take_bit 31 v) n = bit v n" by (auto simp: bit_simps)
  qed
  then show ?thesis
    using from_le_bytes_take(2) [of wd v]
    by (cases wd; cases e)
      (simp_all add: len Let_def signed_take_bit_of_take_bit scast_ucast_signed_take_bit take_bit_word_eq_self)
qed

end
