(* ===== verification/Cache_Config.thy ===== *)
theory Cache_Config
  imports Prelude Complex_Main
begin

text \<open>
  Configuration of a cache (\<^verbatim>\<open>general_cache/config.rs\<close>), its write policy
  (\<^verbatim>\<open>write_policy.rs\<close>), the prefetchers (\<^verbatim>\<open>prefetcher.rs\<close>) and the event counters
  (\<^verbatim>\<open>statistic.rs\<close>).  The miss rates are the exact quotients of the counters; the rounding of
  \<open>f64\<close> is not modelled.
\<close>

subsection \<open>Write policy\<close>

datatype WritePolicy =
    WriteBackWriteAllocate
  | WriteBackNoWriteAllocate
  | WriteThroughWriteAllocate
  | WriteThroughNoWriteAllocate

definition default_write_policy :: WritePolicy where
  "default_write_policy = WriteBackWriteAllocate"

definition is_write_back :: "WritePolicy \<Rightarrow> bool" where
  "is_write_back p \<longleftrightarrow> p = WriteBackWriteAllocate \<or> p = WriteBackNoWriteAllocate"

definition is_write_through :: "WritePolicy \<Rightarrow> bool" where
  "is_write_through p \<longleftrightarrow> \<not> is_write_back p"

definition is_write_allocate :: "WritePolicy \<Rightarrow> bool" where
  "is_write_allocate p \<longleftrightarrow> p = WriteBackWriteAllocate \<or> p = WriteThroughWriteAllocate"

definition is_no_write_allocate :: "WritePolicy \<Rightarrow> bool" where
  "is_no_write_allocate p \<longleftrightarrow> \<not> is_write_allocate p"

subsection \<open>Prefetchers\<close>

datatype Prefetcher = NullPrefetcher | NextLinePrefetcher nat

datatype PrefetcherKind = PrefetchNull | PrefetchNextLine

definition default_prefetcher_kind :: PrefetcherKind where
  "default_prefetcher_kind = PrefetchNull"

definition u32_saturating_add :: "u32 \<Rightarrow> u32 \<Rightarrow> u32" where
  "u32_saturating_add a b = (if uint a + uint b < 2 ^ 32 then a + b else - 1)"

fun predict :: "Prefetcher \<Rightarrow> u32 \<Rightarrow> bool \<Rightarrow> bool \<Rightarrow> u32 list" where
  "predict NullPrefetcher addr is_hit is_store = []"
| "predict (NextLinePrefetcher block_size) addr is_hit is_store =
     (let bs = u32_of_usize block_size;
          block_aligned = addr AND NOT (bs - 1)
      in [u32_saturating_add block_aligned bs])"

fun PrefetcherKind_build :: "PrefetcherKind \<Rightarrow> nat \<Rightarrow> Prefetcher" where
  "PrefetcherKind_build PrefetchNull block_size = NullPrefetcher"
| "PrefetcherKind_build PrefetchNextLine block_size = NextLinePrefetcher block_size"

subsection \<open>Event counters\<close>

record CacheStatistic =
  cs_name :: string
  load_cnt :: nat
  store_cnt :: nat
  load_miss_cnt :: nat
  store_miss_cnt :: nat
  prefetch_issued_cnt :: nat
  load_miss_rate :: real
  store_miss_rate :: real
  overall_miss_rate :: real

definition CacheStatistic_new :: "string \<Rightarrow> CacheStatistic" where
  "CacheStatistic_new name =
     \<lparr>cs_name = name, load_cnt = 0, store_cnt = 0, load_miss_cnt = 0, store_miss_cnt = 0,
      prefetch_issued_cnt = 0, load_miss_rate = 0, store_miss_rate = 0, overall_miss_rate = 0\<rparr>"

definition hpm_load :: "bool \<Rightarrow> CacheStatistic \<Rightarrow> CacheStatistic" where
  "hpm_load is_miss s =
     (let s1 = s\<lparr>load_cnt := load_cnt s + 1\<rparr>
      in if is_miss then s1\<lparr>load_miss_cnt := load_miss_cnt s1 + 1\<rparr> else s1)"

definition hpm_store :: "bool \<Rightarrow> CacheStatistic \<Rightarrow> CacheStatistic" where
  "hpm_store is_miss s =
     (let s1 = s\<lparr>store_cnt := store_cnt s + 1\<rparr>
      in if is_miss then s1\<lparr>store_miss_cnt := store_miss_cnt s1 + 1\<rparr> else s1)"

definition safe_ratio :: "nat \<Rightarrow> nat \<Rightarrow> real" where
  "safe_ratio num den = (if den = 0 then 0 else real num / real den)"

definition finalize_rates :: "CacheStatistic \<Rightarrow> CacheStatistic" where
  "finalize_rates s =
     s\<lparr>load_miss_rate := safe_ratio (load_miss_cnt s) (load_cnt s),
       store_miss_rate := safe_ratio (store_miss_cnt s) (store_cnt s),
       overall_miss_rate :=
         safe_ratio (load_miss_cnt s + store_miss_cnt s) (load_cnt s + store_cnt s)\<rparr>"

definition cache_statistic_ok :: "CacheStatistic \<Rightarrow> bool" where
  "cache_statistic_ok s \<longleftrightarrow> load_miss_cnt s \<le> load_cnt s \<and> store_miss_cnt s \<le> store_cnt s"

lemma cache_statistic_ok_events [simp]:
  "cache_statistic_ok s \<Longrightarrow> cache_statistic_ok (hpm_load b s)"
  "cache_statistic_ok s \<Longrightarrow> cache_statistic_ok (hpm_store b s)"
  "cache_statistic_ok (CacheStatistic_new name)"
  by (simp_all add: cache_statistic_ok_def hpm_load_def hpm_store_def CacheStatistic_new_def Let_def)

lemma safe_ratio_range: "num \<le> den \<Longrightarrow> 0 \<le> safe_ratio num den \<and> safe_ratio num den \<le> 1"
  by (auto simp: safe_ratio_def)

text \<open>The miss rates of a cache whose counters are consistent lie between 0 and 1.\<close>

lemma finalize_rates_range:
  assumes "cache_statistic_ok s"
  shows "load_miss_rate (finalize_rates s) \<in> {0..1} \<and> store_miss_rate (finalize_rates s) \<in> {0..1} \<and>
    overall_miss_rate (finalize_rates s) \<in> {0..1} \<and> cache_statistic_ok (finalize_rates s)"
  using assms safe_ratio_range [of "load_miss_cnt s" "load_cnt s"]
    safe_ratio_range [of "store_miss_cnt s" "store_cnt s"]
    safe_ratio_range [of "load_miss_cnt s + store_miss_cnt s" "load_cnt s + store_cnt s"]
  by (simp add: finalize_rates_def cache_statistic_ok_def add_mono)

subsection \<open>Geometry\<close>

record CacheGeometry =
  geo_block_size :: nat
  geo_num_of_way :: nat
  geo_num_sets :: nat
  geo_offset_bit_width :: nat
  geo_index_bit_width :: nat

datatype GeneralCacheConfigError =
    ZeroTotalSize
  | ZeroBlockSize
  | BlockSizeNotPowerOfTwo nat
  | ZeroAssociativity
  | SetCapacityOverflow nat nat
  | TotalSizeNotSetMultiple nat nat nat
  | NumSetsNotPowerOfTwo nat

text \<open>\<open>usize\<close> has 64 bits on the host.\<close>

definition usize_checked_mul :: "nat \<Rightarrow> nat \<Rightarrow> nat option" where
  "usize_checked_mul a b = (if a * b < 2 ^ 64 then Some (a * b) else None)"

definition CacheGeometry_new ::
  "nat \<Rightarrow> nat \<Rightarrow> nat \<Rightarrow> GeneralCacheConfigError + CacheGeometry" where
  "CacheGeometry_new total_size block_size num_of_way =
     (if total_size = 0 then Inl ZeroTotalSize
      else if block_size = 0 then Inl ZeroBlockSize
      else if \<not> is_power_of_two block_size then Inl (BlockSizeNotPowerOfTwo block_size)
      else if num_of_way = 0 then Inl ZeroAssociativity
      else case usize_checked_mul block_size num_of_way of
        None \<Rightarrow> Inl (SetCapacityOverflow block_size num_of_way)
      | Some set_capacity \<Rightarrow>
          if total_size mod set_capacity \<noteq> 0
          then Inl (TotalSizeNotSetMultiple total_size block_size num_of_way)
          else let num_sets = total_size div set_capacity in
            if \<not> is_power_of_two num_sets then Inl (NumSetsNotPowerOfTwo num_sets)
            else Inr \<lparr>geo_block_size = block_size, geo_num_of_way = num_of_way,
                      geo_num_sets = num_sets, geo_offset_bit_width = ilog2 block_size,
                      geo_index_bit_width = ilog2 num_sets\<rparr>)"

record GeneralCacheConfig =
  cfg_name :: string
  cfg_geometry :: CacheGeometry
  cfg_miss_penalty :: nat
  cfg_write_policy :: WritePolicy
  cfg_prefetcher_kind :: PrefetcherKind

definition DEFAULT_MISS_PENALTY_CYCLES :: nat where
  "DEFAULT_MISS_PENALTY_CYCLES = 5"

definition GeneralCacheConfig_new ::
  "string \<Rightarrow> nat \<Rightarrow> nat \<Rightarrow> nat \<Rightarrow> GeneralCacheConfigError + GeneralCacheConfig" where
  "GeneralCacheConfig_new name total_size block_size num_of_way =
     (case CacheGeometry_new total_size block_size num_of_way of
        Inl e \<Rightarrow> Inl e
      | Inr g \<Rightarrow> Inr \<lparr>cfg_name = name, cfg_geometry = g,
                     cfg_miss_penalty = DEFAULT_MISS_PENALTY_CYCLES,
                     cfg_write_policy = default_write_policy,
                     cfg_prefetcher_kind = default_prefetcher_kind\<rparr>)"

definition with_miss_penalty :: "nat \<Rightarrow> GeneralCacheConfig \<Rightarrow> GeneralCacheConfig" where
  "with_miss_penalty cycles c = c\<lparr>cfg_miss_penalty := cycles\<rparr>"

definition with_write_policy :: "WritePolicy \<Rightarrow> GeneralCacheConfig \<Rightarrow> GeneralCacheConfig" where
  "with_write_policy wp c = c\<lparr>cfg_write_policy := wp\<rparr>"

definition with_prefetcher_kind :: "PrefetcherKind \<Rightarrow> GeneralCacheConfig \<Rightarrow> GeneralCacheConfig" where
  "with_prefetcher_kind k c = c\<lparr>cfg_prefetcher_kind := k\<rparr>"

text \<open>The geometries that partition a cache into sets, ways and blocks exactly.\<close>

definition geometry_ok :: "nat \<Rightarrow> nat \<Rightarrow> nat \<Rightarrow> CacheGeometry \<Rightarrow> bool" where
  "geometry_ok total_size block_size num_of_way g \<longleftrightarrow>
     0 < num_of_way \<and> block_size * num_of_way < 2 ^ 64 \<and>
     geo_block_size g = block_size \<and> geo_num_of_way g = num_of_way \<and>
     2 ^ geo_offset_bit_width g = block_size \<and> 2 ^ geo_index_bit_width g = geo_num_sets g \<and>
     total_size = geo_num_sets g * num_of_way * block_size"

lemma CacheGeometry_new_sound:
  "CacheGeometry_new total_size block_size num_of_way = Inr g \<Longrightarrow>
   geometry_ok total_size block_size num_of_way g"
  by (auto simp: CacheGeometry_new_def geometry_ok_def usize_checked_mul_def exp_ilog2 Let_def
      algebra_simps split: if_splits)

lemma CacheGeometry_accept_iff:
  "CacheGeometry_new total_size block_size num_of_way = Inr g \<longleftrightarrow>
   geometry_ok total_size block_size num_of_way g"
proof
  assume "CacheGeometry_new total_size block_size num_of_way = Inr g"
  then show "geometry_ok total_size block_size num_of_way g" by (rule CacheGeometry_new_sound)
next
  assume ok: "geometry_ok total_size block_size num_of_way g"
  then have p: "is_power_of_two block_size" "is_power_of_two (geo_num_sets g)"
    by (metis geometry_ok_def is_power_of_two_exp)+
  then have pos: "0 < block_size" "0 < geo_num_sets g" by (simp_all add: is_power_of_two_def)
  have t: "total_size = geo_num_sets g * (block_size * num_of_way)" "0 < num_of_way"
    "block_size * num_of_way < 2 ^ 64" using ok by (auto simp: geometry_ok_def)
  have "CacheGeometry_new total_size block_size num_of_way =
    Inr \<lparr>geo_block_size = block_size, geo_num_of_way = num_of_way, geo_num_sets = geo_num_sets g,
      geo_offset_bit_width = ilog2 block_size, geo_index_bit_width = ilog2 (geo_num_sets g)\<rparr>"
    using t(2,3) p pos unfolding t(1) CacheGeometry_new_def usize_checked_mul_def Let_def by simp
  also have "\<dots> = Inr g"
    using ok by (cases g) (auto simp: geometry_ok_def)
  finally show "CacheGeometry_new total_size block_size num_of_way = Inr g" .
qed

end
