(* ===== verification/Replacement_Policy.thy ===== *)
theory Replacement_Policy
  imports Prelude
begin

text \<open>
  The replacement policies of a cache set
  (\<^verbatim>\<open>hardware/mem/general_cache/replacement_policy.rs\<close>): random, FIFO and tree pseudo-LRU.  The trait
  \<open>ReplacementPolicy\<close> is a record of operations that the cache set receives as an argument; the
  locale \<open>replacement_policy\<close> is what the cache relies on: each policy keeps a valid bit per way,
  \<open>evict\<close> prefers a way that is not valid, reports whether the set was full and clears the bit of
  its victim.
\<close>

record 'rp rp_ops =
  rp_new :: "nat \<Rightarrow> 'rp res"
  rp_insert :: "nat \<Rightarrow> 'rp \<Rightarrow> 'rp res"
  rp_invalidate :: "nat \<Rightarrow> 'rp \<Rightarrow> 'rp res"
  rp_promote :: "nat \<Rightarrow> 'rp \<Rightarrow> 'rp res"
  rp_evict :: "'rp \<Rightarrow> (bool \<times> nat \<times> 'rp) res"

text \<open>The scan for the first way without a valid bit, common to the three policies.\<close>

fun first_invalid :: "bool list \<Rightarrow> nat option" where
  "first_invalid [] = None"
| "first_invalid (v # vs) = (if \<not> v then Some 0 else map_option Suc (first_invalid vs))"

subsection \<open>Random\<close>

text \<open>
  The generator is the \<open>rand\<close> crate's: \<open>random_range n g\<close> is the pair of the drawn number and the
  next generator state.
\<close>

record 'g RandomRP =
  rnd_valid :: "bool list"
  rnd_rng :: 'g

definition RandomRP_new :: "'g \<Rightarrow> nat \<Rightarrow> 'g RandomRP res" where
  "RandomRP_new g n = Inr \<lparr>rnd_valid = replicate n False, rnd_rng = g\<rparr>"

definition RandomRP_insert :: "nat \<Rightarrow> 'g RandomRP \<Rightarrow> 'g RandomRP res" where
  "RandomRP_insert i s = bindR (upd (rnd_valid s) i True) (\<lambda>v. Inr (s\<lparr>rnd_valid := v\<rparr>))"

definition RandomRP_invalidate :: "nat \<Rightarrow> 'g RandomRP \<Rightarrow> 'g RandomRP res" where
  "RandomRP_invalidate i s = bindR (upd (rnd_valid s) i False) (\<lambda>v. Inr (s\<lparr>rnd_valid := v\<rparr>))"

definition RandomRP_promote :: "nat \<Rightarrow> 'g RandomRP \<Rightarrow> 'g RandomRP res" where
  "RandomRP_promote i s = Inr s"

definition RandomRP_evict ::
  "(nat \<Rightarrow> 'g \<Rightarrow> nat \<times> 'g) \<Rightarrow> 'g RandomRP \<Rightarrow> (bool \<times> nat \<times> 'g RandomRP) res" where
  "RandomRP_evict random_range s =
     (case first_invalid (rnd_valid s) of
        Some i \<Rightarrow> Inr (False, i, s)
      | None \<Rightarrow>
          if length (rnd_valid s) = 0 then Inl EmptyRandomRange
          else let (w, g) = random_range (length (rnd_valid s)) (rnd_rng s) in
            bindR (upd (rnd_valid s) w False) (\<lambda>v.
            Inr (True, w, s\<lparr>rnd_valid := v, rnd_rng := g\<rparr>)))"

definition random_ops :: "(nat \<Rightarrow> 'g \<Rightarrow> nat \<times> 'g) \<Rightarrow> 'g \<Rightarrow> 'g RandomRP rp_ops" where
  "random_ops random_range g =
     \<lparr>rp_new = RandomRP_new g, rp_insert = RandomRP_insert, rp_invalidate = RandomRP_invalidate,
      rp_promote = RandomRP_promote, rp_evict = RandomRP_evict random_range\<rparr>"

subsection \<open>FIFO\<close>

text \<open>The deque is a list, its front first.\<close>

record FifoRP =
  ff_valid :: "bool list"
  ff_queue :: "nat list"

definition FifoRP_new :: "nat \<Rightarrow> FifoRP res" where
  "FifoRP_new n = Inr \<lparr>ff_valid = replicate n False, ff_queue = []\<rparr>"

definition FifoRP_insert :: "nat \<Rightarrow> FifoRP \<Rightarrow> FifoRP res" where
  "FifoRP_insert i s =
     bindR (upd (ff_valid s) i True) (\<lambda>v. Inr (s\<lparr>ff_valid := v, ff_queue := i # ff_queue s\<rparr>))"

definition FifoRP_invalidate :: "nat \<Rightarrow> FifoRP \<Rightarrow> FifoRP res" where
  "FifoRP_invalidate i s =
     bindR (upd (ff_valid s) i False) (\<lambda>v.
     Inr (s\<lparr>ff_valid := v, ff_queue := filter (\<lambda>x. x \<noteq> i) (ff_queue s)\<rparr>))"

definition FifoRP_promote :: "nat \<Rightarrow> FifoRP \<Rightarrow> FifoRP res" where
  "FifoRP_promote i s = Inr s"

definition pop_back :: "'a list \<Rightarrow> ('a \<times> 'a list) option" where
  "pop_back q = (if q = [] then None else Some (last q, butlast q))"

definition FifoRP_evict :: "FifoRP \<Rightarrow> (bool \<times> nat \<times> FifoRP) res" where
  "FifoRP_evict s =
     (case first_invalid (ff_valid s) of
        Some i \<Rightarrow> Inr (False, i, s)
      | None \<Rightarrow>
          bindR (unwrapR UnwrapNone (pop_back (ff_queue s))) (\<lambda>(w, q).
          bindR (upd (ff_valid s) w False) (\<lambda>v.
          Inr (True, w, s\<lparr>ff_valid := v, ff_queue := q\<rparr>))))"

definition fifo_ops :: "FifoRP rp_ops" where
  "fifo_ops =
     \<lparr>rp_new = FifoRP_new, rp_insert = FifoRP_insert, rp_invalidate = FifoRP_invalidate,
      rp_promote = FifoRP_promote, rp_evict = FifoRP_evict\<rparr>"

subsection \<open>Tree pseudo-LRU\<close>

record PseudoLruRP =
  plru_num_ways :: nat
  plru_valid :: "bool list"
  plru_tree :: "bool list"

definition leaf_index :: "PseudoLruRP \<Rightarrow> nat \<Rightarrow> nat" where
  "leaf_index s way = way + (plru_num_ways s - 1)"

definition PseudoLruRP_new :: "nat \<Rightarrow> PseudoLruRP res" where
  "PseudoLruRP_new n =
     bindR (assertR (is_power_of_two n) (PlruNotPowerOfTwo n)) (\<lambda>_.
     Inr \<lparr>plru_num_ways = n, plru_valid = replicate n False, plru_tree = replicate (n - 1) False\<rparr>)"

text \<open>The loop of \<open>promote\<close>: from a node up to the root, each bit set to point away.\<close>

fun promote_walk :: "nat \<Rightarrow> bool list \<Rightarrow> bool list res" where
  "promote_walk node tree =
     (if node > 0 then
        let parent = (node - 1) div 2; is_left_child = (node = 2 * parent + 1) in
        bindR (upd tree parent (\<not> is_left_child)) (promote_walk parent)
      else Inr tree)"

declare promote_walk.simps [simp del]

definition PseudoLruRP_promote :: "nat \<Rightarrow> PseudoLruRP \<Rightarrow> PseudoLruRP res" where
  "PseudoLruRP_promote accessed s =
     (if plru_num_ways s = 1 then Inr s
      else bindR (promote_walk (leaf_index s accessed) (plru_tree s)) (\<lambda>t.
           Inr (s\<lparr>plru_tree := t\<rparr>)))"

definition PseudoLruRP_insert :: "nat \<Rightarrow> PseudoLruRP \<Rightarrow> PseudoLruRP res" where
  "PseudoLruRP_insert i s =
     bindR (upd (plru_valid s) i True) (\<lambda>v. PseudoLruRP_promote i (s\<lparr>plru_valid := v\<rparr>))"

definition PseudoLruRP_invalidate :: "nat \<Rightarrow> PseudoLruRP \<Rightarrow> PseudoLruRP res" where
  "PseudoLruRP_invalidate i s =
     bindR (upd (plru_valid s) i False) (\<lambda>v. Inr (s\<lparr>plru_valid := v\<rparr>))"

text \<open>The loop of \<open>evict\<close>: from the root down to a leaf, following the bits.\<close>

function evict_walk :: "nat \<Rightarrow> bool list \<Rightarrow> nat \<Rightarrow> nat res" where
  "evict_walk n tree node =
     (if node < n - 1 then
        bindR (idx tree node) (\<lambda>b. evict_walk n tree (if b then 2 * node + 1 else 2 * node + 2))
      else Inr node)"
  by pat_completeness auto
termination
  by (relation "measure (\<lambda>(n, tree, node). n - 1 - node)") auto

declare evict_walk.simps [simp del]

text \<open>The scan runs over the first \<open>num_ways\<close> valid bits; the constructor allocates exactly those.\<close>

definition PseudoLruRP_evict :: "PseudoLruRP \<Rightarrow> (bool \<times> nat \<times> PseudoLruRP) res" where
  "PseudoLruRP_evict s =
     (case first_invalid (take (plru_num_ways s) (plru_valid s)) of
        Some i \<Rightarrow> Inr (False, i, s)
      | None \<Rightarrow>
          bindR (evict_walk (plru_num_ways s) (plru_tree s) 0) (\<lambda>node.
          let way = node - (plru_num_ways s - 1) in
          bindR (upd (plru_valid s) way False) (\<lambda>v.
          Inr (True, way, s\<lparr>plru_valid := v\<rparr>))))"

definition plru_ops :: "PseudoLruRP rp_ops" where
  "plru_ops =
     \<lparr>rp_new = PseudoLruRP_new, rp_insert = PseudoLruRP_insert, rp_invalidate = PseudoLruRP_invalidate,
      rp_promote = PseudoLruRP_promote, rp_evict = PseudoLruRP_evict\<rparr>"

subsection \<open>The contract of a policy\<close>

locale replacement_policy =
  fixes R :: "'rp rp_ops"
    and ways_ok :: "nat \<Rightarrow> bool"
    and rp_inv :: "nat \<Rightarrow> 'rp \<Rightarrow> bool"
    and rp_valid :: "'rp \<Rightarrow> nat \<Rightarrow> bool"
  assumes new_ok:
      "ways_ok n \<Longrightarrow> \<exists>s. rp_new R n = Inr s \<and> rp_inv n s \<and> rp_valid s = (\<lambda>_. False)"
    and insert_ok:
      "rp_inv n s \<Longrightarrow> i < n \<Longrightarrow> \<not> rp_valid s i \<Longrightarrow>
       \<exists>s'. rp_insert R i s = Inr s' \<and> rp_inv n s' \<and> rp_valid s' = (rp_valid s)(i := True)"
    and invalidate_ok:
      "rp_inv n s \<Longrightarrow> i < n \<Longrightarrow>
       \<exists>s'. rp_invalidate R i s = Inr s' \<and> rp_inv n s' \<and> rp_valid s' = (rp_valid s)(i := False)"
    and promote_ok:
      "rp_inv n s \<Longrightarrow> i < n \<Longrightarrow>
       \<exists>s'. rp_promote R i s = Inr s' \<and> rp_inv n s' \<and> rp_valid s' = rp_valid s"
    and evict_ok:
      "rp_inv n s \<Longrightarrow>
       \<exists>full w s'. rp_evict R s = Inr (full, w, s') \<and> rp_inv n s' \<and> w < n \<and>
         (full \<longleftrightarrow> (\<forall>i<n. rp_valid s i)) \<and> (\<not> full \<longrightarrow> \<not> rp_valid s w) \<and>
         rp_valid s' = (rp_valid s)(w := False)"
begin

text \<open>A victim can be filled again at once, and then counts as valid.\<close>

lemma evict_then_insert:
  assumes "rp_inv n s"
  shows "\<exists>full w s1 s2. rp_evict R s = Inr (full, w, s1) \<and> rp_insert R w s1 = Inr s2 \<and>
    rp_inv n s2 \<and> w < n \<and> rp_valid s2 = (rp_valid s)(w := True)"
proof -
  from evict_ok [OF assms] obtain full w s1 where e: "rp_evict R s = Inr (full, w, s1)" "rp_inv n s1"
    "w < n" "rp_valid s1 = (rp_valid s)(w := False)" by blast
  with insert_ok [OF e(2,3)] show ?thesis by auto
qed

end

text \<open>The valid bits of a policy as a predicate on way numbers.\<close>

definition bits_valid :: "bool list \<Rightarrow> nat \<Rightarrow> bool" where
  "bits_valid v i \<longleftrightarrow> i < length v \<and> v ! i"

lemma bits_valid_update [simp]:
  "i < length v \<Longrightarrow> bits_valid (v[i := b]) = (bits_valid v)(i := b)"
  by (auto simp: bits_valid_def fun_eq_iff nth_list_update)

lemma bits_valid_replicate [simp]: "bits_valid (replicate n False) = (\<lambda>_. False)"
  by (auto simp: bits_valid_def fun_eq_iff)

lemma first_invalid_None: "first_invalid v = None \<longleftrightarrow> (\<forall>i < length v. bits_valid v i)"
  by (induction v) (auto simp: bits_valid_def nth_Cons split: nat.splits)

lemma first_invalid_Some:
  "first_invalid v = Some i \<Longrightarrow> i < length v \<and> \<not> bits_valid v i \<and> (\<forall>j<i. bits_valid v j)"
  by (induction v arbitrary: i) (auto simp: bits_valid_def nth_Cons split: if_splits nat.splits)

lemma fun_upd_same_False: "\<not> f i \<Longrightarrow> f(i := False) = f"
  by (auto simp: fun_eq_iff)

subsection \<open>Random and FIFO implement the contract\<close>

definition RandomRP_inv :: "nat \<Rightarrow> 'g RandomRP \<Rightarrow> bool" where
  "RandomRP_inv n s \<longleftrightarrow> 0 < n \<and> length (rnd_valid s) = n"

text \<open>The only fact used of the generator: a number drawn below \<open>n > 0\<close> is below \<open>n\<close>.\<close>

lemma random_policy:
  assumes "\<And>n g. 0 < n \<Longrightarrow> fst (random_range n g) < n"
  shows "replacement_policy (random_ops random_range g0) (\<lambda>n. 0 < n) RandomRP_inv
    (\<lambda>s. bits_valid (rnd_valid s))"
proof (unfold_locales, goal_cases)
  case (5 n s)
  show ?case
  proof (cases "first_invalid (rnd_valid s)")
    case None
    obtain w g where w: "random_range n (rnd_rng s) = (w, g)" by (cases "random_range n (rnd_rng s)")
    with assms [of n "rnd_rng s"] 5 have "w < n" by (simp add: RandomRP_inv_def)
    with None w 5 show ?thesis
      using first_invalid_None [of "rnd_valid s"]
      by (auto simp: random_ops_def RandomRP_evict_def RandomRP_inv_def Let_def)
  next
    case (Some i)
    with first_invalid_Some [OF Some] 5 show ?thesis
      by (auto simp: random_ops_def RandomRP_evict_def RandomRP_inv_def fun_upd_same_False)
  qed
qed (auto simp: random_ops_def RandomRP_inv_def RandomRP_new_def RandomRP_insert_def
    RandomRP_invalidate_def RandomRP_promote_def)

definition FifoRP_inv :: "nat \<Rightarrow> FifoRP \<Rightarrow> bool" where
  "FifoRP_inv n s \<longleftrightarrow> 0 < n \<and> length (ff_valid s) = n \<and> distinct (ff_queue s) \<and>
     (\<forall>i. i \<in> set (ff_queue s) \<longleftrightarrow> bits_valid (ff_valid s) i)"

lemma FifoRP_evict_full:
  assumes "FifoRP_inv n s" "\<forall>i<n. bits_valid (ff_valid s) i"
  shows "FifoRP_evict s = Inr (True, last (ff_queue s),
      s\<lparr>ff_valid := (ff_valid s)[last (ff_queue s) := False], ff_queue := butlast (ff_queue s)\<rparr>)"
    and "last (ff_queue s) < n" "ff_queue s \<noteq> []"
proof -
  from assms have "0 \<in> set (ff_queue s)" by (auto simp: FifoRP_inv_def)
  then show ne: "ff_queue s \<noteq> []" by auto
  then have "last (ff_queue s) \<in> set (ff_queue s)" by simp
  with assms show "last (ff_queue s) < n" by (auto simp: FifoRP_inv_def bits_valid_def)
  with assms ne show "FifoRP_evict s = Inr (True, last (ff_queue s),
      s\<lparr>ff_valid := (ff_valid s)[last (ff_queue s) := False], ff_queue := butlast (ff_queue s)\<rparr>)"
    using first_invalid_None [of "ff_valid s"]
    by (simp add: FifoRP_evict_def FifoRP_inv_def pop_back_def)
qed

lemma butlast_set_distinct: "distinct xs \<Longrightarrow> xs \<noteq> [] \<Longrightarrow> set (butlast xs) = set xs - {last xs}"
  by (induction xs rule: rev_induct) auto

interpretation fifo: replacement_policy fifo_ops "\<lambda>n. 0 < n" FifoRP_inv
  "\<lambda>s. bits_valid (ff_valid s)"
proof (unfold_locales, goal_cases)
  case (5 n s)
  show ?case
  proof (cases "\<forall>i<n. bits_valid (ff_valid s) i")
    case True
    note f = FifoRP_evict_full [OF 5 True]
    let ?s = "s\<lparr>ff_valid := (ff_valid s)[last (ff_queue s) := False],
      ff_queue := butlast (ff_queue s)\<rparr>"
    have "FifoRP_inv n ?s"
      using 5 f butlast_set_distinct [of "ff_queue s"]
      by (auto simp: FifoRP_inv_def distinct_butlast)
    with 5 f True show ?thesis by (auto simp: fifo_ops_def FifoRP_inv_def)
  next
    case False
    with 5 obtain i where i: "first_invalid (ff_valid s) = Some i"
      using first_invalid_None [of "ff_valid s"] by (cases "first_invalid (ff_valid s)") (auto simp: FifoRP_inv_def)
    from first_invalid_Some [OF i] False 5 i show ?thesis
      by (auto simp: fifo_ops_def FifoRP_evict_def FifoRP_inv_def fun_upd_same_False)
  qed
qed (auto simp: fifo_ops_def FifoRP_inv_def FifoRP_new_def FifoRP_insert_def
    FifoRP_invalidate_def FifoRP_promote_def)

subsection \<open>Tree pseudo-LRU implements the contract\<close>

definition PseudoLruRP_inv :: "nat \<Rightarrow> PseudoLruRP \<Rightarrow> bool" where
  "PseudoLruRP_inv n s \<longleftrightarrow> is_power_of_two n \<and> plru_num_ways s = n \<and>
     length (plru_valid s) = n \<and> length (plru_tree s) = n - 1"

text \<open>Depth of a heap node, and the number of bits on its path to the root that point at it.\<close>

fun node_depth :: "nat \<Rightarrow> nat" where
  "node_depth node = (if node = 0 then 0 else Suc (node_depth ((node - 1) div 2)))"

declare node_depth.simps [simp del]

fun toward :: "bool list \<Rightarrow> nat \<Rightarrow> nat" where
  "toward tree node =
     (if node = 0 then 0
      else let parent = (node - 1) div 2 in
        (if tree ! parent = (node = 2 * parent + 1) then 1 else 0) + toward tree parent)"

declare toward.simps [simp del]

lemma node_depth_0 [simp]: "node_depth 0 = 0"
  by (simp add: node_depth.simps)

lemma node_depth_pos: "0 < node \<Longrightarrow> node_depth node = Suc (node_depth ((node - 1) div 2))"
  by (subst node_depth.simps) simp

lemma toward_0 [simp]: "toward tree 0 = 0"
  by (simp add: toward.simps)

lemma toward_pos:
  "0 < node \<Longrightarrow> toward tree node =
    (if tree ! ((node - 1) div 2) = (node = 2 * ((node - 1) div 2) + 1) then 1 else 0) +
    toward tree ((node - 1) div 2)"
  by (subst toward.simps) (simp add: Let_def)

lemma node_depth_ilog2: "node_depth node = ilog2 (node + 1)"
proof (induction node rule: less_induct)
  case (less node)
  show ?case
  proof (cases "node = 0")
    case True
    then show ?thesis by (simp add: ilog2.simps)
  next
    case False
    then have "(node + 1) div 2 = (node - 1) div 2 + 1" by presburger
    with False less.IH [of "(node - 1) div 2"] show ?thesis
      by (subst ilog2.simps) (simp add: node_depth_pos)
  qed
qed

lemma ilog2_eq: "2 ^ k \<le> m \<Longrightarrow> m < 2 * 2 ^ k \<Longrightarrow> ilog2 m = k"
proof (induction k arbitrary: m)
  case 0
  then show ?case by (simp add: ilog2.simps)
next
  case (Suc k)
  have "(1::nat) \<le> 2 ^ k" by simp
  with Suc.prems(1) have "\<not> m < 2" by (metis linorder_not_le mult_le_mono2 mult.right_neutral
      order_trans power_Suc)
  moreover from Suc.prems have "2 ^ k \<le> m div 2" "m div 2 < 2 * 2 ^ k"
    by (simp_all add: less_mult_imp_div_less)
  ultimately show ?case using Suc.IH [of "m div 2"] by (subst ilog2.simps) simp
qed

text \<open>All leaves of a tree with \<open>2 ^ k\<close> ways have depth \<open>k\<close>.\<close>

lemma leaf_depth: "w < 2 ^ k \<Longrightarrow> node_depth (w + (2 ^ k - 1)) = k"
  by (subst node_depth_ilog2, rule ilog2_eq) auto

lemma promote_walk_0 [simp]: "promote_walk 0 tree = Inr tree"
  by (simp add: promote_walk.simps)

lemma promote_walk_pos:
  "0 < node \<Longrightarrow> promote_walk node tree =
    bindR (upd tree ((node - 1) div 2) (node \<noteq> 2 * ((node - 1) div 2) + 1))
      (promote_walk ((node - 1) div 2))"
  by (subst promote_walk.simps) (simp add: Let_def)

lemma promote_walk_ok:
  "node \<le> 2 * length tree \<Longrightarrow> \<exists>t. promote_walk node tree = Inr t \<and> length t = length tree"
proof (induction node arbitrary: tree rule: less_induct)
  case (less node)
  show ?case
  proof (cases "node = 0")
    case False
    with less.prems have p: "(node - 1) div 2 < node" "(node - 1) div 2 < length tree" by auto
    with less.IH [OF p(1), of "tree[(node - 1) div 2 := node \<noteq> 2 * ((node - 1) div 2) + 1]"] False
    show ?thesis by (simp add: promote_walk_pos)
  qed simp
qed

text \<open>Promotion changes only proper ancestors.\<close>

lemma promote_walk_frame:
  "promote_walk x tree = Inr t \<Longrightarrow> node_depth x \<le> node_depth j \<Longrightarrow> t ! j = tree ! j"
proof (induction x arbitrary: tree rule: less_induct)
  case (less x)
  show ?case
  proof (cases "x = 0")
    case True
    with less.prems show ?thesis by simp
  next
    case False
    let ?p = "(x - 1) div 2"
    from False less.prems have d: "node_depth ?p < node_depth j" by (simp add: node_depth_pos)
    with False less.prems less.IH [of ?p "tree[?p := x \<noteq> 2 * ?p + 1]"] have
      "t ! j = tree[?p := x \<noteq> 2 * ?p + 1] ! j"
      by (simp add: promote_walk_pos upd_eq_Inr bindR_eq_Inr)
    also have "\<dots> = tree ! j" using d by (metis less_irrefl nth_list_update_neq)
    finally show ?thesis .
  qed
qed

lemma toward_cong:
  "(\<And>j. node_depth j < node_depth x \<Longrightarrow> t ! j = tree ! j) \<Longrightarrow> toward t x = toward tree x"
proof (induction x rule: less_induct)
  case (less x)
  then show ?case
    by (cases "x = 0") (auto simp: toward_pos node_depth_pos)
qed

text \<open>A promoted node has no bit pointing at it; any other leaf gains at most one.\<close>

lemma promote_walk_step:
  assumes "promote_walk x tree = Inr t" "0 < x"
  defines "p \<equiv> (x - 1) div 2"
  shows "promote_walk p (tree[p := x \<noteq> 2 * p + 1]) = Inr t" "t ! p = (x \<noteq> 2 * p + 1)"
proof -
  from assms show w: "promote_walk p (tree[p := x \<noteq> 2 * p + 1]) = Inr t"
    by (simp add: promote_walk_pos upd_eq_Inr bindR_eq_Inr)
  from assms have "p < length tree"
    by (simp add: promote_walk_pos upd_eq_Inr bindR_eq_Inr)
  with promote_walk_frame [OF w, of p] show "t ! p = (x \<noteq> 2 * p + 1)" by simp
qed

lemma toward_promoted: "promote_walk x tree = Inr t \<Longrightarrow> toward t x = 0"
proof (induction x arbitrary: tree rule: less_induct)
  case (less x)
  show ?case
  proof (cases "x = 0")
    case False
    with promote_walk_step [OF less.prems] less.IH [of "(x - 1) div 2"] show ?thesis
      by (simp add: toward_pos)
  qed simp
qed

lemma toward_other:
  "promote_walk x tree = Inr t \<Longrightarrow> node_depth l = node_depth x \<Longrightarrow> toward t l \<le> Suc (toward tree l)"
proof (induction x arbitrary: tree l rule: less_induct)
  case (less x)
  show ?case
  proof (cases "x = 0")
    case True
    with less.prems show ?thesis by simp
  next
    case False
    with less.prems have "0 < l" by (metis gr0I node_depth_0 node_depth_pos nat.distinct(1))
    define p q where "p = (x - 1) div 2" and "q = (l - 1) div 2"
    note st = promote_walk_step [OF less.prems(1), folded p_def]
    have dq: "node_depth q = node_depth p"
      using False \<open>0 < l\<close> less.prems(2) by (simp add: p_def q_def node_depth_pos)
    have tl: "toward u l = (if u ! q = (l = 2 * q + 1) then 1 else 0) + toward u q" for u
      using \<open>0 < l\<close> by (simp add: toward_pos q_def)
    show ?thesis
    proof (cases "p = q")
      case True
      with st(1) False have "toward t q = 0" by (simp add: toward_promoted)
      then show ?thesis by (simp add: tl)
    next
      case pq: False
      let ?u = "tree[p := x \<noteq> 2 * p + 1]"
      have "toward t q \<le> Suc (toward ?u q)"
        using less.IH [of p ?u q] st(1) False dq by (simp add: p_def)
      moreover have "toward ?u q = toward tree q"
        by (rule toward_cong) (metis dq less_irrefl nth_list_update_neq)
      moreover have "t ! q = tree ! q"
        using promote_walk_frame [OF st(1)] False dq pq by simp
      ultimately show ?thesis by (simp add: tl)
    qed
  qed
qed

text \<open>The victim of an eviction has every bit of its path pointing at it.\<close>

lemma evict_walk_toward:
  "evict_walk n tree node = Inr l \<Longrightarrow> toward tree node = node_depth node \<Longrightarrow>
   toward tree l = node_depth l"
proof (induction n tree node rule: evict_walk.induct)
  case (1 n tree node)
  show ?case
  proof (cases "node < n - 1")
    case True
    let ?c = "if tree ! node then 2 * node + 1 else 2 * node + 2"
    from True "1.prems"(1) have w: "evict_walk n tree ?c = Inr l" "idx tree node = Inr (tree ! node)"
      by (subst (asm) evict_walk.simps; auto simp: bindR_eq_Inr idx_eq_Inr)+
    have "toward tree ?c = node_depth ?c"
      using "1.prems"(2) by (simp add: toward_pos node_depth_pos)
    with "1.IH" [OF True w(2)] w(1) show ?thesis by simp
  next
    case False
    with "1.prems" show ?thesis by (simp add: evict_walk.simps)
  qed
qed

lemma evict_walk_ok:
  "length tree = n - 1 \<Longrightarrow> node < 2 * n - 1 \<Longrightarrow>
   \<exists>l. evict_walk n tree node = Inr l \<and> n - 1 \<le> l \<and> l < 2 * n - 1"
proof (induction n tree node rule: evict_walk.induct)
  case (1 n tree node)
  show ?case
  proof (cases "node < n - 1")
    case True
    with "1.prems" "1.IH" [OF True, of "tree ! node"] show ?thesis
      by (subst evict_walk.simps) auto
  next
    case False
    with "1.prems" show ?thesis by (subst evict_walk.simps) simp
  qed
qed

lemma plru_leaf_le:
  assumes "PseudoLruRP_inv n s" "w < n"
  shows "leaf_index s w \<le> 2 * length (plru_tree s)" "node_depth (leaf_index s w) = ilog2 n"
  using assms leaf_depth [of w "ilog2 n"]
  by (auto simp: PseudoLruRP_inv_def leaf_index_def exp_ilog2)

lemma PseudoLruRP_promote_ok:
  assumes "PseudoLruRP_inv n s" "w < n"
  shows "\<exists>t. PseudoLruRP_promote w s = Inr (s\<lparr>plru_tree := t\<rparr>) \<and>
    promote_walk (leaf_index s w) (plru_tree s) = Inr t \<and> length t = length (plru_tree s)"
proof -
  from promote_walk_ok [OF plru_leaf_le(1) [OF assms]] obtain t where
    t: "promote_walk (leaf_index s w) (plru_tree s) = Inr t" "length t = length (plru_tree s)" by blast
  show ?thesis
  proof (cases "n = 1")
    case True
    with assms t show ?thesis
      by (intro exI [of _ "plru_tree s"])
        (auto simp: PseudoLruRP_promote_def PseudoLruRP_inv_def leaf_index_def)
  next
    case False
    with assms t show ?thesis by (auto simp: PseudoLruRP_promote_def PseudoLruRP_inv_def)
  qed
qed

interpretation plru: replacement_policy plru_ops is_power_of_two PseudoLruRP_inv
  "\<lambda>s. bits_valid (plru_valid s)"
proof (unfold_locales, goal_cases)
  case (1 n)
  then show ?case by (auto simp: plru_ops_def PseudoLruRP_new_def PseudoLruRP_inv_def)
next
  case (2 n s i)
  then have "PseudoLruRP_inv n (s\<lparr>plru_valid := (plru_valid s)[i := True]\<rparr>)"
    by (simp add: PseudoLruRP_inv_def)
  from PseudoLruRP_promote_ok [OF this 2(2)] 2 show ?case
    by (auto simp: plru_ops_def PseudoLruRP_insert_def PseudoLruRP_inv_def)
next
  case (3 n s i)
  then show ?case by (auto simp: plru_ops_def PseudoLruRP_invalidate_def PseudoLruRP_inv_def)
next
  case (4 n s i)
  with PseudoLruRP_promote_ok [OF 4] show ?case by (auto simp: plru_ops_def PseudoLruRP_inv_def)
next
  case (5 n s)
  then have n: "0 < n" "plru_num_ways s = n" "length (plru_valid s) = n" "length (plru_tree s) = n - 1"
    by (auto simp: PseudoLruRP_inv_def is_power_of_two_def)
  show ?case
  proof (cases "first_invalid (plru_valid s)")
    case None
    from evict_walk_ok [OF n(4), of 0] n(1) obtain l where
      l: "evict_walk n (plru_tree s) 0 = Inr l" "n - 1 \<le> l" "l < 2 * n - 1" by auto
    then have "l - (n - 1) < n" by linarith
    with 5 l n None first_invalid_None [of "plru_valid s"] show ?thesis
      by (auto simp: plru_ops_def PseudoLruRP_evict_def PseudoLruRP_inv_def Let_def)
  next
    case (Some i)
    with first_invalid_Some [OF Some] 5 n show ?thesis
      by (auto simp: plru_ops_def PseudoLruRP_evict_def PseudoLruRP_inv_def fun_upd_same_False)
  qed
qed

subsection \<open>Replacement order\<close>

fun insert_all :: "nat list \<Rightarrow> FifoRP \<Rightarrow> FifoRP res" where
  "insert_all [] s = Inr s"
| "insert_all (w # ws) s = bindR (FifoRP_insert w s) (insert_all ws)"

fun promote_all :: "nat list \<Rightarrow> PseudoLruRP \<Rightarrow> PseudoLruRP res" where
  "promote_all [] s = Inr s"
| "promote_all (w # ws) s = bindR (PseudoLruRP_promote w s) (promote_all ws)"

lemma insert_all_queue:
  "set ws \<subseteq> {..<length (ff_valid s)} \<Longrightarrow>
   \<exists>v. insert_all ws s = Inr (s\<lparr>ff_valid := v, ff_queue := rev ws @ ff_queue s\<rparr>) \<and>
     length v = length (ff_valid s) \<and> (\<forall>i. bits_valid v i \<longleftrightarrow> i \<in> set ws \<or> bits_valid (ff_valid s) i)"
proof (induction ws arbitrary: s)
  case Nil
  then show ?case by (auto intro!: exI [of _ "ff_valid s"])
next
  case (Cons w ws)
  let ?s = "s\<lparr>ff_valid := (ff_valid s)[w := True], ff_queue := w # ff_queue s\<rparr>"
  from Cons.prems Cons.IH [of ?s] show ?case
    by (auto simp: FifoRP_insert_def)
qed

lemma promote_all_ok:
  "PseudoLruRP_inv n s \<Longrightarrow> set ws \<subseteq> {..<n} \<Longrightarrow> w < n \<Longrightarrow>
   \<exists>s'. promote_all ws s = Inr s' \<and> PseudoLruRP_inv n s' \<and>
     toward (plru_tree s') (leaf_index s' w) \<le> toward (plru_tree s) (leaf_index s w) + length ws"
proof (induction ws arbitrary: s)
  case Nil
  then show ?case by simp
next
  case (Cons x ws)
  from Cons.prems have x: "x < n" by simp
  from PseudoLruRP_promote_ok [OF Cons.prems(1) x] obtain t where
    t: "PseudoLruRP_promote x s = Inr (s\<lparr>plru_tree := t\<rparr>)"
    "promote_walk (leaf_index s x) (plru_tree s) = Inr t" "length t = length (plru_tree s)" by blast
  let ?s = "s\<lparr>plru_tree := t\<rparr>"
  have inv: "PseudoLruRP_inv n ?s" using Cons.prems(1) t(3) by (simp add: PseudoLruRP_inv_def)
  have "toward t (leaf_index s w) \<le> Suc (toward (plru_tree s) (leaf_index s w))"
    using toward_other [OF t(2)] plru_leaf_le(2) [OF Cons.prems(1)] x Cons.prems(3) by simp
  moreover have "leaf_index ?s w = leaf_index s w" by (simp add: leaf_index_def)
  ultimately show ?case
    using Cons.IH [OF inv] Cons.prems t(1) by fastforce
qed



text \<open>\<open>k\<close> replacements in a row: evict a way and fill it again.\<close>

fun victims :: "nat \<Rightarrow> FifoRP \<Rightarrow> (nat list \<times> FifoRP) res" where
  "victims 0 s = Inr ([], s)"
| "victims (Suc k) s =
     bindR (FifoRP_evict s) (\<lambda>(full, w, s1).
     bindR (FifoRP_insert w s1) (\<lambda>s2.
     bindR (victims k s2) (\<lambda>(ws, s3). Inr (w # ws, s3))))"

definition fifo_full :: "nat list \<Rightarrow> FifoRP" where
  "fifo_full ws = \<lparr>ff_valid = replicate (length ws) True, ff_queue = rev ws\<rparr>"

lemma fifo_full_inv:
  "distinct ws \<Longrightarrow> set ws = {..<n} \<Longrightarrow> length ws = n \<Longrightarrow> 0 < n \<Longrightarrow> FifoRP_inv n (fifo_full ws)"
  by (simp add: FifoRP_inv_def fifo_full_def bits_valid_def cong: conj_cong)

lemma fifo_replace:
  assumes "distinct (w # ws)" "set (w # ws) = {..<length (w # ws)}"
  shows "bindR (FifoRP_evict (fifo_full (w # ws))) (\<lambda>(full, v, s1). bindR (FifoRP_insert v s1) (f v)) =
    f w (fifo_full (ws @ [w]))"
proof -
  have w: "w < Suc (length ws)" using assms(2) by auto
  then have "(replicate (Suc (length ws)) True)[w := False, w := True] = replicate (Suc (length ws)) True"
    by (intro nth_equalityI) (auto simp: nth_list_update simp del: replicate_Suc)
  with FifoRP_evict_full(1) [OF fifo_full_inv [OF assms(1,2) refl]] w show ?thesis
    by (simp add: fifo_full_def FifoRP_insert_def bits_valid_def butlast_append del: replicate_Suc)
qed

lemma victims_rotate:
  "distinct (us @ vs) \<Longrightarrow> set (us @ vs) = {..<length (us @ vs)} \<Longrightarrow>
   victims (length us) (fifo_full (us @ vs)) = Inr (us, fifo_full (vs @ us))"
proof (induction us arbitrary: vs)
  case Nil
  then show ?case by simp
next
  case (Cons u us)
  have "victims (Suc (length us)) (fifo_full (u # us @ vs)) =
      bindR (victims (length us) (fifo_full (us @ vs @ [u]))) (\<lambda>(ws, s3). Inr (u # ws, s3))"
    using fifo_replace [of u "us @ vs" "\<lambda>w s2. bindR (victims (length us) s2) (\<lambda>(ws, s3). Inr (w # ws, s3))"]
      Cons.prems by simp
  also have "victims (length us) (fifo_full (us @ vs @ [u])) = Inr (us, fifo_full ((vs @ [u]) @ us))"
    using Cons.IH [of "vs @ [u]"] Cons.prems by auto
  finally show ?case by simp
qed

text \<open>
  C15. FIFO replacement: after the ways of a new set are filled in the order \<open>ws\<close>, one round of
  evict-and-refill picks the ways in that order and returns to the same state.
\<close>

theorem fifo_replaces_in_order:
  assumes "distinct ws" "set ws = {..<n}" "0 < n"
  shows "\<exists>s. bindR (FifoRP_new n) (insert_all ws) = Inr s \<and> victims n s = Inr (ws, s)"
proof -
  have len: "length ws = n" using assms distinct_card [of ws] by simp
  let ?s0 = "\<lparr>ff_valid = replicate n False, ff_queue = []\<rparr>"
  from insert_all_queue [of ws ?s0] assms(2) obtain v where
    v: "insert_all ws ?s0 = Inr \<lparr>ff_valid = v, ff_queue = rev ws\<rparr>" "length v = n"
    "\<forall>i. bits_valid v i \<longleftrightarrow> i < n" by auto
  then have "v = replicate n True" by (intro nth_equalityI) (auto simp: bits_valid_def)
  with v(1) have "insert_all ws ?s0 = Inr (fifo_full ws)" by (simp add: fifo_full_def len)
  with victims_rotate [of ws "[]"] assms len show ?thesis by (simp add: FifoRP_new_def)
qed

theorem fifo_replaces_in_order_witness:
  "\<exists>s. bindR (FifoRP_new 3) (insert_all [2, 0, 1]) = Inr s \<and> victims 3 s = Inr ([2, 0, 1], s)"
  by (rule fifo_replaces_in_order) auto

end
