(* ===== verification/Cache_Set.thy ===== *)
theory Cache_Set
  imports Replacement_Policy
begin

text \<open>
  One set of a cache (\<^verbatim>\<open>general_cache/cache_set.rs\<close>): the data, tag, valid and dirty arrays and
  the replacement policy, with the tag comparison that picks a victim on a miss, and the block
  reads, writes and insertions.  The lemmas describe every operation on a well-formed set over an
  arbitrary replacement policy that satisfies its contract.
\<close>

record 'rp GeneralCacheSetUnit =
  num_associativity :: nat
  bytes_per_block :: nat
  data_array :: "u8 list"
  tag_array :: "u32 list"
  valid_array :: "bool list"
  dirty_array :: "bool list"
  set_rp :: 'rp

definition SetUnit_new :: "'rp rp_ops \<Rightarrow> nat \<Rightarrow> nat \<Rightarrow> 'rp GeneralCacheSetUnit res" where
  "SetUnit_new R n b =
     bindR (rp_new R n) (\<lambda>rp.
     Inr \<lparr>num_associativity = n, bytes_per_block = b, data_array = replicate (n * b) 0,
          tag_array = replicate n 0, valid_array = replicate n False,
          dirty_array = replicate n False, set_rp = rp\<rparr>)"

text \<open>\<open>Ok(way)\<close> or \<open>Err((need_write_back, evict_way))\<close>.\<close>

datatype TagCompareResult = TagHit nat | TagMiss bool nat

fun scan_ways :: "'rp GeneralCacheSetUnit \<Rightarrow> u32 \<Rightarrow> nat list \<Rightarrow> nat option res" where
  "scan_ways s tag [] = Inr None"
| "scan_ways s tag (i # is) =
     bindR (idx (valid_array s) i) (\<lambda>v.
     if v then
       bindR (idx (tag_array s) i) (\<lambda>t.
       if t = tag then Inr (Some i) else scan_ways s tag is)
     else scan_ways s tag is)"

definition tag_compare ::
  "'rp rp_ops \<Rightarrow> u32 \<Rightarrow> 'rp GeneralCacheSetUnit \<Rightarrow> (TagCompareResult \<times> 'rp GeneralCacheSetUnit) res" where
  "tag_compare R tag s =
     bindR (scan_ways s tag [0..<num_associativity s]) (\<lambda>found.
     case found of
       Some i \<Rightarrow> Inr (TagHit i, s)
     | None \<Rightarrow>
         bindR (rp_evict R (set_rp s)) (\<lambda>(full, evict_way, rp).
         let s1 = s\<lparr>set_rp := rp\<rparr> in
         if full then
           bindR (idx (dirty_array s1) evict_way) (\<lambda>dirty.
           Inr (TagMiss dirty evict_way, s1))
         else Inr (TagMiss False evict_way, s1)))"

definition get_tag :: "nat \<Rightarrow> 'rp GeneralCacheSetUnit \<Rightarrow> u32 res" where
  "get_tag way s = idx (tag_array s) way"

text \<open>The valid-bit assertion that opens every block access.\<close>

definition check_valid :: "nat \<Rightarrow> 'rp GeneralCacheSetUnit \<Rightarrow> unit res" where
  "check_valid way s = bindR (idx (valid_array s) way) (\<lambda>v. assertR v (InvalidWay way))"

definition promote_way :: "'rp rp_ops \<Rightarrow> nat \<Rightarrow> 'rp GeneralCacheSetUnit \<Rightarrow> 'rp GeneralCacheSetUnit res" where
  "promote_way R way s = bindR (rp_promote R way (set_rp s)) (\<lambda>rp. Inr (s\<lparr>set_rp := rp\<rparr>))"

text \<open>The byte loop of \<open>read_block\<close> copies the block's range of the data array.\<close>

definition read_block ::
  "'rp rp_ops \<Rightarrow> nat \<Rightarrow> 'rp GeneralCacheSetUnit \<Rightarrow> (u8 list \<times> 'rp GeneralCacheSetUnit) res" where
  "read_block R way s =
     bindR (check_valid way s) (\<lambda>_.
     let b = bytes_per_block s in
     bindR (get_range (data_array s) (b * way) (b * way + b)) (\<lambda>d.
     bindR (promote_way R way s) (\<lambda>s1. Inr (d, s1))))"

definition write_block ::
  "'rp rp_ops \<Rightarrow> nat \<Rightarrow> u8 list \<Rightarrow> 'rp GeneralCacheSetUnit \<Rightarrow> 'rp GeneralCacheSetUnit res" where
  "write_block R way write_data s =
     bindR (check_valid way s) (\<lambda>_.
     let b = bytes_per_block s in
     bindR (set_range (data_array s) (b * way) (b * (way + 1)) write_data) (\<lambda>d.
     bindR (upd (dirty_array s) way True) (\<lambda>dirty.
     promote_way R way (s\<lparr>data_array := d, dirty_array := dirty\<rparr>))))"

definition write_block_clean ::
  "'rp rp_ops \<Rightarrow> nat \<Rightarrow> u8 list \<Rightarrow> 'rp GeneralCacheSetUnit \<Rightarrow> 'rp GeneralCacheSetUnit res" where
  "write_block_clean R way write_data s =
     bindR (check_valid way s) (\<lambda>_.
     let b = bytes_per_block s in
     bindR (set_range (data_array s) (b * way) (b * (way + 1)) write_data) (\<lambda>d.
     promote_way R way (s\<lparr>data_array := d\<rparr>)))"

definition insert_block ::
  "'rp rp_ops \<Rightarrow> nat \<Rightarrow> u32 \<Rightarrow> u8 list \<Rightarrow> 'rp GeneralCacheSetUnit \<Rightarrow> 'rp GeneralCacheSetUnit res" where
  "insert_block R way new_tag new_data s =
     (let b = bytes_per_block s in
      bindR (set_range (data_array s) (b * way) (b * (way + 1)) new_data) (\<lambda>d.
      bindR (upd (valid_array s) way True) (\<lambda>valid.
      bindR (upd (tag_array s) way new_tag) (\<lambda>tags.
      bindR (upd (dirty_array s) way False) (\<lambda>dirty.
      bindR (rp_insert R way (set_rp s)) (\<lambda>rp.
      Inr (s\<lparr>data_array := d, valid_array := valid, tag_array := tags, dirty_array := dirty,
             set_rp := rp\<rparr>)))))))"

subsection \<open>Well-formed sets\<close>

definition set_shape :: "nat \<Rightarrow> nat \<Rightarrow> 'rp GeneralCacheSetUnit \<Rightarrow> bool" where
  "set_shape n b s \<longleftrightarrow>
     num_associativity s = n \<and> bytes_per_block s = b \<and> length (data_array s) = n * b \<and>
     length (tag_array s) = n \<and> length (valid_array s) = n \<and> length (dirty_array s) = n"

text \<open>The ways that hold a block, the block of a way, and the way that holds a tag.\<close>

definition holds :: "'rp GeneralCacheSetUnit \<Rightarrow> nat \<Rightarrow> bool" where
  "holds s w \<longleftrightarrow> w < num_associativity s \<and> valid_array s ! w"

definition block_of :: "'rp GeneralCacheSetUnit \<Rightarrow> nat \<Rightarrow> u8 list" where
  "block_of s w = seg (bytes_per_block s * w) (bytes_per_block s) (data_array s)"

definition find_way :: "'rp GeneralCacheSetUnit \<Rightarrow> u32 \<Rightarrow> nat option" where
  "find_way s tag = List.find (\<lambda>i. valid_array s ! i \<and> tag_array s ! i = tag) [0..<num_associativity s]"

definition tags_distinct :: "'rp GeneralCacheSetUnit \<Rightarrow> bool" where
  "tags_distinct s \<longleftrightarrow>
     (\<forall>v w. holds s v \<longrightarrow> holds s w \<longrightarrow> tag_array s ! v = tag_array s ! w \<longrightarrow> v = w)"

lemma find_way_SomeD: "find_way s tag = Some w \<Longrightarrow> holds s w \<and> tag_array s ! w = tag"
  by (auto simp: find_way_def holds_def find_Some_iff)

lemma find_way_None: "find_way s tag = None \<longleftrightarrow> (\<forall>w. holds s w \<longrightarrow> tag_array s ! w \<noteq> tag)"
  by (auto simp: find_way_def holds_def find_None_iff)

lemma find_way_eq:
  assumes "tags_distinct s"
  shows "find_way s tag = Some w \<longleftrightarrow> holds s w \<and> tag_array s ! w = tag"
proof
  assume "holds s w \<and> tag_array s ! w = tag"
  moreover from this obtain v where "find_way s tag = Some v"
    using find_way_None [of s tag] by (cases "find_way s tag") auto
  ultimately show "find_way s tag = Some w"
    using assms find_way_SomeD [of s tag v] by (auto simp: tags_distinct_def)
qed (rule find_way_SomeD)

lemma find_way_cong:
  "num_associativity s' = num_associativity s \<Longrightarrow> valid_array s' = valid_array s \<Longrightarrow>
   tag_array s' = tag_array s \<Longrightarrow> find_way s' tag = find_way s tag"
  by (simp add: find_way_def)

lemma scan_ways_find:
  "set is \<subseteq> {..<length (valid_array s)} \<Longrightarrow> length (tag_array s) = length (valid_array s) \<Longrightarrow>
   scan_ways s tag is = Inr (List.find (\<lambda>i. valid_array s ! i \<and> tag_array s ! i = tag) is)"
  by (induction "is") auto

lemma block_range_le: "w < n \<Longrightarrow> b * w + b \<le> n * b" for b n w :: nat
  by (metis Suc_leI add.commute mult.commute mult_Suc mult_le_mono1)

lemma blocks_disjoint: "w \<noteq> v \<Longrightarrow> b * w + b \<le> b * v \<or> b * v + b \<le> b * w" for b v w :: nat
  by (metis block_range_le linorder_neqE_nat mult.commute)

lemma length_block_of:
  assumes "set_shape n b s" "w < n"
  shows "length (block_of s w) = b"
  using assms block_range_le [of w n b] by (simp add: block_of_def set_shape_def)

text \<open>Writing a block changes that block and no other.\<close>

lemma block_of_put:
  assumes "set_shape n b s" "w < n" "v < n" "length d = b"
    and "data_array s' = put_seg (b * w) d (data_array s)" "bytes_per_block s' = b"
  shows "block_of s' v = (if v = w then d else block_of s v)"
  using assms block_range_le [OF assms(2), of b] blocks_disjoint [of w v b]
    seg_put_seg_same [of "b * w" d "data_array s"]
    seg_put_seg_disjoint [of "b * w" d "data_array s" "b * v" b]
  by (auto simp: block_of_def set_shape_def)

subsection \<open>Behaviour of the operations\<close>

context replacement_policy
begin

definition set_ok :: "nat \<Rightarrow> nat \<Rightarrow> 'rp GeneralCacheSetUnit \<Rightarrow> bool" where
  "set_ok n b s \<longleftrightarrow> set_shape n b s \<and> rp_inv n (set_rp s)"

lemma SetUnit_new_ok:
  assumes "ways_ok n"
  shows "\<exists>s. SetUnit_new R n b = Inr s \<and> set_ok n b s \<and> (\<forall>w. \<not> holds s w) \<and>
    dirty_array s = replicate n False"
  using new_ok [OF assms] by (auto simp: SetUnit_new_def set_ok_def set_shape_def holds_def)

lemma tag_compare_hit:
  assumes "set_ok n b s" "find_way s tag = Some w"
  shows "tag_compare R tag s = Inr (TagHit w, s)"
  using assms scan_ways_find [of "[0..<n]" s tag]
  by (simp add: tag_compare_def set_ok_def set_shape_def find_way_def atLeast0LessThan)

lemma tag_compare_miss:
  assumes "set_ok n b s" "find_way s tag = None"
  shows "\<exists>full w rp. tag_compare R tag s =
      Inr (TagMiss (full \<and> dirty_array s ! w) w, s\<lparr>set_rp := rp\<rparr>) \<and>
    w < n \<and> rp_inv n rp \<and> rp_valid rp = (rp_valid (set_rp s))(w := False) \<and>
    (full \<longleftrightarrow> (\<forall>i<n. rp_valid (set_rp s) i)) \<and> (\<not> full \<longrightarrow> \<not> rp_valid (set_rp s) w)"
proof -
  from evict_ok [of n "set_rp s"] assms(1) obtain full w rp where
    e: "rp_evict R (set_rp s) = Inr (full, w, rp)" "rp_inv n rp" "w < n"
    "full \<longleftrightarrow> (\<forall>i<n. rp_valid (set_rp s) i)" "\<not> full \<longrightarrow> \<not> rp_valid (set_rp s) w"
    "rp_valid rp = (rp_valid (set_rp s))(w := False)" by (auto simp: set_ok_def)
  then have "tag_compare R tag s = Inr (TagMiss (full \<and> dirty_array s ! w) w, s\<lparr>set_rp := rp\<rparr>)"
    using assms scan_ways_find [of "[0..<n]" s tag]
    by (auto simp: tag_compare_def set_ok_def set_shape_def find_way_def atLeast0LessThan Let_def)
  with e show ?thesis by blast
qed

lemma promote_way_ok:
  assumes "rp_inv n (set_rp s)" "w < n"
  shows "\<exists>rp. promote_way R w s = Inr (s\<lparr>set_rp := rp\<rparr>) \<and> rp_inv n rp \<and>
    rp_valid rp = rp_valid (set_rp s)"
  using promote_ok [OF assms] by (auto simp: promote_way_def)

lemma read_block_ok:
  assumes "set_ok n b s" "holds s w"
  shows "\<exists>rp. read_block R w s = Inr (block_of s w, s\<lparr>set_rp := rp\<rparr>) \<and> rp_inv n rp \<and>
    rp_valid rp = rp_valid (set_rp s)"
  using assms promote_way_ok [of n s w] block_range_le [of w n b]
  by (auto simp: read_block_def check_valid_def set_ok_def set_shape_def holds_def block_of_def Let_def)

lemma write_block_ok:
  assumes "set_ok n b s" "holds s w" "length d = b"
  shows "\<exists>rp. write_block R w d s = Inr (s\<lparr>data_array := put_seg (b * w) d (data_array s),
      dirty_array := (dirty_array s)[w := True], set_rp := rp\<rparr>) \<and> rp_inv n rp \<and>
    rp_valid rp = rp_valid (set_rp s)"
  using assms block_range_le [of w n b] promote_way_ok [of n
      "s\<lparr>data_array := put_seg (b * w) d (data_array s), dirty_array := (dirty_array s)[w := True]\<rparr>" w]
  by (auto simp: write_block_def check_valid_def set_ok_def set_shape_def holds_def Let_def)

lemma write_block_clean_ok:
  assumes "set_ok n b s" "holds s w" "length d = b"
  shows "\<exists>rp. write_block_clean R w d s = Inr (s\<lparr>data_array := put_seg (b * w) d (data_array s),
      set_rp := rp\<rparr>) \<and> rp_inv n rp \<and> rp_valid rp = rp_valid (set_rp s)"
  using assms block_range_le [of w n b] promote_way_ok [of n
      "s\<lparr>data_array := put_seg (b * w) d (data_array s)\<rparr>" w]
  by (auto simp: write_block_clean_def check_valid_def set_ok_def set_shape_def holds_def Let_def)

lemma insert_block_ok:
  assumes "set_ok n b s" "w < n" "\<not> rp_valid (set_rp s) w" "length d = b"
  shows "\<exists>rp. insert_block R w tag d s = Inr (s\<lparr>data_array := put_seg (b * w) d (data_array s),
      valid_array := (valid_array s)[w := True], tag_array := (tag_array s)[w := tag],
      dirty_array := (dirty_array s)[w := False], set_rp := rp\<rparr>) \<and> rp_inv n rp \<and>
    rp_valid rp = (rp_valid (set_rp s))(w := True)"
  using assms insert_ok [of n "set_rp s" w] block_range_le [of w n b]
  by (auto simp: insert_block_def set_ok_def set_shape_def Let_def)

end

end
