(* ===== verification/Memory_Request.thy ===== *)
theory Memory_Request
  imports Prelude
begin

text \<open>
  Memory requests (\<^verbatim>\<open>hardware/mem/abstract_mem.rs\<close>) and the memory interface.

  A request carries \<open>Rc\<close> pointers to a \<open>done\<close> flag and, for loads, to a buffer; a clone of the
  request shares them, which is how a requester learns that a device has completed its request.
  The shared cells live in an explicit store: a list of cells, a pointer being an index into it.

  The locale \<open>memory_device\<close> is the contract of \<open>AbstractMemoryInterface\<close> together with
  \<open>Clocked\<close>: at most one request in flight, a completed load holds the bytes of the device's
  contents, a completed store has updated them, nothing else changes, and a request in flight
  completes within a bounded number of ticks.
\<close>

subsection \<open>Requests and their shared cells\<close>

record req_cell =
  cell_done :: bool
  cell_buffer :: "u8 list"

type_synonym cells = "req_cell list"

record MemoryLoadReq =
  lr_addr :: u32
  lr_len :: nat
  lr_cell :: nat

record MemoryStoreReq =
  sr_addr :: u32
  sr_len :: nat
  sr_store_data :: "u8 list"
  sr_cell :: nat

datatype MemoryReqType = LoadReq MemoryLoadReq | StoreReq MemoryStoreReq

definition MemoryLoadReq_new :: "u32 \<Rightarrow> nat \<Rightarrow> cells \<Rightarrow> MemoryLoadReq \<times> cells" where
  "MemoryLoadReq_new addr len h =
     (\<lparr>lr_addr = addr, lr_len = len, lr_cell = length h\<rparr>,
      h @ [\<lparr>cell_done = False, cell_buffer = replicate len 0\<rparr>])"

definition complete_from_slice :: "MemoryLoadReq \<Rightarrow> u8 list \<Rightarrow> cells \<Rightarrow> cells res" where
  "complete_from_slice r data h =
     (if length data \<noteq> lr_len r then Inl (CompletionLength (length data) (lr_len r))
      else Inr (h[lr_cell r := \<lparr>cell_done = True, cell_buffer = data\<rparr>]))"

definition MemoryLoadReq_data :: "MemoryLoadReq \<Rightarrow> cells \<Rightarrow> u8 list" where
  "MemoryLoadReq_data r h = cell_buffer (h ! lr_cell r)"

definition MemoryLoadReq_is_done :: "MemoryLoadReq \<Rightarrow> cells \<Rightarrow> bool" where
  "MemoryLoadReq_is_done r h = cell_done (h ! lr_cell r)"

definition MemoryStoreReq_new :: "u32 \<Rightarrow> u8 list \<Rightarrow> cells \<Rightarrow> MemoryStoreReq \<times> cells" where
  "MemoryStoreReq_new addr store_data h =
     (\<lparr>sr_addr = addr, sr_len = length store_data, sr_store_data = store_data, sr_cell = length h\<rparr>,
      h @ [\<lparr>cell_done = False, cell_buffer = []\<rparr>])"

definition MemoryStoreReq_complete :: "MemoryStoreReq \<Rightarrow> cells \<Rightarrow> cells" where
  "MemoryStoreReq_complete r h = h[sr_cell r := (h ! sr_cell r)\<lparr>cell_done := True\<rparr>]"

definition MemoryStoreReq_is_done :: "MemoryStoreReq \<Rightarrow> cells \<Rightarrow> bool" where
  "MemoryStoreReq_is_done r h = cell_done (h ! sr_cell r)"

definition MemoryReqType_load :: "u32 \<Rightarrow> nat \<Rightarrow> cells \<Rightarrow> MemoryReqType \<times> cells" where
  "MemoryReqType_load addr len h = (let (r, h') = MemoryLoadReq_new addr len h in (LoadReq r, h'))"

definition MemoryReqType_store :: "u32 \<Rightarrow> u8 list \<Rightarrow> cells \<Rightarrow> MemoryReqType \<times> cells" where
  "MemoryReqType_store addr data h = (let (r, h') = MemoryStoreReq_new addr data h in (StoreReq r, h'))"

fun get_addr :: "MemoryReqType \<Rightarrow> u32" where
  "get_addr (LoadReq x) = lr_addr x"
| "get_addr (StoreReq x) = sr_addr x"

fun get_len :: "MemoryReqType \<Rightarrow> nat" where
  "get_len (LoadReq x) = lr_len x"
| "get_len (StoreReq x) = sr_len x"

fun load_req_ref :: "MemoryReqType \<Rightarrow> MemoryLoadReq res" where
  "load_req_ref (LoadReq r) = Inr r"
| "load_req_ref (StoreReq r) = Inl NotALoadReq"

fun store_req_ref :: "MemoryReqType \<Rightarrow> MemoryStoreReq res" where
  "store_req_ref (StoreReq r) = Inr r"
| "store_req_ref (LoadReq r) = Inl NotAStoreReq"

fun is_done :: "MemoryReqType \<Rightarrow> cells \<Rightarrow> bool" where
  "is_done (LoadReq r) h = MemoryLoadReq_is_done r h"
| "is_done (StoreReq r) h = MemoryStoreReq_is_done r h"

definition load_data :: "MemoryReqType \<Rightarrow> cells \<Rightarrow> u8 list res" where
  "load_data req h = bindR (load_req_ref req) (\<lambda>r. Inr (MemoryLoadReq_data r h))"

definition store_data :: "MemoryReqType \<Rightarrow> u8 list res" where
  "store_data req = bindR (store_req_ref req) (\<lambda>r. Inr (sr_store_data r))"

definition complete_load_from_slice :: "MemoryReqType \<Rightarrow> u8 list \<Rightarrow> cells \<Rightarrow> cells res" where
  "complete_load_from_slice req data h =
     bindR (load_req_ref req) (\<lambda>r. complete_from_slice r data h)"

definition complete_store :: "MemoryReqType \<Rightarrow> cells \<Rightarrow> cells res" where
  "complete_store req h = bindR (store_req_ref req) (\<lambda>r. Inr (MemoryStoreReq_complete r h))"

fun is_store :: "MemoryReqType \<Rightarrow> bool" where
  "is_store (StoreReq _) = True"
| "is_store (LoadReq _) = False"

subsection \<open>Meaning of a request\<close>

fun req_cell_id :: "MemoryReqType \<Rightarrow> nat" where
  "req_cell_id (LoadReq r) = lr_cell r"
| "req_cell_id (StoreReq r) = sr_cell r"

text \<open>Effect of a request on a byte array, and the cell it leaves behind.\<close>

fun apply_req :: "MemoryReqType \<Rightarrow> u8 list \<Rightarrow> u8 list" where
  "apply_req (LoadReq r) d = d"
| "apply_req (StoreReq r) d = put_seg (unat (sr_addr r)) (sr_store_data r) d"

fun completed_cell :: "MemoryReqType \<Rightarrow> u8 list \<Rightarrow> req_cell \<Rightarrow> req_cell" where
  "completed_cell (LoadReq r) d c =
     \<lparr>cell_done = True, cell_buffer = seg (unat (lr_addr r)) (lr_len r) d\<rparr>"
| "completed_cell (StoreReq r) d c = c\<lparr>cell_done := True\<rparr>"

text \<open>A request that has been created and not completed.\<close>

fun fresh_req :: "MemoryReqType \<Rightarrow> cells \<Rightarrow> bool" where
  "fresh_req (LoadReq r) h \<longleftrightarrow>
     lr_cell r < length h \<and> \<not> cell_done (h ! lr_cell r) \<and>
     length (cell_buffer (h ! lr_cell r)) = lr_len r"
| "fresh_req (StoreReq r) h \<longleftrightarrow>
     sr_cell r < length h \<and> \<not> cell_done (h ! sr_cell r) \<and> sr_len r = length (sr_store_data r)"

text \<open>
  Naturally aligned power-of-two transfers of at most \<open>ml\<close> bytes inside \<open>sz\<close> bytes: byte,
  halfword and word accesses of the processor and the block transfers between cache levels.
\<close>

definition admissible :: "nat \<Rightarrow> nat \<Rightarrow> MemoryReqType \<Rightarrow> bool" where
  "admissible ml sz r \<longleftrightarrow>
     is_power_of_two (get_len r) \<and> get_len r \<le> ml \<and> get_len r dvd unat (get_addr r) \<and>
     unat (get_addr r) + get_len r \<le> sz"

definition frame :: "nat set \<Rightarrow> cells \<Rightarrow> cells \<Rightarrow> bool" where
  "frame X h h' \<longleftrightarrow> length h \<le> length h' \<and> (\<forall>i < length h. i \<notin> X \<longrightarrow> h' ! i = h ! i)"

lemma frame_refl [simp]: "frame X h h"
  by (simp add: frame_def)

lemma frame_mono: "frame X h h' \<Longrightarrow> X \<subseteq> Y \<Longrightarrow> frame Y h h'"
  by (auto simp: frame_def)

lemma frame_trans:
  "frame X h h' \<Longrightarrow> frame Y h' h'' \<Longrightarrow> X \<union> (Y \<inter> {..<length h}) \<subseteq> Z \<Longrightarrow> frame Z h h''"
  unfolding frame_def by (metis IntI UnCI lessThan_iff order_less_le_trans order_trans subsetD)

lemma frame_length: "frame X h h' \<Longrightarrow> length h \<le> length h'"
  by (simp add: frame_def)

lemma frame_nth: "frame X h h' \<Longrightarrow> i < length h \<Longrightarrow> i \<notin> X \<Longrightarrow> h' ! i = h ! i"
  by (simp add: frame_def)

lemma frame_update [simp]: "i \<in> X \<Longrightarrow> frame X h (h[i := c])"
  unfolding frame_def by (metis length_list_update nth_list_update_neq order_refl)

lemma frame_append [simp]: "frame X h (h @ cs)"
  by (simp add: frame_def nth_append)

lemma fresh_reqD: "fresh_req r h \<Longrightarrow> req_cell_id r < length h"
  by (cases r) auto

lemma fresh_req_frame:
  "fresh_req r h \<Longrightarrow> length h \<le> length h' \<Longrightarrow> h' ! req_cell_id r = h ! req_cell_id r \<Longrightarrow> fresh_req r h'"
  by (cases r) auto

lemma fresh_req_not_done: "fresh_req r h \<Longrightarrow> \<not> is_done r h"
  by (cases r) (auto simp: MemoryLoadReq_is_done_def MemoryStoreReq_is_done_def)

lemma is_done_cell: "is_done r h = cell_done (h ! req_cell_id r)"
  by (cases r) (auto simp: MemoryLoadReq_is_done_def MemoryStoreReq_is_done_def)

lemma completed_cell_done [simp]: "cell_done (completed_cell r d c)"
  by (cases r) simp_all

lemma apply_req_length [simp]:
  "fresh_req r h \<Longrightarrow> admissible ml (length d) r \<Longrightarrow> length (apply_req r d) = length d"
  by (cases r) (auto simp: admissible_def)

lemma apply_req_idem:
  "fresh_req r h \<Longrightarrow> admissible ml (length d) r \<Longrightarrow> apply_req r (apply_req r d) = apply_req r d"
  by (cases r) (auto simp: admissible_def put_seg_idem)

lemma MemoryReqType_load_fresh:
  "MemoryReqType_load addr len h = (r, h') \<Longrightarrow>
   fresh_req r h' \<and> req_cell_id r = length h \<and> get_addr r = addr \<and> get_len r = len \<and>
   \<not> is_store r \<and> (\<exists>c. h' = h @ [c])"
  by (auto simp: MemoryReqType_load_def MemoryLoadReq_new_def)

lemma MemoryReqType_store_fresh:
  "MemoryReqType_store addr data h = (r, h') \<Longrightarrow>
   fresh_req r h' \<and> req_cell_id r = length h \<and> get_addr r = addr \<and> get_len r = length data \<and>
   store_data r = Inr data \<and> is_store r \<and> (\<exists>c. h' = h @ [c])"
  by (auto simp: MemoryReqType_store_def MemoryStoreReq_new_def store_data_def)

subsection \<open>The contract of a memory device\<close>

text \<open>\<open>serves\<close>: a device that had the request \<open>r\<close> in flight either completed it or keeps it.\<close>

definition serves ::
  "('m \<Rightarrow> MemoryReqType option) \<Rightarrow> ('m \<Rightarrow> u8 list) \<Rightarrow> ('m \<Rightarrow> nat set) \<Rightarrow>
   MemoryReqType \<Rightarrow> 'm \<Rightarrow> cells \<Rightarrow> 'm \<Rightarrow> cells \<Rightarrow> bool" where
  "serves pending contents owns r m h m' h' \<longleftrightarrow>
     frame (insert (req_cell_id r) (owns m)) h h' \<and>
     owns m' \<subseteq> owns m \<union> {length h..<length h'} \<and>
     (pending m' = None \<and> contents m' = apply_req r (contents m) \<and>
        h' ! req_cell_id r = completed_cell r (contents m) (h ! req_cell_id r)
      \<or> pending m' = Some r \<and> h' ! req_cell_id r = h ! req_cell_id r \<and>
        (contents m' = contents m \<or> contents m' = apply_req r (contents m)))"

text \<open>
  A client that performs accesses one after the other, as the memory stage of the processor does:
  create a request, register it, and clock the device until the request is done.  \<open>None\<close> is the
  outcome of a client that runs out of \<open>fuel\<close> (or whose request is refused).
\<close>

datatype mem_op = LoadOp u32 nat | StoreOp u32 "u8 list"

fun op_request :: "mem_op \<Rightarrow> cells \<Rightarrow> MemoryReqType \<times> cells" where
  "op_request (LoadOp a n) h = MemoryReqType_load a n h"
| "op_request (StoreOp a d) h = MemoryReqType_store a d h"

fun until_done ::
  "('m \<Rightarrow> cells \<Rightarrow> ('m \<times> cells) res) \<Rightarrow> nat \<Rightarrow> MemoryReqType \<Rightarrow> 'm \<Rightarrow> cells \<Rightarrow> ('m \<times> cells) option res" where
  "until_done tk fuel r m h =
     (if is_done r h then Inr (Some (m, h))
      else case fuel of
        0 \<Rightarrow> Inr None
      | Suc n \<Rightarrow> bindR (tk m h) (\<lambda>(m', h'). until_done tk n r m' h'))"

declare until_done.simps [simp del]

definition run_op ::
  "(MemoryReqType \<Rightarrow> 'm \<Rightarrow> cells \<Rightarrow> (bool \<times> 'm \<times> cells) res) \<Rightarrow> ('m \<Rightarrow> cells \<Rightarrow> ('m \<times> cells) res) \<Rightarrow>
   nat \<Rightarrow> mem_op \<Rightarrow> 'm \<Rightarrow> cells \<Rightarrow> (u8 list \<times> 'm \<times> cells) option res" where
  "run_op reg tk fuel op m h =
     (let (r, h0) = op_request op h in
      bindR (reg r m h0) (\<lambda>(ok, m1, h1).
      if \<not> ok then Inr None
      else bindR (until_done tk fuel r m1 h1) (\<lambda>res.
        case res of None \<Rightarrow> Inr None
        | Some (m2, h2) \<Rightarrow> Inr (Some (cell_buffer (h2 ! req_cell_id r), m2, h2)))))"

fun run_ops ::
  "(MemoryReqType \<Rightarrow> 'm \<Rightarrow> cells \<Rightarrow> (bool \<times> 'm \<times> cells) res) \<Rightarrow> ('m \<Rightarrow> cells \<Rightarrow> ('m \<times> cells) res) \<Rightarrow>
   nat \<Rightarrow> mem_op list \<Rightarrow> 'm \<Rightarrow> cells \<Rightarrow> (u8 list list \<times> 'm \<times> cells) option res" where
  "run_ops reg tk fuel [] m h = Inr (Some ([], m, h))"
| "run_ops reg tk fuel (op # ops) m h =
     bindR (run_op reg tk fuel op m h) (\<lambda>res.
     case res of None \<Rightarrow> Inr None
     | Some (d, m1, h1) \<Rightarrow>
         bindR (run_ops reg tk fuel ops m1 h1) (\<lambda>res2.
         case res2 of None \<Rightarrow> Inr None
         | Some (ds, m2, h2) \<Rightarrow> Inr (Some (d # ds, m2, h2))))"

text \<open>The same accesses on a flat byte array.\<close>

fun flat_ops :: "mem_op list \<Rightarrow> u8 list \<Rightarrow> u8 list list \<times> u8 list" where
  "flat_ops [] X = ([], X)"
| "flat_ops (LoadOp a n # ops) X =
     (let (ds, X') = flat_ops ops X in (seg (unat a) n X # ds, X'))"
| "flat_ops (StoreOp a d # ops) X =
     (let (ds, X') = flat_ops ops (put_seg (unat a) d X) in ([] # ds, X'))"

fun op_ok :: "nat \<Rightarrow> nat \<Rightarrow> mem_op \<Rightarrow> bool" where
  "op_ok ml sz (LoadOp a n) \<longleftrightarrow> is_power_of_two n \<and> n \<le> ml \<and> n dvd unat a \<and> unat a + n \<le> sz"
| "op_ok ml sz (StoreOp a d) \<longleftrightarrow>
     is_power_of_two (length d) \<and> length d \<le> ml \<and> length d dvd unat a \<and> unat a + length d \<le> sz"

lemma serves_step:
  assumes "serves pending contents owns r m h m1 h1" "pending m1 = Some r"
    "serves pending contents owns r m1 h1 m2 h2" "fresh_req r h" "owns m \<subseteq> {..<length h}"
    "admissible ml (length (contents m)) r"
  shows "serves pending contents owns r m h m2 h2"
proof -
  have c1: "contents m1 = contents m \<or> contents m1 = apply_req r (contents m)"
    and h1: "h1 ! req_cell_id r = h ! req_cell_id r"
    and f1: "frame (insert (req_cell_id r) (owns m)) h h1"
    and o1: "owns m1 \<subseteq> owns m \<union> {length h..<length h1}"
    using assms(1,2) by (auto simp: serves_def)
  have f2: "frame (insert (req_cell_id r) (owns m1)) h1 h2"
    and o2: "owns m2 \<subseteq> owns m1 \<union> {length h1..<length h2}"
    using assms(3) by (auto simp: serves_def)
  have f: "frame (insert (req_cell_id r) (owns m)) h h2"
    by (rule frame_trans [OF f1 f2]) (use o1 in auto)
  have o: "owns m2 \<subseteq> owns m \<union> {length h..<length h2}"
    using o1 o2 frame_length [OF f1] frame_length [OF f2] by fastforce
  have ap: "apply_req r (contents m1) = apply_req r (contents m)"
    using c1 apply_req_idem [OF assms(4,6)] by auto
  have cc: "completed_cell r (contents m1) = completed_cell r (contents m)"
    using c1 by (cases r) auto
  show ?thesis
    using assms(3) f o c1 ap cc h1 by (auto simp: serves_def)
qed

lemma serves_then_idle:
  assumes "serves pending contents owns r m h m1 h1" "pending m1 = None" "pending m2 = None"
    "contents m2 = contents m1" "frame (owns m1) h1 h2" "owns m2 \<subseteq> owns m1 \<union> {length h1..<length h2}"
    "fresh_req r h" "req_cell_id r \<notin> owns m"
  shows "serves pending contents owns r m h m2 h2"
proof -
  have f1: "frame (insert (req_cell_id r) (owns m)) h h1"
    and o1: "owns m1 \<subseteq> owns m \<union> {length h..<length h1}"
    using assms(1) by (auto simp: serves_def)
  note len = frame_length [OF f1] frame_length [OF assms(5)]
  have rl: "req_cell_id r < length h" by (rule fresh_reqD [OF assms(7)])
  have "frame (insert (req_cell_id r) (owns m)) h h2"
    by (rule frame_trans [OF f1 assms(5)]) (use o1 in auto)
  moreover have "owns m2 \<subseteq> owns m \<union> {length h..<length h2}" using o1 assms(6) len by fastforce
  moreover have "h2 ! req_cell_id r = h1 ! req_cell_id r"
    by (rule frame_nth [OF assms(5)]) (use rl len o1 assms(8) in auto)
  ultimately show ?thesis using assms(1-4) by (auto simp: serves_def)
qed

text \<open>Clocking a device \<open>n\<close> times.\<close>

fun ticks :: "('m \<Rightarrow> cells \<Rightarrow> ('m \<times> cells) res) \<Rightarrow> nat \<Rightarrow> 'm \<Rightarrow> cells \<Rightarrow> ('m \<times> cells) res" where
  "ticks tk 0 m h = Inr (m, h)"
| "ticks tk (Suc n) m h = bindR (tk m h) (\<lambda>(m', h'). ticks tk n m' h')"

lemma ticks_add:
  "ticks tk (n + k) m h = bindR (ticks tk n m h) (\<lambda>(m', h'). ticks tk k m' h')"
  by (induction n arbitrary: m h) (auto simp: bindR_def split: sum.splits)

locale memory_device =
  fixes try_reg :: "MemoryReqType \<Rightarrow> 'm \<Rightarrow> cells \<Rightarrow> (bool \<times> 'm \<times> cells) res"
    and dev_tick :: "'m \<Rightarrow> cells \<Rightarrow> ('m \<times> cells) res"
    and inv :: "'m \<Rightarrow> cells \<Rightarrow> bool"
    and pending :: "'m \<Rightarrow> MemoryReqType option"
    and contents :: "'m \<Rightarrow> u8 list"
    and owns :: "'m \<Rightarrow> nat set"
    and wait :: "'m \<Rightarrow> nat"
    and max_wait :: "'m \<Rightarrow> nat"
    and max_len :: "'m \<Rightarrow> nat"
  assumes try_reg_busy:
      "inv m h \<Longrightarrow> pending m = Some q \<Longrightarrow> admissible (max_len m) (length (contents m)) r \<Longrightarrow>
       try_reg r m h = Inr (False, m, h)"
    and try_reg_free:
      "inv m h \<Longrightarrow> pending m = None \<Longrightarrow> admissible (max_len m) (length (contents m)) r \<Longrightarrow>
       fresh_req r h \<Longrightarrow> req_cell_id r \<notin> owns m \<Longrightarrow>
       \<exists>m' h'. try_reg r m h = Inr (True, m', h') \<and> inv m' h' \<and>
         serves pending contents owns r m h m' h' \<and>
         max_len m' = max_len m \<and> max_wait m' = max_wait m"
    and tick_free:
      "inv m h \<Longrightarrow> pending m = None \<Longrightarrow>
       \<exists>m' h'. dev_tick m h = Inr (m', h') \<and> inv m' h' \<and> pending m' = None \<and>
         contents m' = contents m \<and> frame (owns m) h h' \<and>
         owns m' \<subseteq> owns m \<union> {length h..<length h'} \<and>
         max_len m' = max_len m \<and> max_wait m' = max_wait m"
    and tick_busy:
      "inv m h \<Longrightarrow> pending m = Some r \<Longrightarrow>
       \<exists>m' h'. dev_tick m h = Inr (m', h') \<and> inv m' h' \<and>
         serves pending contents owns r m h m' h' \<and>
         (pending m' = Some r \<longrightarrow> wait m' < wait m) \<and>
         max_len m' = max_len m \<and> max_wait m' = max_wait m"
    and wait_bound: "inv m h \<Longrightarrow> wait m \<le> max_wait m"
    and inv_pending:
      "inv m h \<Longrightarrow> pending m = Some r \<Longrightarrow>
       fresh_req r h \<and> req_cell_id r \<notin> owns m \<and> admissible (max_len m) (length (contents m)) r"
    and inv_owns: "inv m h \<Longrightarrow> owns m \<subseteq> {..<length h}"
    and inv_frame:
      "inv m h \<Longrightarrow> length h \<le> length h' \<Longrightarrow> (\<And>i. i \<in> owns m \<Longrightarrow> h' ! i = h ! i) \<Longrightarrow>
       (\<And>r. pending m = Some r \<Longrightarrow> h' ! req_cell_id r = h ! req_cell_id r) \<Longrightarrow> inv m h'"
begin

text \<open>A request in flight is completed after at most \<open>wait m\<close> ticks.\<close>

lemma pending_completes:
  "inv m h \<Longrightarrow> pending m = Some r \<Longrightarrow>
   \<exists>n m' h'. n \<le> Suc (wait m) \<and> ticks dev_tick n m h = Inr (m', h') \<and> inv m' h' \<and> pending m' = None \<and>
     serves pending contents owns r m h m' h'"
proof (induction "wait m" arbitrary: m h rule: less_induct)
  case less
  from tick_busy [OF less.prems] obtain m1 h1 where t: "dev_tick m h = Inr (m1, h1)" "inv m1 h1"
    "serves pending contents owns r m h m1 h1" "pending m1 = Some r \<longrightarrow> wait m1 < wait m"
    by blast
  show ?case
  proof (cases "pending m1")
    case None
    with t show ?thesis by (intro exI [of _ 1] exI [of _ m1] exI [of _ h1]) auto
  next
    case (Some q)
    with t(3) have q: "pending m1 = Some r" by (auto simp: serves_def)
    with t(4) have lt: "wait m1 < wait m" by simp
    from less.hyps [OF lt t(2) q] obtain n m' h' where n: "n \<le> Suc (wait m1)"
      "ticks dev_tick n m1 h1 = Inr (m', h')" "inv m' h'" "pending m' = None"
      "serves pending contents owns r m1 h1 m' h'" by blast
    have "serves pending contents owns r m h m' h'"
      using serves_step [OF t(3) q n(5)] inv_pending [OF less.prems] inv_owns [OF less.prems(1)]
      by blast
    with n lt t(1) show ?thesis
      by (intro exI [of _ "Suc n"] exI [of _ m'] exI [of _ h']) auto
  qed
qed

text \<open>
  End-to-end behaviour of an idle device: a registered request completes within the bound, a load
  returns the contents, a store updates them, and no other request cell of the client changes.
\<close>

lemma access_completes:
  assumes "inv m h" "pending m = None" "admissible (max_len m) (length (contents m)) r"
    "fresh_req r h" "req_cell_id r \<notin> owns m"
  shows "\<exists>n m1 h1 m' h'. n \<le> Suc (max_wait m) \<and> try_reg r m h = Inr (True, m1, h1) \<and>
    ticks dev_tick n m1 h1 = Inr (m', h') \<and> inv m' h' \<and> pending m' = None \<and>
    contents m' = apply_req r (contents m) \<and>
    h' ! req_cell_id r = completed_cell r (contents m) (h ! req_cell_id r) \<and>
    frame (insert (req_cell_id r) (owns m)) h h'"
proof -
  from try_reg_free [OF assms] obtain m1 h1 where t: "try_reg r m h = Inr (True, m1, h1)"
    "inv m1 h1" "serves pending contents owns r m h m1 h1" "max_wait m1 = max_wait m"
    by blast
  show ?thesis
  proof (cases "pending m1")
    case None
    with t show ?thesis
      by (intro exI [of _ 0] exI [of _ m1] exI [of _ h1]) (auto simp: serves_def)
  next
    case (Some q)
    with t(3) have q: "pending m1 = Some r" by (auto simp: serves_def)
    from pending_completes [OF t(2) q] obtain n m' h' where n: "n \<le> Suc (wait m1)"
      "ticks dev_tick n m1 h1 = Inr (m', h')" "inv m' h'" "pending m' = None"
      "serves pending contents owns r m1 h1 m' h'" by blast
    have "serves pending contents owns r m h m' h'"
      using serves_step [OF t(3) q n(5)] assms inv_owns [OF assms(1)] by blast
    with n t wait_bound [OF t(2)] show ?thesis
      by (intro exI [of _ n] exI [of _ m1] exI [of _ h1] exI [of _ m'] exI [of _ h'])
        (auto simp: serves_def)
  qed
qed

text \<open>Enough fuel for the bound gives the completed request.\<close>

lemma until_done_completes:
  "inv m h \<Longrightarrow> pending m = Some r \<Longrightarrow> Suc (wait m) \<le> fuel \<Longrightarrow>
   \<exists>m' h'. until_done dev_tick fuel r m h = Inr (Some (m', h')) \<and> inv m' h' \<and> pending m' = None \<and>
     serves pending contents owns r m h m' h' \<and> max_len m' = max_len m \<and> max_wait m' = max_wait m"
proof (induction fuel arbitrary: m h)
  case 0
  then show ?case by simp
next
  case (Suc fuel)
  note p = inv_pending [OF Suc.prems(1,2)]
  from tick_busy [OF Suc.prems(1,2)] obtain m1 h1 where t: "dev_tick m h = Inr (m1, h1)" "inv m1 h1"
    "serves pending contents owns r m h m1 h1" "pending m1 = Some r \<longrightarrow> wait m1 < wait m"
    "max_len m1 = max_len m" "max_wait m1 = max_wait m" by blast
  have go: "until_done dev_tick (Suc fuel) r m h = until_done dev_tick fuel r m1 h1"
    using p t(1) fresh_req_not_done [of r h] by (subst until_done.simps) simp
  show ?case
  proof (cases "pending m1")
    case None
    then have "is_done r h1" using t(3) by (auto simp: serves_def is_done_cell)
    then show ?thesis
      using go t None by (intro exI [of _ m1] exI [of _ h1]) (simp add: until_done.simps)
  next
    case (Some q)
    with t(3) have q: "pending m1 = Some r" by (auto simp: serves_def)
    with t(4) Suc.prems(3) have "Suc (wait m1) \<le> fuel" by simp
    from Suc.IH [OF t(2) q this] obtain m' h' where n: "until_done dev_tick fuel r m1 h1 = Inr (Some (m', h'))"
      "inv m' h'" "pending m' = None" "serves pending contents owns r m1 h1 m' h'"
      "max_len m' = max_len m1" "max_wait m' = max_wait m1" by blast
    have "serves pending contents owns r m h m' h'"
      using serves_step [OF t(3) q n(4)] p inv_owns [OF Suc.prems(1)] by blast
    with n go t(5,6) show ?thesis by auto
  qed
qed

lemma run_op_flat:
  assumes "inv m h" "pending m = None" "op_ok (max_len m) (length (contents m)) op" "Suc (max_wait m) \<le> fuel"
  shows "\<exists>d m' h'. run_op try_reg dev_tick fuel op m h = Inr (Some (d, m', h')) \<and> inv m' h' \<and>
    pending m' = None \<and> flat_ops [op] (contents m) = ([d], contents m') \<and>
    length (contents m') = length (contents m) \<and> max_len m' = max_len m \<and> max_wait m' = max_wait m"
proof -
  obtain r h0 where r: "op_request op h = (r, h0)" by fastforce
  obtain cell where h0: "h0 = h @ [cell]" "req_cell_id r = length h" "fresh_req r h0"
    "admissible (max_len m) (length (contents m)) r"
    using r assms(3) MemoryReqType_load_fresh MemoryReqType_store_fresh
    by (cases op) (fastforce simp: admissible_def)+
  have inv0: "inv m h0"
    by (rule inv_frame [OF assms(1)]) (use inv_owns [OF assms(1)] assms(2) h0(1) in \<open>auto simp: nth_append\<close>)
  have own: "req_cell_id r \<notin> owns m" using inv_owns [OF assms(1)] h0(2) by auto
  from try_reg_free [OF inv0 assms(2) h0(4,3) own] obtain m1 h1 where
    t: "try_reg r m h0 = Inr (True, m1, h1)" "inv m1 h1" "serves pending contents owns r m h0 m1 h1"
      "max_len m1 = max_len m" "max_wait m1 = max_wait m" by blast
  have "\<exists>m' h'. until_done dev_tick fuel r m1 h1 = Inr (Some (m', h')) \<and> inv m' h' \<and> pending m' = None \<and>
     serves pending contents owns r m h0 m' h' \<and> max_len m' = max_len m \<and> max_wait m' = max_wait m"
  proof (cases "pending m1")
    case None
    then have "is_done r h1" using t(3) by (auto simp: serves_def is_done_cell)
    with None t show ?thesis
      by (intro exI [of _ m1] exI [of _ h1]) (simp add: until_done.simps)
  next
    case (Some q)
    with t(3) have q: "pending m1 = Some r" by (auto simp: serves_def)
    have "Suc (wait m1) \<le> fuel" using wait_bound [OF t(2)] assms(4) t(5) by simp
    from until_done_completes [OF t(2) q this] obtain m' h' where
      n: "until_done dev_tick fuel r m1 h1 = Inr (Some (m', h'))" "inv m' h'" "pending m' = None"
        "serves pending contents owns r m1 h1 m' h'" "max_len m' = max_len m1" "max_wait m' = max_wait m1"
      by blast
    with serves_step [OF t(3) q n(4) h0(3) _ h0(4)] inv_owns [OF inv0] t(4,5) show ?thesis by auto
  qed
  then obtain m' h' where n: "until_done dev_tick fuel r m1 h1 = Inr (Some (m', h'))" "inv m' h'"
    "pending m' = None" "serves pending contents owns r m h0 m' h'" "max_len m' = max_len m"
    "max_wait m' = max_wait m" by blast
  then have s: "contents m' = apply_req r (contents m)"
    "h' ! req_cell_id r = completed_cell r (contents m) (h0 ! req_cell_id r)" by (auto simp: serves_def)
  have len: "length (contents m') = length (contents m)"
    using s(1) apply_req_length [OF h0(3,4)] by simp
  have "flat_ops [op] (contents m) = ([cell_buffer (h' ! req_cell_id r)], contents m')"
    using r s h0(1,2)
    by (cases op) (auto simp: MemoryReqType_load_def MemoryLoadReq_new_def MemoryReqType_store_def
        MemoryStoreReq_new_def nth_append)
  with n len r t(1) show ?thesis by (simp add: run_op_def)
qed

lemma flat_ops_Cons:
  "flat_ops [op] X = ([d], Y) \<Longrightarrow> flat_ops (op # ops) X = (let (ds, Z) = flat_ops ops Y in (d # ds, Z))"
  by (cases op) (auto simp: Let_def split: prod.splits)

text \<open>
  Any sequence of admissible accesses returns, in order, exactly what a flat byte array returns,
  and leaves the device with the contents of that array.
\<close>

lemma run_ops_flat:
  "inv m h \<Longrightarrow> pending m = None \<Longrightarrow> list_all (op_ok (max_len m) (length (contents m))) ops \<Longrightarrow>
   Suc (max_wait m) \<le> fuel \<Longrightarrow>
   \<exists>ds m' h'. run_ops try_reg dev_tick fuel ops m h = Inr (Some (ds, m', h')) \<and>
     flat_ops ops (contents m) = (ds, contents m') \<and> inv m' h' \<and> pending m' = None"
proof (induction ops arbitrary: m h)
  case Nil
  then show ?case by simp
next
  case (Cons op ops)
  then obtain d m1 h1 where s: "run_op try_reg dev_tick fuel op m h = Inr (Some (d, m1, h1))" "inv m1 h1"
    "pending m1 = None" "flat_ops [op] (contents m) = ([d], contents m1)"
    "length (contents m1) = length (contents m)" "max_len m1 = max_len m" "max_wait m1 = max_wait m"
    using run_op_flat [of m h op fuel] by auto
  from Cons.IH [OF s(2,3)] Cons.prems(3,4) s(5-7) obtain ds m' h' where
    n: "run_ops try_reg dev_tick fuel ops m1 h1 = Inr (Some (ds, m', h'))"
      "flat_ops ops (contents m1) = (ds, contents m')" "inv m' h'" "pending m' = None" by auto
  with s(1) flat_ops_Cons [OF s(4)] show ?case by auto
qed

end

end
