(* ===== verification/General_Cache.thy ===== *)
theory General_Cache
  imports Cache_Config Cache_Set Memory_Request
begin

text \<open>
  The cache controller (\<^verbatim>\<open>general_cache/mod.rs\<close>) and its transactions with the next level
  (\<^verbatim>\<open>general_cache/lower_memory.rs\<close>).  The controller is generic in the replacement policy and in the
  next level: the operations of the policy (\<open>R\<close>) and the registration function of the next level
  (\<open>try_reg\<close>) are arguments, the state of the next level (\<open>m\<close>) and the request cells (\<open>h\<close>) are
  threaded through a tick.
\<close>

subsection \<open>Transactions with the next level\<close>

datatype LowerMemoryTransaction = Sending MemoryReqType | Waiting MemoryReqType

definition LowerMemoryTransaction_new :: "MemoryReqType \<Rightarrow> LowerMemoryTransaction" where
  "LowerMemoryTransaction_new req = Sending req"

type_synonym 'm lower = "MemoryReqType \<Rightarrow> 'm \<Rightarrow> cells \<Rightarrow> (bool \<times> 'm \<times> cells) res"

fun progress ::
  "'m lower \<Rightarrow> LowerMemoryTransaction \<Rightarrow> 'm \<Rightarrow> cells \<Rightarrow>
   (bool \<times> LowerMemoryTransaction \<times> 'm \<times> cells) res" where
  "progress try_reg (Sending req) m h =
     bindR (try_reg req m h) (\<lambda>(ok, m', h').
     Inr (False, if ok then Waiting req else Sending req, m', h'))"
| "progress try_reg (Waiting req) m h = Inr (is_done req h, Waiting req, m, h)"

fun transaction_req :: "LowerMemoryTransaction \<Rightarrow> MemoryReqType" where
  "transaction_req (Sending req) = req"
| "transaction_req (Waiting req) = req"

definition transaction_load_data :: "LowerMemoryTransaction \<Rightarrow> cells \<Rightarrow> u8 list res" where
  "transaction_load_data tx h = load_data (transaction_req tx) h"

subsection \<open>State of the controller\<close>

datatype MainStates =
    Idle
  | Lookup MemoryReqType
  | WriteBack LowerMemoryTransaction nat
  | Allocate LowerMemoryTransaction nat
  | AdditionalMissPenalty nat
  | WriteThroughCommit LowerMemoryTransaction MemoryReqType
  | WriteAround LowerMemoryTransaction MemoryReqType

record 'rp GeneralCache =
  offset_bit_width :: nat
  index_bit_width :: nat
  cache_set :: "'rp GeneralCacheSetUnit list"
  fsm :: MainStates
  pending_req :: "MemoryReqType option"
  backup_req :: "MemoryReqType option"
  miss_penalty :: nat
  write_policy :: WritePolicy
  prefetcher :: Prefetcher
  prefetch_queue :: "u32 list"
  prefetch_in_flight :: bool
  block_size_bytes :: nat
  hpm :: CacheStatistic

fun sets_new :: "'rp rp_ops \<Rightarrow> nat \<Rightarrow> nat \<Rightarrow> nat \<Rightarrow> 'rp GeneralCacheSetUnit list res" where
  "sets_new R n b 0 = Inr []"
| "sets_new R n b (Suc k) =
     bindR (SetUnit_new R n b) (\<lambda>s. bindR (sets_new R n b k) (\<lambda>ss. Inr (s # ss)))"

definition GeneralCache_new :: "'rp rp_ops \<Rightarrow> GeneralCacheConfig \<Rightarrow> 'rp GeneralCache res" where
  "GeneralCache_new R config =
     (let g = cfg_geometry config; block_size = geo_block_size g in
      bindR (sets_new R (geo_num_of_way g) block_size (geo_num_sets g)) (\<lambda>sets.
      Inr \<lparr>offset_bit_width = geo_offset_bit_width g, index_bit_width = geo_index_bit_width g,
           cache_set = sets, fsm = Idle, pending_req = None, backup_req = None,
           miss_penalty = cfg_miss_penalty config, write_policy = cfg_write_policy config,
           prefetcher = PrefetcherKind_build (cfg_prefetcher_kind config) block_size,
           prefetch_queue = [], prefetch_in_flight = False, block_size_bytes = block_size,
           hpm = CacheStatistic_new (cfg_name config)\<rparr>))"

subsection \<open>Address arithmetic\<close>

definition low_mask :: "nat \<Rightarrow> u32" where
  "low_mask n = shl32 1 n - 1"

text \<open>
  \<open>tag_bit_width\<close> is a \<open>usize\<close> that is only used as a shift amount, hence modulo 32; the integer
  below agrees with the wrapping \<open>usize\<close> subtraction modulo 32.
\<close>

definition addr_transfer :: "'rp GeneralCache \<Rightarrow> u32 \<Rightarrow> u32 \<times> nat \<times> nat" where
  "addr_transfer c addr =
     (let offset = addr AND low_mask (offset_bit_width c);
          index = shr32 addr (offset_bit_width c) AND low_mask (index_bit_width c);
          tag_bit_width = 32 - int (offset_bit_width c) - int (index_bit_width c);
          tag = shr32 addr (nat ((32 - tag_bit_width) mod 32)) AND
                low_mask (nat (tag_bit_width mod 32))
      in (tag, unat index, unat offset))"

definition write_back_addr :: "'rp GeneralCache \<Rightarrow> u32 \<Rightarrow> nat \<Rightarrow> u32" where
  "write_back_addr c old_tag index =
     (shl32 old_tag (index_bit_width c + offset_bit_width c) +
      shl32 (u32_of_usize index) (offset_bit_width c)) AND NOT (low_mask (offset_bit_width c))"

definition allocate_addr :: "'rp GeneralCache \<Rightarrow> u32 \<Rightarrow> nat \<Rightarrow> u32" where
  "allocate_addr c tag index =
     (shl32 tag (index_bit_width c + offset_bit_width c) +
      u32_of_usize (index * 2 ^ offset_bit_width c)) AND NOT (low_mask (offset_bit_width c))"

subsection \<open>The Lookup state\<close>

definition update_set :: "nat \<Rightarrow> 'rp GeneralCacheSetUnit \<Rightarrow> 'rp GeneralCache \<Rightarrow> 'rp GeneralCache" where
  "update_set index s c = c\<lparr>cache_set := (cache_set c)[index := s]\<rparr>"

definition count_load :: "bool \<Rightarrow> bool \<Rightarrow> 'rp GeneralCache \<Rightarrow> 'rp GeneralCache" where
  "count_load is_prefetch is_miss c =
     (if is_prefetch then c else c\<lparr>hpm := hpm_load is_miss (hpm c)\<rparr>)"

definition count_store :: "bool \<Rightarrow> bool \<Rightarrow> 'rp GeneralCache \<Rightarrow> 'rp GeneralCache" where
  "count_store is_prefetch is_miss c =
     (if is_prefetch then c else c\<lparr>hpm := hpm_store is_miss (hpm c)\<rparr>)"

text \<open>Match arm 1: cache hit in \<open>way_index\<close> of the set \<open>s\<close>.\<close>

definition lookup_hit ::
  "'rp rp_ops \<Rightarrow> MemoryReqType \<Rightarrow> nat \<Rightarrow> nat \<Rightarrow> nat \<Rightarrow> bool \<Rightarrow> 'rp GeneralCacheSetUnit \<Rightarrow>
   'rp GeneralCache \<Rightarrow> cells \<Rightarrow> ('rp GeneralCache \<times> cells) res" where
  "lookup_hit R req index offset way_index is_prefetch s c h =
     bindR (read_block R way_index s) (\<lambda>(blk, s1).
     case req of
       LoadReq load_req \<Rightarrow>
         bindR (get_range blk offset (offset + get_len req)) (\<lambda>d.
         bindR (complete_from_slice load_req d h) (\<lambda>h1.
         Inr ((count_load is_prefetch False (update_set index s1 c))\<lparr>fsm := Idle\<rparr>, h1)))
     | StoreReq store_req \<Rightarrow>
         bindR (set_range blk offset (offset + get_len req) (sr_store_data store_req)) (\<lambda>blk1.
         let c1 = count_store is_prefetch False c in
         if is_write_through (write_policy c) then
           bindR (write_block_clean R way_index blk1 s1) (\<lambda>s2.
           let (propagate, h1) = MemoryReqType_store (get_addr req) (sr_store_data store_req) h in
           Inr ((update_set index s2 c1)
                  \<lparr>fsm := WriteThroughCommit (LowerMemoryTransaction_new propagate) req\<rparr>, h1))
         else
           bindR (write_block R way_index blk1 s1) (\<lambda>s2.
           Inr ((update_set index s2 c1)\<lparr>fsm := Idle\<rparr>, MemoryStoreReq_complete store_req h))))"

text \<open>Match arm 2: cache miss, with the victim chosen by the tag comparison.\<close>

definition lookup_miss ::
  "'rp rp_ops \<Rightarrow> MemoryReqType \<Rightarrow> u32 \<Rightarrow> nat \<Rightarrow> bool \<Rightarrow> nat \<Rightarrow> bool \<Rightarrow> 'rp GeneralCacheSetUnit \<Rightarrow>
   'rp GeneralCache \<Rightarrow> cells \<Rightarrow> ('rp GeneralCache \<times> cells) res" where
  "lookup_miss R req tag index need_write_back evict_way is_prefetch s c h =
     (let c1 = update_set index s (if is_store req then count_store is_prefetch True c
                                   else count_load is_prefetch True c) in
      if is_store req \<and> is_no_write_allocate (write_policy c) then
        bindR (store_data req) (\<lambda>d.
        let (propagate, h1) = MemoryReqType_store (get_addr req) d h in
        Inr (c1\<lparr>fsm := WriteAround (LowerMemoryTransaction_new propagate) req\<rparr>, h1))
      else
        let c2 = c1\<lparr>backup_req := Some req\<rparr> in
        if need_write_back then
          bindR (get_tag evict_way s) (\<lambda>old_tag.
          bindR (read_block R evict_way s) (\<lambda>(old_dirty_data, s1).
          let (write_back_store_req, h1) =
                MemoryReqType_store (write_back_addr c old_tag index) old_dirty_data h in
          Inr ((update_set index s1 c2)
                 \<lparr>fsm := WriteBack (LowerMemoryTransaction_new write_back_store_req) evict_way\<rparr>, h1)))
        else
          let (allocate_read_req, h1) =
                MemoryReqType_load (allocate_addr c tag index) (2 ^ offset_bit_width c) h in
          Inr (c2\<lparr>fsm := Allocate (LowerMemoryTransaction_new allocate_read_req) evict_way\<rparr>, h1))"

text \<open>The hooks after the lookup: resolve a prefetch, or queue the predictions.\<close>

fun enqueue_predictions :: "u32 list \<Rightarrow> u32 list \<Rightarrow> u32 list" where
  "enqueue_predictions q [] = q"
| "enqueue_predictions q (a # as) =
     enqueue_predictions (if a \<in> set q then q else q @ [a]) as"

definition lookup_post :: "u32 \<Rightarrow> bool \<Rightarrow> bool \<Rightarrow> bool \<Rightarrow> 'rp GeneralCache \<Rightarrow> 'rp GeneralCache" where
  "lookup_post req_addr req_is_store is_prefetch is_hit c =
     (if is_prefetch then (if is_hit then c\<lparr>prefetch_in_flight := False\<rparr> else c)
      else c\<lparr>prefetch_queue := enqueue_predictions (prefetch_queue c)
               (predict (prefetcher c) req_addr is_hit req_is_store)\<rparr>)"

definition tick_lookup ::
  "'rp rp_ops \<Rightarrow> MemoryReqType \<Rightarrow> 'rp GeneralCache \<Rightarrow> cells \<Rightarrow> ('rp GeneralCache \<times> cells) res" where
  "tick_lookup R req c h =
     (let is_prefetch = prefetch_in_flight c; (tag, index, offset) = addr_transfer c (get_addr req) in
      bindR (idx (cache_set c) index) (\<lambda>s.
      bindR (tag_compare R tag s) (\<lambda>(result, s1).
      case result of
        TagHit way_index \<Rightarrow>
          bindR (lookup_hit R req index offset way_index is_prefetch s1 c h) (\<lambda>(c1, h1).
          Inr (lookup_post (get_addr req) (is_store req) is_prefetch True c1, h1))
      | TagMiss need_write_back evict_way \<Rightarrow>
          bindR (lookup_miss R req tag index need_write_back evict_way is_prefetch s1 c h) (\<lambda>(c1, h1).
          Inr (lookup_post (get_addr req) (is_store req) is_prefetch False c1, h1)))))"

subsection \<open>The other states\<close>

definition tick_idle :: "'rp GeneralCache \<Rightarrow> cells \<Rightarrow> ('rp GeneralCache \<times> cells) res" where
  "tick_idle c h =
     (case pending_req c of
        None \<Rightarrow>
          (if prefetch_in_flight c then Inr (c, h)
           else case prefetch_queue c of
             [] \<Rightarrow> Inr (c, h)
           | addr # q \<Rightarrow>
               let (synthetic, h1) = MemoryReqType_load addr (block_size_bytes c) h in
               Inr (c\<lparr>prefetch_queue := q, prefetch_in_flight := True,
                      hpm := (hpm c)\<lparr>prefetch_issued_cnt := prefetch_issued_cnt (hpm c) + 1\<rparr>,
                      fsm := Lookup synthetic\<rparr>, h1))
      | Some req \<Rightarrow> Inr (c\<lparr>fsm := Lookup req, pending_req := None\<rparr>, h))"

definition tick_write_back ::
  "'m lower \<Rightarrow> LowerMemoryTransaction \<Rightarrow> nat \<Rightarrow> 'rp GeneralCache \<Rightarrow> 'm \<Rightarrow> cells \<Rightarrow>
   ('rp GeneralCache \<times> 'm \<times> cells) res" where
  "tick_write_back try_reg tx evict_way c m h =
     bindR (progress try_reg tx m h) (\<lambda>(finished, tx1, m1, h1).
     if finished then
       bindR (unwrapR UnwrapNone (backup_req c)) (\<lambda>req.
       let (allocate_req, h2) =
             MemoryReqType_load (get_addr req AND NOT (low_mask (offset_bit_width c)))
               (2 ^ offset_bit_width c) h1 in
       Inr (c\<lparr>fsm := Allocate (LowerMemoryTransaction_new allocate_req) evict_way\<rparr>, m1, h2))
     else Inr (c\<lparr>fsm := WriteBack tx1 evict_way\<rparr>, m1, h1))"

definition tick_allocate ::
  "'rp rp_ops \<Rightarrow> 'm lower \<Rightarrow> LowerMemoryTransaction \<Rightarrow> nat \<Rightarrow> 'rp GeneralCache \<Rightarrow> 'm \<Rightarrow> cells \<Rightarrow>
   ('rp GeneralCache \<times> 'm \<times> cells) res" where
  "tick_allocate R try_reg tx evict_way c m h =
     bindR (progress try_reg tx m h) (\<lambda>(finished, tx1, m1, h1).
     if finished then
       bindR (transaction_load_data tx1 h1) (\<lambda>data.
       bindR (unwrapR UnwrapNone (backup_req c)) (\<lambda>req.
       let (new_tag, index, offset) = addr_transfer c (get_addr req) in
       bindR (idx (cache_set c) index) (\<lambda>s.
       bindR (insert_block R evict_way new_tag data s) (\<lambda>s1.
       Inr ((update_set index s1 c)\<lparr>fsm := AdditionalMissPenalty (miss_penalty c)\<rparr>, m1, h1)))))
     else Inr (c\<lparr>fsm := Allocate tx1 evict_way\<rparr>, m1, h1))"

definition tick_miss_penalty :: "nat \<Rightarrow> 'rp GeneralCache \<Rightarrow> 'rp GeneralCache res" where
  "tick_miss_penalty counter c =
     (if counter > 0 then Inr (c\<lparr>fsm := AdditionalMissPenalty (counter - 1)\<rparr>)
      else bindR (unwrapR UnwrapNone (backup_req c)) (\<lambda>req.
           Inr (c\<lparr>fsm := Lookup req, backup_req := None\<rparr>)))"

text \<open>
  \<open>WriteThroughCommit\<close> and \<open>WriteAround\<close> drive the propagated store and acknowledge the caller;
  \<open>rebuild\<close> is the state they stay in meanwhile.
\<close>

definition tick_propagate ::
  "(LowerMemoryTransaction \<Rightarrow> MainStates) \<Rightarrow> 'm lower \<Rightarrow> LowerMemoryTransaction \<Rightarrow> MemoryReqType \<Rightarrow>
   'rp GeneralCache \<Rightarrow> 'm \<Rightarrow> cells \<Rightarrow> ('rp GeneralCache \<times> 'm \<times> cells) res" where
  "tick_propagate rebuild try_reg tx caller_req c m h =
     bindR (progress try_reg tx m h) (\<lambda>(finished, tx1, m1, h1).
     if finished then
       bindR (complete_store caller_req h1) (\<lambda>h2. Inr (c\<lparr>fsm := Idle\<rparr>, m1, h2))
     else Inr (c\<lparr>fsm := rebuild tx1\<rparr>, m1, h1))"

definition GeneralCache_tick ::
  "'rp rp_ops \<Rightarrow> 'm lower \<Rightarrow> 'rp GeneralCache \<Rightarrow> 'm \<Rightarrow> cells \<Rightarrow> ('rp GeneralCache \<times> 'm \<times> cells) res" where
  "GeneralCache_tick R try_reg c m h =
     (case fsm c of
        Idle \<Rightarrow> bindR (tick_idle c h) (\<lambda>(c1, h1). Inr (c1, m, h1))
      | Lookup req \<Rightarrow> bindR (tick_lookup R req c h) (\<lambda>(c1, h1). Inr (c1, m, h1))
      | WriteBack tx evict_way \<Rightarrow> tick_write_back try_reg tx evict_way c m h
      | Allocate tx evict_way \<Rightarrow> tick_allocate R try_reg tx evict_way c m h
      | AdditionalMissPenalty counter \<Rightarrow>
          bindR (tick_miss_penalty counter c) (\<lambda>c1. Inr (c1, m, h))
      | WriteThroughCommit tx caller_req \<Rightarrow>
          tick_propagate (\<lambda>tx1. WriteThroughCommit tx1 caller_req) try_reg tx caller_req c m h
      | WriteAround tx caller_req \<Rightarrow>
          tick_propagate (\<lambda>tx1. WriteAround tx1 caller_req) try_reg tx caller_req c m h)"

subsection \<open>Registration\<close>

definition alignment_check :: "'rp GeneralCache \<Rightarrow> MemoryReqType \<Rightarrow> bool res" where
  "alignment_check c req =
     (let req_len = get_len req; req_addr = unat (get_addr req) in
      if req_len = 1 then Inr True
      else if req_len = 2 \<or> req_len = 4 then Inr (req_addr mod req_len = 0)
      else if block_size_bytes c = 0 then Inl DivisionByZero
      else let offset = req_addr mod block_size_bytes c in
        Inr (req_len > 0 \<and> req_len \<le> block_size_bytes c \<and> is_power_of_two req_len \<and>
             req_addr mod req_len = 0 \<and> offset + req_len \<le> block_size_bytes c))"

definition GeneralCache_try_register_req ::
  "'rp rp_ops \<Rightarrow> 'm lower \<Rightarrow> MemoryReqType \<Rightarrow> 'rp GeneralCache \<Rightarrow> 'm \<Rightarrow> cells \<Rightarrow>
   (bool \<times> 'rp GeneralCache \<times> 'm \<times> cells) res" where
  "GeneralCache_try_register_req R try_reg req c m h =
     bindR (alignment_check c req) (\<lambda>aligned.
     bindR (assertR aligned (CacheAlignment (get_addr req) (get_len req))) (\<lambda>_.
     if fsm c = Idle \<and> pending_req c = None then
       bindR (GeneralCache_tick R try_reg (c\<lparr>pending_req := Some req\<rparr>) m h) (\<lambda>(c1, m1, h1).
       bindR (GeneralCache_tick R try_reg c1 m1 h1) (\<lambda>(c2, m2, h2).
       Inr (True, c2, m2, h2)))
     else Inr (False, c, m, h)))"

definition GeneralCache_statistic_info :: "'rp GeneralCache \<Rightarrow> CacheStatistic" where
  "GeneralCache_statistic_info c = finalize_rates (hpm c)"

end
