(* ===== verification/Cache_Address.thy ===== *)
theory Cache_Address
  imports General_Cache
begin

text \<open>
  The address arithmetic of the cache: an address splits into tag, set index and block offset, and
  the block addresses that the controller composes from a tag and an index are the ones that split
  back into them.  Block \<open>k\<close> is the \<open>k\<close>-th naturally aligned block of the address space.
\<close>

definition blk_bytes :: "'rp GeneralCache \<Rightarrow> nat" where
  "blk_bytes c = 2 ^ offset_bit_width c"

definition n_sets :: "'rp GeneralCache \<Rightarrow> nat" where
  "n_sets c = 2 ^ index_bit_width c"

text \<open>Widths for which the splitting is a bijection: at least one bit, and at least one tag bit.\<close>

definition widths_ok :: "'rp GeneralCache \<Rightarrow> bool" where
  "widths_ok c \<longleftrightarrow> 0 < offset_bit_width c + index_bit_width c \<and>
     offset_bit_width c + index_bit_width c < 32"

definition block_num :: "'rp GeneralCache \<Rightarrow> u32 \<Rightarrow> nat" where
  "block_num c addr = unat addr div blk_bytes c"

definition block_tag :: "'rp GeneralCache \<Rightarrow> nat \<Rightarrow> u32" where
  "block_tag c k = of_nat (k div n_sets c)"

definition block_index :: "'rp GeneralCache \<Rightarrow> nat \<Rightarrow> nat" where
  "block_index c k = k mod n_sets c"

lemma unat_less_u32: "unat w < 2 ^ 32" for w :: u32
proof -
  have "unat w < 2 ^ LENGTH(32)" by (rule unsigned_less)
  then show ?thesis by simp
qed

lemma unat_take_bit_mod: "unat (take_bit n w) = unat w mod 2 ^ n" for w :: u32
  by (simp add: unsigned_take_bit_eq) (simp add: take_bit_eq_mod)

lemma unat_drop_bit_div: "unat (drop_bit n w) = unat w div 2 ^ n" for w :: u32
  using unat_less_u32 [of w]
  by (simp add: unsigned_drop_bit_eq take_bit_nat_eq_self) (simp add: drop_bit_eq_div)

lemma low_mask_mask: "n < 32 \<Longrightarrow> low_mask n = mask n"
  by (simp add: low_mask_def shl32_def mask_eq_exp_minus_1)

lemma and_low_mask: "n < 32 \<Longrightarrow> unat (w AND low_mask n) = unat w mod 2 ^ n"
  by (simp add: low_mask_mask unat_take_bit_mod flip: take_bit_eq_mask)

lemma unat_shr32: "n < 32 \<Longrightarrow> unat (shr32 w n) = unat w div 2 ^ n"
  by (simp add: shr32_def unat_drop_bit_div)

lemma and_not_low_mask:
  assumes "n < 32"
  shows "unat (w AND NOT (low_mask n)) = unat w - unat w mod 2 ^ n"
proof -
  have "w = (w AND NOT (mask n)) + take_bit n w"
    by (subst disjunctive_add; simp add: bit_eq_iff bit_simps) blast
  then have "w AND NOT (mask n) = w - take_bit n w"
    by (metis add_diff_cancel_right')
  moreover have "take_bit n w \<le> w"
    by (simp add: word_le_nat_alt unat_take_bit_mod)
  ultimately show ?thesis
    using assms by (simp add: low_mask_mask unat_sub unat_take_bit_mod)
qed

lemma addr_transfer_parts:
  assumes "widths_ok c"
  shows "addr_transfer c addr =
    (block_tag c (block_num c addr), block_index c (block_num c addr), unat addr mod blk_bytes c)"
proof -
  let ?o = "offset_bit_width c" and ?i = "index_bit_width c"
  have w: "0 < ?o + ?i" "?o + ?i < 32" using assms by (simp_all add: widths_ok_def)
  have m: "(32 - int ?o - int ?i) mod 32 = int (32 - (?o + ?i))"
    using w by (subst mod_pos_pos_trivial) auto
  have t: "nat ((32 - (32 - int ?o - int ?i)) mod 32) = ?o + ?i"
    "nat ((32 - int ?o - int ?i) mod 32) = 32 - (?o + ?i)"
    using w unfolding m by (simp_all add: nat_add_distrib)
  have "unat addr div 2 ^ (?o + ?i) < 2 ^ (32 - (?o + ?i))"
    using w unat_less_u32 [of addr] by (intro less_mult_imp_div_less) (simp flip: power_add)
  moreover have "unat addr div 2 ^ ?o div 2 ^ ?i < 2 ^ 32"
    using unat_less_u32 [of addr] by (meson div_le_dividend le_less_trans)
  ultimately have "shr32 addr (?o + ?i) AND low_mask (32 - (?o + ?i)) =
      of_nat (unat addr div 2 ^ ?o div 2 ^ ?i)"
    using w by (intro word_unat_eq_iff [THEN iffD2])
      (simp add: and_low_mask unat_shr32 power_add div_mult2_eq unat_of_nat)
  then show ?thesis
    using w unfolding addr_transfer_def Let_def t
    by (simp add: and_low_mask unat_shr32 block_tag_def block_index_def block_num_def blk_bytes_def n_sets_def)
qed



lemma blk_bytes_pos [simp]: "0 < blk_bytes c"
  by (simp add: blk_bytes_def)

lemma n_sets_pos [simp]: "0 < n_sets c"
  by (simp add: n_sets_def)

lemma block_index_less [simp]: "block_index c k < n_sets c"
  by (simp add: block_index_def)

lemma block_num_less: "widths_ok c \<Longrightarrow> block_num c addr div n_sets c < 2 ^ 32"
  using unat_less_u32 [of addr]
  by (simp add: block_num_def) (meson div_le_dividend le_less_trans)

text \<open>A block number is determined by its tag and its set index.\<close>

lemma block_num_of_parts:
  assumes "k div n_sets c < 2 ^ 32"
  shows "unat (block_tag c k) * n_sets c + block_index c k = k"
  using assms by (simp add: block_tag_def block_index_def unat_of_nat)

lemma block_parts_inj:
  assumes "k div n_sets c < 2 ^ 32" "j div n_sets c < 2 ^ 32" "block_tag c j = block_tag c k"
    "block_index c j = block_index c k"
  shows "j = k"
  using block_num_of_parts [OF assms(1)] block_num_of_parts [OF assms(2)] assms(3,4) by simp

lemma block_parts_of:
  assumes "ix < n_sets c"
  shows "block_tag c (unat t * n_sets c + ix) = t" "block_index c (unat t * n_sets c + ix) = ix"
    "(unat t * n_sets c + ix) div n_sets c < 2 ^ 32"
  using assms unat_less_u32 [of t] by (simp_all add: block_tag_def block_index_def)

lemma shl32_of_nat: "n < 32 \<Longrightarrow> shl32 (of_nat k) n = of_nat (k * 2 ^ n)"
  by (simp add: shl32_def push_bit_eq_mult)

lemma and_not_low_mask_block:
  assumes "n < 32" "2 ^ n dvd k" "k < 2 ^ 32"
  shows "(of_nat k :: u32) AND NOT (low_mask n) = of_nat k"
  using assms by (intro word_unat_eq_iff [THEN iffD2]) (simp add: and_not_low_mask unat_of_nat)

lemma compose_nat:
  "k div n_sets c * 2 ^ (index_bit_width c + offset_bit_width c) + block_index c k * blk_bytes c =
   k * blk_bytes c"
proof -
  have "k div n_sets c * 2 ^ (index_bit_width c + offset_bit_width c) + block_index c k * blk_bytes c =
      (k div n_sets c * n_sets c + k mod n_sets c) * blk_bytes c"
    by (simp only: power_add n_sets_def blk_bytes_def block_index_def add_mult_distrib mult.assoc)
  then show ?thesis by simp
qed

lemma compose_sum:
  assumes "widths_ok c"
  shows "shl32 (block_tag c k) (index_bit_width c + offset_bit_width c) +
    of_nat (block_index c k * blk_bytes c) = (of_nat (k * blk_bytes c) :: u32)"
proof -
  have "index_bit_width c + offset_bit_width c < 32" using assms by (simp add: widths_ok_def)
  then show ?thesis
    by (simp only: block_tag_def shl32_of_nat compose_nat flip: of_nat_add)
qed

lemma compose_masked:
  assumes "widths_ok c" "k * blk_bytes c < 2 ^ 32"
  shows "(of_nat (k * blk_bytes c) :: u32) AND NOT (low_mask (offset_bit_width c)) =
    of_nat (k * blk_bytes c)"
  using assms by (intro and_not_low_mask_block) (auto simp: blk_bytes_def widths_ok_def)

lemma write_back_addr_block:
  assumes "widths_ok c" "k * blk_bytes c < 2 ^ 32"
  shows "write_back_addr c (block_tag c k) (block_index c k) = of_nat (k * blk_bytes c)"
proof -
  have "offset_bit_width c < 32" using assms by (simp add: widths_ok_def)
  with compose_sum [OF assms(1)] compose_masked [OF assms] show ?thesis
    by (simp only: write_back_addr_def u32_of_usize_def shl32_of_nat flip: blk_bytes_def)
qed

lemma allocate_addr_block:
  assumes "widths_ok c" "k * blk_bytes c < 2 ^ 32"
  shows "allocate_addr c (block_tag c k) (block_index c k) = of_nat (k * blk_bytes c)"
  using compose_sum [OF assms(1)] compose_masked [OF assms]
  by (simp only: allocate_addr_def u32_of_usize_def flip: blk_bytes_def)

lemma refill_addr_block:
  assumes "widths_ok c" "k * blk_bytes c < 2 ^ 32" "block_num c addr = k"
  shows "addr AND NOT (low_mask (offset_bit_width c)) = of_nat (k * blk_bytes c)"
proof -
  have "unat addr - unat addr mod blk_bytes c = k * blk_bytes c"
    using assms(3) by (auto simp: block_num_def minus_mod_eq_div_mult)
  moreover have "unat (addr AND NOT (low_mask (offset_bit_width c))) = unat addr - unat addr mod blk_bytes c"
    using assms(1) by (subst and_not_low_mask) (auto simp: widths_ok_def blk_bytes_def)
  moreover have "unat (of_nat (k * blk_bytes c) :: u32) = k * blk_bytes c"
    using assms(2) by (simp only: unat_of_nat) simp
  ultimately show ?thesis by (simp only: word_unat_eq_iff)
qed

text \<open>
  C19. Composing addresses: for the tag and set index of a block of the 32-bit address space, the
  write-back address and the refill address are both the address of the block's first byte; the
  refill address after a write-back, the request's address with its offset bits cleared, is the
  same one.
\<close>

theorem composed_addr:
  assumes "widths_ok c" "k * blk_bytes c < 2 ^ 32"
  shows "write_back_addr c (block_tag c k) (block_index c k) = of_nat (k * blk_bytes c) \<and>
    allocate_addr c (block_tag c k) (block_index c k) = of_nat (k * blk_bytes c) \<and>
    (block_num c addr = k \<longrightarrow> addr AND NOT (low_mask (offset_bit_width c)) = of_nat (k * blk_bytes c))"
  using write_back_addr_block [OF assms] allocate_addr_block [OF assms] refill_addr_block [OF assms]
  by blast

theorem composed_addr_witness:
  "write_back_addr \<lparr>offset_bit_width = 5, index_bit_width = 2, cache_set = [] :: unit GeneralCacheSetUnit list,
     fsm = Idle, pending_req = None, backup_req = None, miss_penalty = 0,
     write_policy = WriteBackWriteAllocate, prefetcher = NullPrefetcher, prefetch_queue = [],
     prefetch_in_flight = False, block_size_bytes = 32, hpm = CacheStatistic_new []\<rparr> 3 3 = 0x1E0"
  using composed_addr [where k = 15 and c = "\<lparr>offset_bit_width = 5, index_bit_width = 2,
     cache_set = [] :: unit GeneralCacheSetUnit list,
     fsm = Idle, pending_req = None, backup_req = None, miss_penalty = 0,
     write_policy = WriteBackWriteAllocate, prefetcher = NullPrefetcher, prefetch_queue = [],
     prefetch_in_flight = False, block_size_bytes = 32, hpm = CacheStatistic_new []\<rparr>"]
  by (simp add: widths_ok_def block_tag_def block_index_def blk_bytes_def n_sets_def)

end
