(* ===== verification/Cache_Lines.thy ===== *)
theory Cache_Lines
  imports Cache_Address
begin

text \<open>
  The contents of a cache as a partial map from block numbers to blocks (\<open>cline\<close>), and the byte
  array that a client sees through the cache (\<open>overlay\<close>): cached blocks in front of the next
  level's contents.  Each update of a set is an update of the map.
\<close>

subsection \<open>Cached blocks in front of a byte array\<close>

definition overlay :: "nat \<Rightarrow> (nat \<rightharpoonup> u8 list) \<Rightarrow> u8 list \<Rightarrow> u8 list" where
  "overlay b L X =
     map (\<lambda>a. case L (a div b) of Some d \<Rightarrow> d ! (a mod b) | None \<Rightarrow> X ! a) [0..<length X]"

lemma length_overlay [simp]: "length (overlay b L X) = length X"
  by (simp add: overlay_def)

lemma nth_overlay:
  "a < length X \<Longrightarrow>
   overlay b L X ! a = (case L (a div b) of Some d \<Rightarrow> d ! (a mod b) | None \<Rightarrow> X ! a)"
  by (simp add: overlay_def split: option.split)

lemma div_block: "0 < b \<Longrightarrow> i < b \<Longrightarrow> (k * b + i) div b = k" for b i k :: nat
  by simp

lemma in_block_iff:
  "off + n \<le> b \<Longrightarrow> k * b + off \<le> a \<Longrightarrow> a < k * b + off + n \<Longrightarrow> a div b = k \<and> a mod b = a - k * b"
  for a b k n off :: nat
proof -
  assume a: "off + n \<le> b" "k * b + off \<le> a" "a < k * b + off + n"
  then have "a = k * b + (a - k * b)" "a - k * b < b" by auto
  then show ?thesis by (metis div_block mod_less mod_mult_self3 gr_implies_not0 not_gr_zero)
qed

lemma overlay_block:
  assumes "L k = Some d" "length d = b" "(k + 1) * b \<le> length X" "off + n \<le> b"
  shows "seg (k * b + off) n (overlay b L X) = seg off n d"
proof (rule nth_equalityI)
  show "length (seg (k * b + off) n (overlay b L X)) = length (seg off n d)" using assms by auto
next
  fix i assume "i < length (seg (k * b + off) n (overlay b L X))"
  then have i: "i < n" "k * b + off + i < length X" by auto
  with in_block_iff [of off n b k "k * b + off + i"] assms
  show "seg (k * b + off) n (overlay b L X) ! i = seg off n d ! i"
    by (simp add: nth_overlay)
qed

lemma overlay_miss:
  assumes "L k = None" "(k + 1) * b \<le> length X" "off + n \<le> b"
  shows "seg (k * b + off) n (overlay b L X) = seg (k * b + off) n X"
proof (rule nth_equalityI)
  fix i assume "i < length (seg (k * b + off) n (overlay b L X))"
  then have i: "i < n" "k * b + off + i < length X" by auto
  with in_block_iff [of off n b k "k * b + off + i"] assms
  show "seg (k * b + off) n (overlay b L X) ! i = seg (k * b + off) n X ! i"
    by (simp add: nth_overlay)
qed simp

lemma put_len: "(k + 1) * b \<le> length X \<Longrightarrow> off + length ys \<le> b \<Longrightarrow> k * b + off + length ys \<le> length X"
  for b k off :: nat
  by simp

text \<open>A store to a cached block changes the view; the array behind it does not matter.\<close>

lemma overlay_store:
  assumes "L k = Some d" "length d = b" "(k + 1) * b \<le> length X" "off + length ys \<le> b" "0 < b"
  shows "overlay b (L(k \<mapsto> put_seg off ys d)) X = put_seg (k * b + off) ys (overlay b L X)"
proof (rule nth_equalityI)
  fix a assume "a < length (overlay b (L(k \<mapsto> put_seg off ys d)) X)"
  then have a: "a < length X" by simp
  show "overlay b (L(k \<mapsto> put_seg off ys d)) X ! a = put_seg (k * b + off) ys (overlay b L X) ! a"
  proof (cases "a div b = k")
    case True
    then have "a mod b = a - k * b" "k * b \<le> a" by (auto simp: minus_div_mult_eq_mod)
    moreover have "a mod b < b" using assms(5) by simp
    ultimately show ?thesis
      using a True assms put_len [OF assms(3,4)] by (auto simp: nth_overlay nth_put_seg)
  next
    case False
    then show ?thesis
      using a assms put_len [OF assms(3,4)] in_block_iff [of off "length ys" b k a]
      by (auto simp: nth_overlay nth_put_seg)
  qed
qed (use put_len [OF assms(3,4)] in simp)

lemma overlay_behind:
  assumes "L k = Some d" "(k + 1) * b \<le> length X" "off + length ys \<le> b"
  shows "overlay b L (put_seg (k * b + off) ys X) = overlay b L X"
  using put_len [OF assms(2,3)] in_block_iff [OF assms(3), of k] assms(1)
  by (intro nth_equalityI) (auto simp: nth_overlay nth_put_seg split: option.splits)

lemma overlay_around:
  assumes "L k = None" "(k + 1) * b \<le> length X" "off + length ys \<le> b"
  shows "overlay b L (put_seg (k * b + off) ys X) = put_seg (k * b + off) ys (overlay b L X)"
  using put_len [OF assms(2,3)] in_block_iff [OF assms(3), of k] assms(1)
  by (intro nth_equalityI) (auto simp: nth_overlay nth_put_seg split: option.splits)

text \<open>A block that equals the array behind it can be added or dropped.\<close>

lemma overlay_clean:
  assumes "(k + 1) * b \<le> length X" "0 < b"
  shows "overlay b (L(k \<mapsto> seg (k * b) b X)) X = overlay b (L(k := None)) X"
proof (rule nth_equalityI)
  fix a assume a: "a < length (overlay b (L(k \<mapsto> seg (k * b) b X)) X)"
  show "overlay b (L(k \<mapsto> seg (k * b) b X)) X ! a = overlay b (L(k := None)) X ! a"
  proof (cases "a div b = k")
    case True
    then have "a = k * b + a mod b" "a mod b < b" using assms(2) by auto
    with a True assms show ?thesis by (simp add: nth_overlay)
  next
    case False
    with a show ?thesis by (simp add: nth_overlay)
  qed
qed simp

lemma overlay_clean_drop:
  assumes "(k + 1) * b \<le> length X" "0 < b" "L k = Some (seg (k * b) b X)"
  shows "overlay b (L(k := None)) X = overlay b L X"
  using overlay_clean [OF assms(1,2), of L] assms(3) by (simp add: fun_upd_idem)

lemma overlay_clean_add:
  assumes "(k + 1) * b \<le> length X" "0 < b" "L k = None"
  shows "overlay b (L(k \<mapsto> seg (k * b) b X)) X = overlay b L X"
  using overlay_clean [OF assms(1,2), of L] assms(3) by (simp add: fun_upd_idem)

subsection \<open>The lines of a cache\<close>

definition cset :: "'rp GeneralCache \<Rightarrow> nat \<Rightarrow> 'rp GeneralCacheSetUnit" where
  "cset c ix = cache_set c ! ix"

definition cline :: "'rp GeneralCache \<Rightarrow> nat \<rightharpoonup> u8 list" where
  "cline c k =
     (if k div n_sets c < 2 ^ 32
      then map_option (block_of (cset c (block_index c k)))
             (find_way (cset c (block_index c k)) (block_tag c k))
      else None)"

text \<open>The block number that a way of a set holds.\<close>

definition held_block :: "'rp GeneralCache \<Rightarrow> nat \<Rightarrow> nat \<Rightarrow> nat" where
  "held_block c ix w = unat (tag_array (cset c ix) ! w) * n_sets c + ix"

definition lines_ok :: "nat \<Rightarrow> 'rp GeneralCache \<Rightarrow> bool" where
  "lines_ok n c \<longleftrightarrow> widths_ok c \<and> length (cache_set c) = n_sets c \<and>
     (\<forall>ix<n_sets c. set_shape n (blk_bytes c) (cset c ix) \<and> tags_distinct (cset c ix))"

lemma lines_okD:
  assumes "lines_ok n c" "ix < n_sets c"
  shows "set_shape n (blk_bytes c) (cset c ix)" "tags_distinct (cset c ix)" "ix < length (cache_set c)"
  using assms by (auto simp: lines_ok_def)

lemma held_block_parts:
  assumes "ix < n_sets c"
  shows "block_tag c (held_block c ix w) = tag_array (cset c ix) ! w"
    "block_index c (held_block c ix w) = ix" "held_block c ix w div n_sets c < 2 ^ 32"
  using block_parts_of [OF assms] by (simp_all add: held_block_def)

lemma cline_held:
  assumes "lines_ok n c" "ix < n_sets c" "holds (cset c ix) w"
  shows "cline c (held_block c ix w) = Some (block_of (cset c ix) w)"
  using assms(3) held_block_parts [OF assms(2)] find_way_eq [OF lines_okD(2) [OF assms(1,2)]]
  by (auto simp: cline_def intro!: exI [of _ w])

lemma cline_SomeD:
  assumes "cline c k = Some d"
  shows "\<exists>w. holds (cset c (block_index c k)) w \<and> held_block c (block_index c k) w = k \<and>
    d = block_of (cset c (block_index c k)) w \<and>
    find_way (cset c (block_index c k)) (block_tag c k) = Some w"
proof -
  from assms obtain w where w: "find_way (cset c (block_index c k)) (block_tag c k) = Some w"
    "k div n_sets c < 2 ^ 32" "d = block_of (cset c (block_index c k)) w"
    by (auto simp: cline_def split: if_splits)
  from find_way_SomeD [OF w(1)] block_num_of_parts [OF w(2)] w show ?thesis
    by (auto simp: held_block_def)
qed

lemma cline_length:
  assumes "lines_ok n c" "cline c k = Some d"
  shows "length d = blk_bytes c"
  using cline_SomeD [OF assms(2)] length_block_of [OF lines_okD(1) [OF assms(1)]]
  by (metis block_index_less holds_def lines_okD(1) [OF assms(1)] set_shape_def)

subsection \<open>Updates of a set\<close>

lemma update_set_simps [simp]:
  "ix < length (cache_set c) \<Longrightarrow> cset (update_set ix s c) jx = (if jx = ix then s else cset c jx)"
  "n_sets (update_set ix s c) = n_sets c" "blk_bytes (update_set ix s c) = blk_bytes c"
  "widths_ok (update_set ix s c) = widths_ok c" "block_tag (update_set ix s c) k = block_tag c k"
  "block_index (update_set ix s c) k = block_index c k"
  "length (cache_set (update_set ix s c)) = length (cache_set c)"
  by (auto simp: update_set_def cset_def n_sets_def blk_bytes_def widths_ok_def block_tag_def block_index_def)

lemma lines_ok_update:
  assumes "lines_ok n c" "ix < n_sets c" "set_shape n (blk_bytes c) s" "tags_distinct s"
  shows "lines_ok n (update_set ix s c)"
  using assms by (auto simp: lines_ok_def)

lemma held_block_update:
  assumes "lines_ok n c" "ix < n_sets c"
  shows "held_block (update_set ix s c) jx w =
    (if jx = ix then unat (tag_array s ! w) * n_sets c + ix else held_block c jx w)"
  using lines_okD(3) [OF assms] by (auto simp: held_block_def)

text \<open>The replacement state is invisible.\<close>

lemma cline_update_rp:
  assumes "lines_ok n c" "ix < n_sets c"
  shows "cline (update_set ix ((cset c ix)\<lparr>set_rp := rp\<rparr>) c) = cline c"
  using lines_okD(3) [OF assms]
  by (auto simp: cline_def fun_eq_iff find_way_def block_of_def cong: map_option_cong)

text \<open>Writing the data of a held block.\<close>

lemma cline_update_data:
  assumes "lines_ok n c" "ix < n_sets c" "holds (cset c ix) w" "length d = blk_bytes c"
    and s': "valid_array s' = valid_array (cset c ix)" "tag_array s' = tag_array (cset c ix)"
      "num_associativity s' = num_associativity (cset c ix)" "bytes_per_block s' = blk_bytes c"
      "data_array s' = put_seg (blk_bytes c * w) d (data_array (cset c ix))"
  shows "cline (update_set ix s' c) = (cline c)(held_block c ix w \<mapsto> d)"
proof
  fix k
  note sh = lines_okD [OF assms(1,2)]
  have n: "w < n" using assms(3) sh(1) by (simp add: holds_def set_shape_def)
  have fw: "find_way s' t = find_way (cset c ix) t" for t
    by (rule find_way_cong) (use s' in simp_all)
  have bo: "block_of s' v = (if v = w then d else block_of (cset c ix) v)" if "v < n" for v
    by (rule block_of_put [OF sh(1) n that assms(4) s'(5,4)])
  have lt: "v < n" if "find_way (cset c ix) t = Some v" for t v
    using find_way_SomeD [OF that] sh(1) by (simp add: holds_def set_shape_def)
  show "cline (update_set ix s' c) k = ((cline c)(held_block c ix w \<mapsto> d)) k"
  proof (cases "block_index c k = ix \<and> k div n_sets c < 2 ^ 32")
    case True
    have iff: "find_way (cset c ix) (block_tag c k) = Some w \<longleftrightarrow> k = held_block c ix w"
      using find_way_eq [OF sh(2)] assms(2,3) True held_block_parts [OF assms(2), of w]
        block_parts_inj [of "held_block c ix w" c k] by auto
    show ?thesis
    proof (cases "find_way (cset c ix) (block_tag c k)")
      case None
      with True iff sh(3) fw show ?thesis by (simp add: cline_def)
    next
      case (Some v)
      with True iff sh(3) fw bo [OF lt [OF Some]] show ?thesis by (auto simp: cline_def)
    qed
  next
    case False
    then have "k \<noteq> held_block c ix w" using held_block_parts [OF assms(2), of w] by auto
    with False sh(3) show ?thesis by (auto simp: cline_def)
  qed
qed

text \<open>Filling a way with a block that the cache does not hold.\<close>

lemma cline_update_insert:
  assumes "lines_ok n c" "ix < n_sets c" "w < n" "length d = blk_bytes c"
    and k': "k' div n_sets c < 2 ^ 32" "block_index c k' = ix" "cline c k' = None"
    and s': "valid_array s' = (valid_array (cset c ix))[w := True]"
      "tag_array s' = (tag_array (cset c ix))[w := block_tag c k']"
      "num_associativity s' = n" "bytes_per_block s' = blk_bytes c"
      "data_array s' = put_seg (blk_bytes c * w) d (data_array (cset c ix))"
  shows "tags_distinct s'"
    and "cline (update_set ix s' c) =
      (if holds (cset c ix) w then (cline c)(held_block c ix w := None) else cline c)(k' \<mapsto> d)"
proof -
  note sh = lines_okD [OF assms(1,2)]
  have len: "length (valid_array (cset c ix)) = n" "length (tag_array (cset c ix)) = n"
    "num_associativity (cset c ix) = n" using sh(1) by (auto simp: set_shape_def)
  have h': "holds s' v \<longleftrightarrow> v < n \<and> (v = w \<or> holds (cset c ix) v)"
    and t': "v < n \<Longrightarrow> tag_array s' ! v = (if v = w then block_tag c k' else tag_array (cset c ix) ! v)" for v
    using s' len assms(3) by (auto simp: holds_def nth_list_update)
  have absent: "tag_array (cset c ix) ! v \<noteq> block_tag c k'" if "holds (cset c ix) v" for v
    using that k' find_way_None [of "cset c ix" "block_tag c k'"] by (auto simp: cline_def)
  show td: "tags_distinct s'"
    using sh(2) absent h' t' unfolding tags_distinct_def by metis
  have bo: "block_of s' v = (if v = w then d else block_of (cset c ix) v)" if "v < n" for v
    by (rule block_of_put [OF sh(1) assms(3) that assms(4) s'(5,4)])
  show "cline (update_set ix s' c) =
      (if holds (cset c ix) w then (cline c)(held_block c ix w := None) else cline c)(k' \<mapsto> d)"
  proof
    fix k
    show "cline (update_set ix s' c) k =
      ((if holds (cset c ix) w then (cline c)(held_block c ix w := None) else cline c)(k' \<mapsto> d)) k"
    proof (cases "block_index c k = ix \<and> k div n_sets c < 2 ^ 32")
      case False
      then have "k \<noteq> k'" "k \<noteq> held_block c ix w" using k' held_block_parts [OF assms(2), of w] by auto
      with False sh(3) show ?thesis by (auto simp: cline_def)
    next
      case True
      have w_tag: "block_tag c k = tag_array (cset c ix) ! w \<longleftrightarrow> k = held_block c ix w"
        using True held_block_parts [OF assms(2), of w] block_parts_inj [of "held_block c ix w" c k] by auto
      have same: "block_tag c k = block_tag c k' \<longleftrightarrow> k = k'"
        using True k' block_parts_inj [of k' c k] by auto
      have l: "cline (update_set ix s' c) k = map_option (block_of s') (find_way s' (block_tag c k))"
        "cline c k = map_option (block_of (cset c ix)) (find_way (cset c ix) (block_tag c k))"
        using True sh(3) by (simp_all add: cline_def)
      have fw: "find_way s' (block_tag c k) =
          (if k = k' then Some w
           else case find_way (cset c ix) (block_tag c k) of
             Some v \<Rightarrow> if v = w then None else Some v | None \<Rightarrow> None)"
        using absent same h' t' assms(3) len sh(2) [unfolded tags_distinct_def holds_def]
        by (auto simp: find_way_eq [OF td] find_way_None find_way_eq [OF sh(2)] holds_def
            dest: find_way_SomeD split: option.splits)
      show ?thesis
      proof (cases "find_way (cset c ix) (block_tag c k)")
        case None
        with bo [OF assms(3)] show ?thesis by (simp add: l fw)
      next
        case (Some v)
        note v = find_way_SomeD [OF Some]
        then have vn: "v < n" using len by (simp add: holds_def)
        have vw: "v = w \<longleftrightarrow> k = held_block c ix w" if "holds (cset c ix) w"
          using that v w_tag sh(2) unfolding tags_distinct_def by metis
        show ?thesis
          using Some v bo [OF assms(3)] bo [OF vn] vw l fw
          by (cases "holds (cset c ix) w"; cases "v = w"; cases "k = k'") simp_all
      qed
    qed
  qed
qed

end
