(* ===== verification/Cache_Invariant.thy ===== *)
theory Cache_Invariant
  imports Cache_Lines
begin

text \<open>
  The invariant of a cache above the contents \<open>X\<close> of its next level: well-formed sets, every held
  block inside the memory, clean blocks equal to the next level, and, under a write-back policy,
  every held block protected by the valid bit of the replacement policy (so that an eviction that
  does not report a full set never drops a dirty block).
\<close>

subsection \<open>Requests inside a block\<close>

definition rblk :: "'rp GeneralCache \<Rightarrow> MemoryReqType \<Rightarrow> nat" where
  "rblk c r = block_num c (get_addr r)"

definition roff :: "'rp GeneralCache \<Rightarrow> MemoryReqType \<Rightarrow> nat" where
  "roff c r = unat (get_addr r) mod blk_bytes c"

lemma req_split: "unat (get_addr r) = rblk c r * blk_bytes c + roff c r"
  by (simp add: rblk_def roff_def block_num_def)

lemma aligned_in_block:
  fixes a b n :: nat
  assumes "n dvd a" "n dvd b" "0 < n" "0 < b"
  shows "a mod b + n \<le> b"
proof -
  have "n dvd a mod b" using assms(1,2) by (simp add: dvd_mod)
  then obtain q p where q: "a mod b = n * q" and p: "b = n * p" using assms(2) by (auto elim!: dvdE)
  have "a mod b < b" using assms(4) by simp
  with q p have "q < p" using assms(3) by simp
  then have "n * (q + 1) \<le> n * p" by (intro mult_le_mono) simp_all
  with q p show ?thesis by (simp add: distrib_left)
qed

lemma admissible_block:
  assumes "admissible (blk_bytes c) sz r" "blk_bytes c dvd sz"
  shows "0 < get_len r" "roff c r + get_len r \<le> blk_bytes c" "(rblk c r + 1) * blk_bytes c \<le> sz"
proof -
  from assms(1) have p: "is_power_of_two (get_len r)" "get_len r \<le> blk_bytes c"
    "get_len r dvd unat (get_addr r)" "unat (get_addr r) + get_len r \<le> sz"
    by (auto simp: admissible_def)
  then show pos: "0 < get_len r" by (simp add: is_power_of_two_def)
  have d: "get_len r dvd blk_bytes c"
    by (rule power_of_two_dvd) (use p in \<open>simp_all add: blk_bytes_def\<close>)
  show off: "roff c r + get_len r \<le> blk_bytes c"
    unfolding roff_def by (rule aligned_in_block) (use p pos d in simp_all)
  from assms(2) obtain z where z: "sz = blk_bytes c * z" by (auto elim: dvdE)
  have "rblk c r * blk_bytes c < sz" using p(4) pos req_split [of r c] by simp
  then have "rblk c r < z" using z by (simp add: mult.commute)
  then have "(rblk c r + 1) * blk_bytes c \<le> z * blk_bytes c" by (intro mult_le_mono) simp_all
  then show "(rblk c r + 1) * blk_bytes c \<le> sz" using z by (simp add: mult.commute)
qed

lemma store_lenD: "fresh_req r h \<Longrightarrow> is_store r \<Longrightarrow> store_data r = Inr d \<Longrightarrow> length d = get_len r"
  by (cases r) (auto simp: store_data_def)

subsection \<open>The core invariant\<close>

definition core ::
  "(nat \<Rightarrow> 'rp \<Rightarrow> bool) \<Rightarrow> nat \<Rightarrow> 'rp GeneralCache \<Rightarrow> nat \<Rightarrow> bool" where
  "core rp_inv n c sz \<longleftrightarrow>
     lines_ok n c \<and> (\<forall>ix<n_sets c. rp_inv n (set_rp (cset c ix))) \<and>
     block_size_bytes c = blk_bytes c \<and> sz \<le> 2 ^ 32 \<and> blk_bytes c dvd sz \<and>
     (\<forall>ix<n_sets c. \<forall>w. holds (cset c ix) w \<longrightarrow> (held_block c ix w + 1) * blk_bytes c \<le> sz) \<and>
     prefetcher c = NullPrefetcher \<and> prefetch_queue c = [] \<and> \<not> prefetch_in_flight c \<and>
     pending_req c = None \<and> cache_statistic_ok (hpm c) \<and>
     write_policy c \<noteq> WriteBackNoWriteAllocate \<and>
     (\<forall>ix<n_sets c. \<forall>w<n. dirty_array (cset c ix) ! w \<longrightarrow>
        holds (cset c ix) w \<and> is_write_back (write_policy c))"

definition agrees :: "'rp GeneralCache \<Rightarrow> u8 list \<Rightarrow> bool" where
  "agrees c X \<longleftrightarrow>
     (\<forall>ix<n_sets c. \<forall>w. holds (cset c ix) w \<longrightarrow> \<not> dirty_array (cset c ix) ! w \<longrightarrow>
        block_of (cset c ix) w = seg (held_block c ix w * blk_bytes c) (blk_bytes c) X)"

definition protects ::
  "('rp \<Rightarrow> nat \<Rightarrow> bool) \<Rightarrow> 'rp GeneralCache \<Rightarrow> (nat \<times> nat) set \<Rightarrow> bool" where
  "protects rp_valid c ex \<longleftrightarrow> is_write_back (write_policy c) \<longrightarrow>
     (\<forall>ix<n_sets c. \<forall>w. holds (cset c ix) w \<longrightarrow> (ix, w) \<notin> ex \<longrightarrow> rp_valid (set_rp (cset c ix)) w)"

text \<open>What a client reads through the cache.\<close>

definition view :: "'rp GeneralCache \<Rightarrow> u8 list \<Rightarrow> u8 list" where
  "view c X = overlay (blk_bytes c) (cline c) X"

lemma length_view [simp]: "length (view c X) = length X"
  by (simp add: view_def)

text \<open>Fields of the controller that the lines do not depend on.\<close>

lemma cset_fields [simp]:
  "cset (c\<lparr>fsm := x\<rparr>) = cset c" "cset (c\<lparr>backup_req := y\<rparr>) = cset c"
  "cset (c\<lparr>pending_req := y\<rparr>) = cset c" "cset (c\<lparr>hpm := z\<rparr>) = cset c"
  by (simp_all add: cset_def fun_eq_iff)

lemma geometry_fields [simp]:
  "n_sets (c\<lparr>fsm := x\<rparr>) = n_sets c" "n_sets (c\<lparr>backup_req := y\<rparr>) = n_sets c"
  "n_sets (c\<lparr>pending_req := y\<rparr>) = n_sets c" "n_sets (c\<lparr>hpm := z\<rparr>) = n_sets c"
  "blk_bytes (c\<lparr>fsm := x\<rparr>) = blk_bytes c" "blk_bytes (c\<lparr>backup_req := y\<rparr>) = blk_bytes c"
  "blk_bytes (c\<lparr>pending_req := y\<rparr>) = blk_bytes c" "blk_bytes (c\<lparr>hpm := z\<rparr>) = blk_bytes c"
  "widths_ok (c\<lparr>fsm := x\<rparr>) = widths_ok c" "widths_ok (c\<lparr>backup_req := y\<rparr>) = widths_ok c"
  "widths_ok (c\<lparr>pending_req := y\<rparr>) = widths_ok c" "widths_ok (c\<lparr>hpm := z\<rparr>) = widths_ok c"
  by (simp_all add: n_sets_def blk_bytes_def widths_ok_def)

lemma block_fields [simp]:
  "block_index (c\<lparr>fsm := x\<rparr>) = block_index c" "block_index (c\<lparr>backup_req := y\<rparr>) = block_index c"
  "block_index (c\<lparr>pending_req := y\<rparr>) = block_index c" "block_index (c\<lparr>hpm := z\<rparr>) = block_index c"
  "block_tag (c\<lparr>fsm := x\<rparr>) = block_tag c" "block_tag (c\<lparr>backup_req := y\<rparr>) = block_tag c"
  "block_tag (c\<lparr>pending_req := y\<rparr>) = block_tag c" "block_tag (c\<lparr>hpm := z\<rparr>) = block_tag c"
  by (simp_all add: block_index_def block_tag_def fun_eq_iff)

lemma line_fields [simp]:
  "cline (c\<lparr>fsm := x\<rparr>) = cline c" "cline (c\<lparr>backup_req := y\<rparr>) = cline c"
  "cline (c\<lparr>pending_req := y\<rparr>) = cline c" "cline (c\<lparr>hpm := z\<rparr>) = cline c"
  "held_block (c\<lparr>fsm := x\<rparr>) = held_block c" "held_block (c\<lparr>backup_req := y\<rparr>) = held_block c"
  "held_block (c\<lparr>pending_req := y\<rparr>) = held_block c" "held_block (c\<lparr>hpm := z\<rparr>) = held_block c"
  by (simp_all add: cline_def held_block_def fun_eq_iff)

lemma request_fields [simp]:
  "rblk (c\<lparr>fsm := x\<rparr>) r = rblk c r" "rblk (c\<lparr>backup_req := y\<rparr>) r = rblk c r"
  "rblk (c\<lparr>pending_req := y\<rparr>) r = rblk c r" "rblk (c\<lparr>hpm := z\<rparr>) r = rblk c r"
  "rblk (update_set ix s c) r = rblk c r" "roff (update_set ix s c) r = roff c r"
  by (simp_all add: rblk_def roff_def block_num_def)

lemma invariant_fields [simp]:
  "core rp_inv n (c\<lparr>fsm := x\<rparr>) sz = core rp_inv n c sz"
  "core rp_inv n (c\<lparr>backup_req := y\<rparr>) sz = core rp_inv n c sz"
  "agrees (c\<lparr>fsm := x\<rparr>) X = agrees c X" "agrees (c\<lparr>backup_req := y\<rparr>) X = agrees c X"
  "agrees (c\<lparr>hpm := z\<rparr>) X = agrees c X"
  "protects rp_valid (c\<lparr>fsm := x\<rparr>) ex = protects rp_valid c ex"
  "protects rp_valid (c\<lparr>backup_req := y\<rparr>) ex = protects rp_valid c ex"
  "protects rp_valid (c\<lparr>hpm := z\<rparr>) ex = protects rp_valid c ex"
  "view (c\<lparr>fsm := x\<rparr>) X = view c X" "view (c\<lparr>backup_req := y\<rparr>) X = view c X"
  "view (c\<lparr>hpm := z\<rparr>) X = view c X"
  by (simp_all add: core_def lines_ok_def agrees_def protects_def view_def)

lemma core_count [simp]:
  "core rp_inv n c sz \<Longrightarrow> core rp_inv n (count_load p b c) sz"
  "core rp_inv n c sz \<Longrightarrow> core rp_inv n (count_store p b c) sz"
  by (auto simp: core_def lines_ok_def count_load_def count_store_def)

lemma count_fields [simp]:
  "cset (count_load p b c) = cset c" "cset (count_store p b c) = cset c"
  "n_sets (count_load p b c) = n_sets c" "n_sets (count_store p b c) = n_sets c"
  "blk_bytes (count_load p b c) = blk_bytes c" "blk_bytes (count_store p b c) = blk_bytes c"
  "cline (count_load p b c) = cline c" "cline (count_store p b c) = cline c"
  "held_block (count_load p b c) = held_block c" "held_block (count_store p b c) = held_block c"
  "agrees (count_load p b c) X = agrees c X" "agrees (count_store p b c) X = agrees c X"
  "protects rp_valid (count_load p b c) ex = protects rp_valid c ex"
  "protects rp_valid (count_store p b c) ex = protects rp_valid c ex"
  "write_policy (count_load p b c) = write_policy c" "write_policy (count_store p b c) = write_policy c"
  "miss_penalty (count_load p b c) = miss_penalty c" "miss_penalty (count_store p b c) = miss_penalty c"
  "length (cache_set (count_load p b c)) = length (cache_set c)"
  "length (cache_set (count_store p b c)) = length (cache_set c)"
  "view (count_load p b c) X = view c X" "view (count_store p b c) X = view c X"
  "rblk (count_load p b c) r = rblk c r" "rblk (count_store p b c) r = rblk c r"
  by (simp_all add: count_load_def count_store_def)

lemma coreD:
  assumes "core rp_inv n c sz"
  shows "lines_ok n c" "ix < n_sets c \<Longrightarrow> rp_inv n (set_rp (cset c ix))" "blk_bytes c dvd sz"
    "ix < n_sets c \<Longrightarrow> holds (cset c ix) w \<Longrightarrow> (held_block c ix w + 1) * blk_bytes c \<le> sz"
    "widths_ok c" "sz \<le> 2 ^ 32" "length (cache_set c) = n_sets c"
    "ix < n_sets c \<Longrightarrow> w < n \<Longrightarrow> dirty_array (cset c ix) ! w \<Longrightarrow>
       holds (cset c ix) w \<and> is_write_back (write_policy c)"
  using assms by (auto simp: core_def lines_ok_def)

subsection \<open>Set updates keep the invariant\<close>

lemma update_set_fields [simp]:
  "write_policy (update_set ix s c) = write_policy c" "fsm (update_set ix s c) = fsm c"
  "offset_bit_width (update_set ix s c) = offset_bit_width c"
  "index_bit_width (update_set ix s c) = index_bit_width c"
  "backup_req (update_set ix s c) = backup_req c" "miss_penalty (update_set ix s c) = miss_penalty c"
  by (simp_all add: update_set_def)

text \<open>General form: a new set with the same shape, whose held blocks stay inside the memory.\<close>

lemma core_update:
  assumes "core rp_inv n c sz" "ix < n_sets c" "set_shape n (blk_bytes c) s" "tags_distinct s"
    "rp_inv n (set_rp s)"
    "\<And>w. holds s w \<Longrightarrow> (unat (tag_array s ! w) * n_sets c + ix + 1) * blk_bytes c \<le> sz"
    "\<And>w. w < n \<Longrightarrow> dirty_array s ! w \<Longrightarrow> holds s w \<and> is_write_back (write_policy c)"
  shows "core rp_inv n (update_set ix s c) sz"
proof -
  have l: "lines_ok n c" and len: "ix < length (cache_set c)"
    using assms(1,2) by (auto simp: core_def lines_ok_def)
  have f: "block_size_bytes (update_set ix s c) = block_size_bytes c"
    "prefetcher (update_set ix s c) = prefetcher c" "hpm (update_set ix s c) = hpm c"
    "prefetch_queue (update_set ix s c) = prefetch_queue c"
    "prefetch_in_flight (update_set ix s c) = prefetch_in_flight c"
    "pending_req (update_set ix s c) = pending_req c"
    by (simp_all add: update_set_def)
  show ?thesis
    using assms len lines_ok_update [OF l assms(2-4)]
    by (auto simp: core_def held_block_update [OF l assms(2)] f)
qed

lemma shape_rp [simp]:
  "set_shape n b (s\<lparr>set_rp := rp\<rparr>) = set_shape n b s"
  "tags_distinct (s\<lparr>set_rp := rp\<rparr>) = tags_distinct s" "holds (s\<lparr>set_rp := rp\<rparr>) w = holds s w"
  "block_of (s\<lparr>set_rp := rp\<rparr>) w = block_of s w" "find_way (s\<lparr>set_rp := rp\<rparr>) t = find_way s t"
  by (simp_all add: set_shape_def tags_distinct_def holds_def block_of_def find_way_def)

lemma core_update_rp:
  assumes "core rp_inv n c sz" "ix < n_sets c" "rp_inv n rp"
  shows "core rp_inv n (update_set ix ((cset c ix)\<lparr>set_rp := rp\<rparr>) c) sz"
  using assms lines_okD [OF coreD(1) [OF assms(1)] assms(2)] coreD(4) [OF assms(1,2)]
  by (intro core_update) (auto simp: core_def held_block_def)

lemma agrees_update_rp:
  assumes "core rp_inv n c sz" "ix < n_sets c"
  shows "agrees (update_set ix ((cset c ix)\<lparr>set_rp := rp\<rparr>) c) X = agrees c X"
  using coreD(7) [OF assms(1)] assms(2) held_block_update [OF coreD(1) [OF assms(1)] assms(2)]
  by (auto simp: agrees_def held_block_def)

lemma view_update_rp:
  assumes "core rp_inv n c sz" "ix < n_sets c"
  shows "view (update_set ix ((cset c ix)\<lparr>set_rp := rp\<rparr>) c) X = view c X"
  using cline_update_rp [OF coreD(1) [OF assms(1)] assms(2)] by (simp add: view_def)

lemma protects_update:
  assumes "core rp_inv n c sz" "ix < n_sets c" "protects rp_valid c ex"
    "\<And>w. holds s w \<Longrightarrow> (ix, w) \<notin> ex' \<Longrightarrow>
       rp_valid (set_rp s) w \<or> holds (cset c ix) w \<and> (ix, w) \<notin> ex \<and>
         (rp_valid (set_rp (cset c ix)) w \<longrightarrow> rp_valid (set_rp s) w)"
    "\<And>jx w. jx \<noteq> ix \<Longrightarrow> (jx, w) \<in> ex \<Longrightarrow> (jx, w) \<in> ex'"
  shows "protects rp_valid (update_set ix s c) ex'"
  using assms coreD(7) [OF assms(1)] unfolding protects_def by (auto split: if_splits) blast+

text \<open>A store into a held block.\<close>

definition written :: "'rp GeneralCacheSetUnit \<Rightarrow> nat \<Rightarrow> u8 list \<Rightarrow> bool list \<Rightarrow> 'rp \<Rightarrow> 'rp GeneralCacheSetUnit" where
  "written s w d D rp =
     s\<lparr>data_array := put_seg (bytes_per_block s * w) d (data_array s), dirty_array := D, set_rp := rp\<rparr>"

lemma written_simps [simp]:
  "valid_array (written s w d D rp) = valid_array s" "tag_array (written s w d D rp) = tag_array s"
  "num_associativity (written s w d D rp) = num_associativity s"
  "bytes_per_block (written s w d D rp) = bytes_per_block s" "dirty_array (written s w d D rp) = D"
  "set_rp (written s w d D rp) = rp" "holds (written s w d D rp) v = holds s v"
  "tags_distinct (written s w d D rp) = tags_distinct s"
  "data_array (written s w d D rp) = put_seg (bytes_per_block s * w) d (data_array s)"
  by (simp_all add: written_def holds_def tags_distinct_def)

lemma written_shape:
  assumes "set_shape n b s" "w < n" "length d = b" "length D = n"
  shows "set_shape n b (written s w d D rp)"
  using assms block_range_le [OF assms(2), of b] by (simp add: set_shape_def)

lemma block_of_written:
  assumes "set_shape n b s" "w < n" "v < n" "length d = b"
  shows "block_of (written s w d D rp) v = (if v = w then d else block_of s v)"
  using assms by (intro block_of_put [OF assms]) (auto simp: set_shape_def)

lemma holds_less: "set_shape n b s \<Longrightarrow> holds s w \<Longrightarrow> w < n"
  by (simp add: holds_def set_shape_def)

lemma core_written:
  assumes "core rp_inv n c sz" "ix < n_sets c" "holds (cset c ix) w" "length d = blk_bytes c"
    "D = dirty_array (cset c ix) \<or>
     D = (dirty_array (cset c ix))[w := True] \<and> is_write_back (write_policy c)" "rp_inv n rp"
  shows "core rp_inv n (update_set ix (written (cset c ix) w d D rp) c) sz"
    and "cline (update_set ix (written (cset c ix) w d D rp) c) = (cline c)(held_block c ix w \<mapsto> d)"
proof -
  note sh = lines_okD [OF coreD(1) [OF assms(1)] assms(2)]
  have w: "w < n" by (rule holds_less [OF sh(1) assms(3)])
  have D: "length D = n" using assms(5) sh(1) by (auto simp: set_shape_def)
  have dirty: "holds (cset c ix) v \<and> is_write_back (write_policy c)" if "v < n" "D ! v" for v
    using that assms(3,5) coreD(8) [OF assms(1,2) that(1)] by (cases "v = w") auto
  show "core rp_inv n (update_set ix (written (cset c ix) w d D rp) c) sz"
    using assms(6) sh(2) dirty coreD(4) [OF assms(1,2)]
    by (intro core_update [OF assms(1,2) written_shape [OF sh(1) w assms(4) D]])
      (auto simp: held_block_def)
  show "cline (update_set ix (written (cset c ix) w d D rp) c) = (cline c)(held_block c ix w \<mapsto> d)"
    using sh(1) by (intro cline_update_data [OF coreD(1) [OF assms(1)] assms(2-4)])
      (auto simp: set_shape_def)
qed

lemma agrees_update:
  assumes "lines_ok n c" "ix < n_sets c"
    "\<And>v. holds s v \<Longrightarrow> \<not> dirty_array s ! v \<Longrightarrow>
       block_of s v = seg ((unat (tag_array s ! v) * n_sets c + ix) * blk_bytes c) (blk_bytes c) Y"
    "\<And>jx v. jx < n_sets c \<Longrightarrow> jx \<noteq> ix \<Longrightarrow> holds (cset c jx) v \<Longrightarrow> \<not> dirty_array (cset c jx) ! v \<Longrightarrow>
       block_of (cset c jx) v = seg (held_block c jx v * blk_bytes c) (blk_bytes c) Y"
  shows "agrees (update_set ix s c) Y"
  using assms lines_okD(3) [OF assms(1,2)]
  by (auto simp: agrees_def held_block_update [OF assms(1,2)])

lemma agreesD:
  "agrees c X \<Longrightarrow> ix < n_sets c \<Longrightarrow> holds (cset c ix) w \<Longrightarrow> \<not> dirty_array (cset c ix) ! w \<Longrightarrow>
   block_of (cset c ix) w = seg (held_block c ix w * blk_bytes c) (blk_bytes c) X"
  by (simp add: agrees_def)

lemma agrees_written_dirty:
  assumes "core rp_inv n c sz" "ix < n_sets c" "holds (cset c ix) w" "length d = blk_bytes c" "agrees c X"
  shows "agrees (update_set ix (written (cset c ix) w d ((dirty_array (cset c ix))[w := True]) rp) c) X"
proof -
  note sh = lines_okD [OF coreD(1) [OF assms(1)] assms(2)]
  have w: "w < n" by (rule holds_less [OF sh(1) assms(3)])
  then have "(dirty_array (cset c ix))[w := True] ! w" using sh(1) by (simp add: set_shape_def)
  then have v: "v \<noteq> w \<and> \<not> dirty_array (cset c ix) ! v"
    if "\<not> (dirty_array (cset c ix))[w := True] ! v" for v
    using that by (cases "v = w") auto
  show ?thesis
    using v block_of_written [OF sh(1) w holds_less [OF sh(1)] assms(4)] agreesD [OF assms(5)] assms(2)
    by (intro agrees_update [OF coreD(1) [OF assms(1)] assms(2)]) (auto simp: held_block_def)
qed

text \<open>Blocks other than the one a store touches still agree with the stored-to array.\<close>

lemma seg_other_block:
  assumes "j \<noteq> k" "(k + 1) * b \<le> length X" "off + length ys \<le> b"
  shows "seg (j * b) b (put_seg (k * b + off) ys X) = seg (j * b) b X"
  using assms put_len [OF assms(2,3)] blocks_disjoint [OF assms(1), of b]
  by (intro seg_put_seg_disjoint) (auto simp: mult.commute)

lemma agrees_put:
  assumes "agrees c X" "(k + 1) * blk_bytes c \<le> length X" "off + length ys \<le> blk_bytes c"
    "\<And>ix w. ix < n_sets c \<Longrightarrow> holds (cset c ix) w \<Longrightarrow> \<not> dirty_array (cset c ix) ! w \<Longrightarrow> held_block c ix w \<noteq> k"
  shows "agrees c (put_seg (k * blk_bytes c + off) ys X)"
  using assms seg_other_block [OF _ assms(2,3)] by (simp add: agrees_def)

lemma put_seg_in_seg:
  assumes "k * b + b \<le> length X" "off + length ys \<le> b"
  shows "seg (k * b) b (put_seg (k * b + off) ys X) = put_seg off ys (seg (k * b) b X)"
  using assms by (intro nth_equalityI) (auto simp: nth_put_seg)

lemma agrees_written_through:
  assumes "core rp_inv n c (length X)" "ix < n_sets c" "holds (cset c ix) w" "agrees c X"
    "is_write_through (write_policy c)" "off + length ys \<le> blk_bytes c"
  defines "k \<equiv> held_block c ix w"
  shows "agrees (update_set ix (written (cset c ix) w (put_seg off ys (block_of (cset c ix) w))
      (dirty_array (cset c ix)) rp) c) (put_seg (k * blk_bytes c + off) ys X)"
proof -
  note l = coreD(1) [OF assms(1)]
  note sh = lines_okD [OF l assms(2)]
  have w: "w < n" by (rule holds_less [OF sh(1) assms(3)])
  have clean: "\<not> dirty_array (cset c jx) ! v" if "jx < n_sets c" "holds (cset c jx) v" for jx v
    using coreD(8) [OF assms(1) that(1)] holds_less [OF lines_okD(1) [OF l that(1)] that(2)] assms(5)
    by (auto simp: is_write_through_def)
  have len: "length (block_of (cset c ix) w) = blk_bytes c" by (rule length_block_of [OF sh(1) w])
  have range: "(k + 1) * blk_bytes c \<le> length X"
    unfolding k_def by (rule coreD(4) [OF assms(1-3)])
  have old: "block_of (cset c jx) v = seg (held_block c jx v * blk_bytes c) (blk_bytes c) X"
    if "jx < n_sets c" "holds (cset c jx) v" for jx v
    using assms(4) that clean by (simp add: agrees_def)
  have other: "held_block c jx v \<noteq> k" if "jx < n_sets c" "holds (cset c jx) v" "(jx, v) \<noteq> (ix, w)" for jx v
    using that held_block_parts [OF that(1), of v] held_block_parts [OF assms(2), of w]
      lines_okD(2) [OF l that(1)] assms(3) unfolding k_def tags_distinct_def by metis
  have new: "block_of (written (cset c ix) w (put_seg off ys (block_of (cset c ix) w)) D rp) v =
      (if v = w then put_seg off ys (block_of (cset c ix) w) else block_of (cset c ix) v)"
    if "holds (cset c ix) v" for v D rp
    using holds_less [OF sh(1) that] len assms(6) by (intro block_of_written [OF sh(1) w]) simp_all
  have "put_seg off ys (block_of (cset c ix) w) =
      seg (k * blk_bytes c) (blk_bytes c) (put_seg (k * blk_bytes c + off) ys X)"
    using old [OF assms(2,3)] put_seg_in_seg [of k "blk_bytes c" X off ys] range assms(6)
    by (simp add: k_def)
  then have "block_of (written (cset c ix) w (put_seg off ys (block_of (cset c ix) w)) D rp) v =
      seg (held_block c ix v * blk_bytes c) (blk_bytes c) (put_seg (k * blk_bytes c + off) ys X)"
    if "holds (cset c ix) v" for v D rp
    using new [OF that] old [OF assms(2) that] other [OF assms(2) that]
      seg_other_block [OF _ range assms(6), of "held_block c ix v"]
    by (cases "v = w") (auto simp: k_def)
  then show ?thesis
    using old other seg_other_block [OF _ range assms(6)]
    by (intro agrees_update [OF l assms(2)]) (auto simp: held_block_def)
qed

text \<open>A refill: the victim's way receives a block of the next level.\<close>

definition filled ::
  "'rp GeneralCacheSetUnit \<Rightarrow> nat \<Rightarrow> u32 \<Rightarrow> u8 list \<Rightarrow> 'rp \<Rightarrow> 'rp GeneralCacheSetUnit" where
  "filled s w t d rp =
     s\<lparr>data_array := put_seg (bytes_per_block s * w) d (data_array s),
       valid_array := (valid_array s)[w := True], tag_array := (tag_array s)[w := t],
       dirty_array := (dirty_array s)[w := False], set_rp := rp\<rparr>"

lemma filled_simps [simp]:
  "valid_array (filled s w t d rp) = (valid_array s)[w := True]"
  "tag_array (filled s w t d rp) = (tag_array s)[w := t]"
  "num_associativity (filled s w t d rp) = num_associativity s"
  "bytes_per_block (filled s w t d rp) = bytes_per_block s"
  "dirty_array (filled s w t d rp) = (dirty_array s)[w := False]" "set_rp (filled s w t d rp) = rp"
  "data_array (filled s w t d rp) = put_seg (bytes_per_block s * w) d (data_array s)"
  by (simp_all add: filled_def)

lemma filled_shape:
  assumes "set_shape n b s" "w < n" "length d = b"
  shows "set_shape n b (filled s w t d rp)"
  using assms block_range_le [OF assms(2), of b] by (simp add: set_shape_def)

lemma holds_filled:
  assumes "set_shape n b s" "w < n"
  shows "holds (filled s w t d rp) v \<longleftrightarrow> v = w \<or> holds s v"
  using assms by (auto simp: holds_def set_shape_def nth_list_update)

lemma filled_nth:
  assumes "set_shape n b s" "w < n"
  shows "tag_array (filled s w t d rp) ! v = (if v = w then t else tag_array s ! v)"
    "dirty_array (filled s w t d rp) ! v = (if v = w then False else dirty_array s ! v)"
  using assms by (auto simp: set_shape_def)

lemma core_filled:
  assumes "core rp_inv n c (length X)" "k div n_sets c < 2 ^ 32" "w < n" "cline c k = None"
    "(k + 1) * blk_bytes c \<le> length X" "rp_inv n rp" "agrees c X"
  defines "ix \<equiv> block_index c k" and "d \<equiv> seg (k * blk_bytes c) (blk_bytes c) X"
  defines "c' \<equiv> update_set ix (filled (cset c ix) w (block_tag c k) d rp) c"
  assumes victim: "holds (cset c ix) w \<Longrightarrow>
    block_of (cset c ix) w = seg (held_block c ix w * blk_bytes c) (blk_bytes c) X"
  shows "core rp_inv n c' (length X)" "cline c' k = Some d" "agrees c' X" "view c' X = view c X"
proof -
  have ix: "ix < n_sets c" by (simp add: ix_def)
  note l = coreD(1) [OF assms(1)]
  note sh = lines_okD [OF l ix]
  let ?s = "filled (cset c ix) w (block_tag c k) d rp"
  have d: "length d = blk_bytes c" using assms(5) by (simp add: d_def)
  have num: "num_associativity (cset c ix) = n" "bytes_per_block (cset c ix) = blk_bytes c"
    using sh(1) by (auto simp: set_shape_def)
  have kk: "unat (block_tag c k) * n_sets c + ix = k"
    using block_num_of_parts [OF assms(2)] by (simp add: ix_def)
  note ins = cline_update_insert [OF l ix assms(3) d assms(2) ix_def [symmetric, THEN meta_eq_to_obj_eq] assms(4), of ?s]
  have td: "tags_distinct ?s" and
    cl: "cline c' = (if holds (cset c ix) w then (cline c)(held_block c ix w := None) else cline c)(k \<mapsto> d)"
    unfolding c'_def by (rule ins; simp add: num)+
  show "cline c' k = Some d" by (simp add: cl)
  show "core rp_inv n c' (length X)"
    unfolding c'_def
    using coreD(4) [OF assms(1) ix] coreD(8) [OF assms(1) ix] assms(5,6) kk
    by (intro core_update [OF assms(1) ix filled_shape [OF sh(1) assms(3) d] td])
      (auto simp: holds_filled [OF sh(1) assms(3)] filled_nth [OF sh(1) assms(3)] held_block_def
         simp del: filled_simps(2,5) split: if_splits)
  have bo: "block_of ?s v = (if v = w then d else block_of (cset c ix) v)" if "holds ?s v" for v
    using that holds_less [OF filled_shape [OF sh(1) assms(3) d] that]
    by (intro block_of_put [OF sh(1) assms(3) _ d]) (simp_all add: num)
  show "agrees c' X"
    unfolding c'_def using bo kk agreesD [OF assms(7) ix] agreesD [OF assms(7)]
    by (intro agrees_update [OF l ix])
      (auto simp: holds_filled [OF sh(1) assms(3)] filled_nth [OF sh(1) assms(3)] held_block_def d_def
         simp del: filled_simps(2,5))
  show "view c' X = view c X"
  proof (cases "holds (cset c ix) w")
    case True
    let ?j = "held_block c ix w"
    have "cline c ?j = Some (seg (?j * blk_bytes c) (blk_bytes c) X)"
      using cline_held [OF l ix True] victim [OF True] by simp
    then have "overlay (blk_bytes c) ((cline c)(?j := None)) X = overlay (blk_bytes c) (cline c) X"
      by (intro overlay_clean_drop [OF coreD(4) [OF assms(1) ix True]]) simp_all
    moreover have "overlay (blk_bytes c) ((cline c)(?j := None, k \<mapsto> d)) X =
        overlay (blk_bytes c) ((cline c)(?j := None)) X"
      unfolding d_def by (rule overlay_clean_add [OF assms(5)]) (use assms(4) in simp_all)
    ultimately show ?thesis using True cl by (simp add: view_def c'_def)
  next
    case False
    then show ?thesis
      using cl overlay_clean_add [of k "blk_bytes c" X "cline c"] assms(4,5)
      by (simp add: view_def c'_def d_def)
  qed
qed

end
