(* ===== verification/Cache_Correct.thy ===== *)
theory Cache_Correct
  imports Cache_Invariant
begin

text \<open>
  Transparency of the cache.  A cache together with the memory below it, clocked in the order of the
  simulator (the cache first), is again a memory device: its contents are the bytes seen through the
  cache, every access behaves as on a flat memory, and every request completes within a bounded
  number of cycles.  This holds for every next level that satisfies \<open>memory_device\<close>, every
  replacement policy that satisfies \<open>replacement_policy\<close>, and the write policies write-back with
  write-allocate and write-through with and without write-allocate, with prefetching disabled.
  The invariant \<open>cached_inv\<close> collects what holds between cycles in every state of the controller.
\<close>

subsection \<open>A cache and its next level as one device\<close>

definition cached_try_reg ::
  "'rp rp_ops \<Rightarrow> 'm lower \<Rightarrow> MemoryReqType \<Rightarrow> 'rp GeneralCache \<times> 'm \<Rightarrow> cells \<Rightarrow>
   (bool \<times> ('rp GeneralCache \<times> 'm) \<times> cells) res" where
  "cached_try_reg R ltry r cm h =
     bindR (GeneralCache_try_register_req R ltry r (fst cm) (snd cm) h) (\<lambda>(ok, c, m, h').
     Inr (ok, (c, m), h'))"

definition cached_tick ::
  "'rp rp_ops \<Rightarrow> 'm lower \<Rightarrow> ('m \<Rightarrow> cells \<Rightarrow> ('m \<times> cells) res) \<Rightarrow> 'rp GeneralCache \<times> 'm \<Rightarrow> cells \<Rightarrow>
   (('rp GeneralCache \<times> 'm) \<times> cells) res" where
  "cached_tick R ltry ltick cm h =
     bindR (GeneralCache_tick R ltry (fst cm) (snd cm) h) (\<lambda>(c, m, h1).
     bindR (ltick m h1) (\<lambda>(m', h2). Inr ((c, m'), h2)))"

text \<open>The request being served and the transaction with the next level, if any.\<close>

definition caller :: "'rp GeneralCache \<Rightarrow> MemoryReqType option" where
  "caller c =
     (case fsm c of
        Idle \<Rightarrow> None
      | Lookup r \<Rightarrow> Some r
      | WriteBack _ _ \<Rightarrow> backup_req c
      | Allocate _ _ \<Rightarrow> backup_req c
      | AdditionalMissPenalty _ \<Rightarrow> backup_req c
      | WriteThroughCommit _ r \<Rightarrow> Some r
      | WriteAround _ r \<Rightarrow> Some r)"

fun tx_of :: "MainStates \<Rightarrow> LowerMemoryTransaction option" where
  "tx_of (WriteBack tx _) = Some tx"
| "tx_of (Allocate tx _) = Some tx"
| "tx_of (WriteThroughCommit tx _) = Some tx"
| "tx_of (WriteAround tx _) = Some tx"
| "tx_of _ = None"

fun with_tx :: "MainStates \<Rightarrow> LowerMemoryTransaction \<Rightarrow> MainStates" where
  "with_tx (WriteBack _ w) tx = WriteBack tx w"
| "with_tx (Allocate _ w) tx = Allocate tx w"
| "with_tx (WriteThroughCommit _ r) tx = WriteThroughCommit tx r"
| "with_tx (WriteAround _ r) tx = WriteAround tx r"
| "with_tx f _ = f"

definition cached_pending :: "'rp GeneralCache \<times> 'm \<Rightarrow> MemoryReqType option" where
  "cached_pending cm = caller (fst cm)"

definition cached_contents :: "('m \<Rightarrow> u8 list) \<Rightarrow> 'rp GeneralCache \<times> 'm \<Rightarrow> u8 list" where
  "cached_contents lcontents cm = view (fst cm) (lcontents (snd cm))"

definition cached_owns :: "('m \<Rightarrow> nat set) \<Rightarrow> 'rp GeneralCache \<times> 'm \<Rightarrow> nat set" where
  "cached_owns lowns cm =
     lowns (snd cm) \<union>
     (case tx_of (fsm (fst cm)) of None \<Rightarrow> {} | Some tx \<Rightarrow> {req_cell_id (transaction_req tx)})"

definition cached_max_len :: "'rp GeneralCache \<times> 'm \<Rightarrow> nat" where
  "cached_max_len cm = blk_bytes (fst cm)"

text \<open>Cycles left: a transaction takes at most \<open>tx_bound\<close> cycles.\<close>

definition tx_bound :: "('m \<Rightarrow> nat) \<Rightarrow> 'm \<Rightarrow> nat" where
  "tx_bound lmax_wait m = lmax_wait m + 3"

definition tx_wait ::
  "('m \<Rightarrow> MemoryReqType option) \<Rightarrow> ('m \<Rightarrow> nat) \<Rightarrow> ('m \<Rightarrow> nat) \<Rightarrow> LowerMemoryTransaction \<Rightarrow> 'm \<Rightarrow> nat" where
  "tx_wait lpending lwait lmax_wait tx m =
     (case tx of
        Sending _ \<Rightarrow> tx_bound lmax_wait m
      | Waiting _ \<Rightarrow> if lpending m = None then 1 else lwait m + 2)"

definition cached_wait ::
  "('m \<Rightarrow> MemoryReqType option) \<Rightarrow> ('m \<Rightarrow> nat) \<Rightarrow> ('m \<Rightarrow> nat) \<Rightarrow> 'rp GeneralCache \<times> 'm \<Rightarrow> nat" where
  "cached_wait lpending lwait lmax_wait cm =
     (let T = tx_bound lmax_wait (snd cm); mp = miss_penalty (fst cm) in
      case fsm (fst cm) of
        Idle \<Rightarrow> 0
      | Lookup _ \<Rightarrow> T + 1
      | AdditionalMissPenalty k \<Rightarrow> T + 2 + min k mp
      | Allocate tx _ \<Rightarrow> tx_wait lpending lwait lmax_wait tx (snd cm) + (T + 2 + mp)
      | WriteBack tx _ \<Rightarrow> tx_wait lpending lwait lmax_wait tx (snd cm) + T + (T + 2 + mp)
      | WriteThroughCommit tx _ \<Rightarrow> tx_wait lpending lwait lmax_wait tx (snd cm)
      | WriteAround tx _ \<Rightarrow> tx_wait lpending lwait lmax_wait tx (snd cm))"

definition cached_max_wait :: "('m \<Rightarrow> nat) \<Rightarrow> 'rp GeneralCache \<times> 'm \<Rightarrow> nat" where
  "cached_max_wait lmax_wait cm = 3 * tx_bound lmax_wait (snd cm) + 2 + miss_penalty (fst cm)"

subsection \<open>The invariant\<close>

definition ways :: "'rp GeneralCache \<Rightarrow> nat" where
  "ways c = num_associativity (cset c 0)"

text \<open>The way chosen for the refill of request \<open>r\<close>.\<close>

definition victim_ok :: "('rp \<Rightarrow> nat \<Rightarrow> bool) \<Rightarrow> 'rp GeneralCache \<Rightarrow> MemoryReqType \<Rightarrow> nat \<Rightarrow> bool" where
  "victim_ok rp_valid c r w \<longleftrightarrow>
     (let ix = block_index c (rblk c r) in
      w < ways c \<and> \<not> rp_valid (set_rp (cset c ix)) w \<and> cline c (rblk c r) = None \<and>
      protects rp_valid c {(ix, w)})"

text \<open>What holds in each state of the controller, over the contents \<open>X\<close> of the next level.\<close>

definition state_ok :: "('rp \<Rightarrow> nat \<Rightarrow> bool) \<Rightarrow> 'rp GeneralCache \<Rightarrow> u8 list \<Rightarrow> bool" where
  "state_ok rp_valid c X \<longleftrightarrow>
     (case fsm c of
        Idle \<Rightarrow> agrees c X \<and> protects rp_valid c {}
      | Lookup r \<Rightarrow> agrees c X \<and> protects rp_valid c {} \<and> cline c (rblk c r) \<noteq> None
      | AdditionalMissPenalty k \<Rightarrow> agrees c X \<and> protects rp_valid c {} \<and> k \<le> miss_penalty c \<and>
          (\<exists>r. backup_req c = Some r \<and> cline c (rblk c r) \<noteq> None)
      | WriteBack tx w \<Rightarrow> agrees c X \<and>
          (\<exists>r. backup_req c = Some r \<and> victim_ok rp_valid c r w \<and>
             (let ix = block_index c (rblk c r); q = transaction_req tx in
              holds (cset c ix) w \<and> dirty_array (cset c ix) ! w \<and>
              unat (get_addr q) = held_block c ix w * blk_bytes c \<and>
              store_data q = Inr (block_of (cset c ix) w)))
      | Allocate tx w \<Rightarrow> agrees c X \<and>
          (\<exists>r. backup_req c = Some r \<and> victim_ok rp_valid c r w \<and>
             (let ix = block_index c (rblk c r); q = transaction_req tx in
              (holds (cset c ix) w \<longrightarrow>
                 block_of (cset c ix) w = seg (held_block c ix w * blk_bytes c) (blk_bytes c) X) \<and>
              \<not> is_store q \<and> unat (get_addr q) = rblk c r * blk_bytes c \<and> get_len q = blk_bytes c))
      | WriteThroughCommit tx r \<Rightarrow> agrees c (apply_req r X) \<and> is_write_through (write_policy c) \<and>
          is_store r \<and> cline c (rblk c r) \<noteq> None \<and>
          get_addr (transaction_req tx) = get_addr r \<and> store_data (transaction_req tx) = store_data r
      | WriteAround tx r \<Rightarrow> agrees c X \<and> is_write_through (write_policy c) \<and>
          is_store r \<and> cline c (rblk c r) = None \<and>
          get_addr (transaction_req tx) = get_addr r \<and> store_data (transaction_req tx) = store_data r)"

text \<open>A completed request: its cell and its effect.\<close>

definition completed :: "MemoryReqType \<Rightarrow> u8 list \<Rightarrow> req_cell \<Rightarrow> bool" where
  "completed q X cell \<longleftrightarrow> apply_req q X = X \<and> completed_cell q X cell = cell"

definition tx_ok ::
  "('m \<Rightarrow> MemoryReqType option) \<Rightarrow> ('m \<Rightarrow> nat set) \<Rightarrow> ('m \<Rightarrow> nat) \<Rightarrow>
   LowerMemoryTransaction \<Rightarrow> MemoryReqType \<Rightarrow> 'm \<Rightarrow> u8 list \<Rightarrow> cells \<Rightarrow> bool" where
  "tx_ok lpending lowns lmax_len tx r m X h \<longleftrightarrow>
     (let q = transaction_req tx in
      req_cell_id q < length h \<and> req_cell_id q \<noteq> req_cell_id r \<and> req_cell_id q \<notin> lowns m \<and>
      admissible (lmax_len m) (length X) q \<and>
      (case tx of
         Sending _ \<Rightarrow> lpending m = None \<and> fresh_req q h
       | Waiting _ \<Rightarrow> lpending m = Some q \<or> lpending m = None \<and> completed q X (h ! req_cell_id q)))"

definition caller_ok :: "('m \<Rightarrow> nat set) \<Rightarrow> 'rp GeneralCache \<Rightarrow> nat \<Rightarrow> MemoryReqType \<Rightarrow> 'm \<Rightarrow> cells \<Rightarrow> bool" where
  "caller_ok lowns c sz r m h \<longleftrightarrow>
     fresh_req r h \<and> admissible (blk_bytes c) sz r \<and> req_cell_id r \<notin> lowns m"

definition cached_inv ::
  "('m \<Rightarrow> cells \<Rightarrow> bool) \<Rightarrow> ('m \<Rightarrow> MemoryReqType option) \<Rightarrow> ('m \<Rightarrow> u8 list) \<Rightarrow> ('m \<Rightarrow> nat set) \<Rightarrow>
   ('m \<Rightarrow> nat) \<Rightarrow> (nat \<Rightarrow> 'rp \<Rightarrow> bool) \<Rightarrow> ('rp \<Rightarrow> nat \<Rightarrow> bool) \<Rightarrow> 'rp GeneralCache \<times> 'm \<Rightarrow> cells \<Rightarrow> bool" where
  "cached_inv linv lpending lcontents lowns lmax_len rp_inv rp_valid cm h \<longleftrightarrow>
     (let c = fst cm; m = snd cm; X = lcontents m in
      linv m h \<and> core rp_inv (ways c) c (length X) \<and> state_ok rp_valid c X \<and>
      blk_bytes c \<le> lmax_len m \<and>
      (\<forall>r. caller c = Some r \<longrightarrow> caller_ok lowns c (length X) r m h) \<and>
      (case tx_of (fsm c) of
         None \<Rightarrow> lpending m = None
       | Some tx \<Rightarrow> (\<exists>r. caller c = Some r \<and> tx_ok lpending lowns lmax_len tx r m X h)))"

lemma core_ways: "core rp_inv n c sz \<Longrightarrow> ways c = n"
  using lines_okD(1) [OF coreD(1), of rp_inv n c sz 0] by (simp add: ways_def set_shape_def)

lemma completed_done: "completed q X (h ! req_cell_id q) \<Longrightarrow> is_done q h"
  using completed_cell_done [of q X "h ! req_cell_id q"] by (simp add: completed_def is_done_cell)

lemma ways_fields [simp]: "ways (c\<lparr>fsm := x\<rparr>) = ways c" "ways (c\<lparr>backup_req := y\<rparr>) = ways c"
  by (simp_all add: ways_def)

lemma completed_after:
  assumes "fresh_req q h" "admissible ml (length X) q"
  shows "completed q (apply_req q X) (completed_cell q X (h ! req_cell_id q))"
  using apply_req_idem [OF assms] by (cases q) (auto simp: completed_def)

subsection \<open>Effect of a transaction on the invariant\<close>

lemma apply_store: "store_data q = Inr d \<Longrightarrow> apply_req q X = put_seg (unat (get_addr q)) d X"
  by (cases q) (auto simp: store_data_def)

lemma apply_load: "\<not> is_store q \<Longrightarrow> apply_req q X = X"
  by (cases q) auto

lemma is_store_data: "is_store r \<Longrightarrow> \<exists>d. store_data r = Inr d"
  by (cases r) (auto simp: store_data_def)

lemma store_caller:
  assumes "core rp_inv n c (length X)" "fresh_req r h" "admissible (blk_bytes c) (length X) r" "is_store r"
  obtains d where "store_data r = Inr d" "roff c r + length d \<le> blk_bytes c"
    "(rblk c r + 1) * blk_bytes c \<le> length X"
    "\<And>Y. apply_req r Y = put_seg (rblk c r * blk_bytes c + roff c r) d Y"
proof -
  from is_store_data [OF assms(4)] obtain d where d: "store_data r = Inr d" by blast
  show ?thesis
    using that [OF d] admissible_block [OF assms(3) coreD(3) [OF assms(1)]]
      store_lenD [OF assms(2,4) d] apply_store [OF d] req_split [of r c] by simp
qed

text \<open>The block a write-back sends is held by no clean way.\<close>

lemma clean_not_victim:
  assumes "core rp_inv n c sz" "ix < n_sets c" "holds (cset c ix) w" "dirty_array (cset c ix) ! w"
    "jx < n_sets c" "holds (cset c jx) v" "\<not> dirty_array (cset c jx) ! v"
  shows "held_block c jx v \<noteq> held_block c ix w"
  using assms held_block_parts [OF assms(2), of w] held_block_parts [OF assms(5), of v]
    lines_okD(2) [OF coreD(1) [OF assms(1)] assms(2)] unfolding tags_distinct_def by metis

lemma clean_not_missing:
  assumes "core rp_inv n c sz" "cline c k = None" "jx < n_sets c" "holds (cset c jx) v"
  shows "held_block c jx v \<noteq> k"
  using cline_held [OF coreD(1) [OF assms(1)] assms(3,4)] assms(2) by auto

lemma write_back_effect:
  assumes "core rp_inv n c (length X)" "state_ok rp_valid c X" "fsm c = WriteBack tx w"
  defines "q \<equiv> transaction_req tx"
  shows "state_ok rp_valid c (apply_req q X) \<and> length (apply_req q X) = length X \<and>
    view c (apply_req q X) = view c X"
proof -
  from assms(2,3) obtain r where r: "backup_req c = Some r" and ag: "agrees c X"
    and w: "holds (cset c (block_index c (rblk c r))) w" "dirty_array (cset c (block_index c (rblk c r))) ! w"
      "unat (get_addr q) = held_block c (block_index c (rblk c r)) w * blk_bytes c"
      "store_data q = Inr (block_of (cset c (block_index c (rblk c r))) w)"
    by (auto simp: state_ok_def q_def Let_def)
  let ?ix = "block_index c (rblk c r)" and ?b = "blk_bytes c"
  let ?k = "held_block c ?ix w" and ?d = "block_of (cset c ?ix) w"
  have ix: "?ix < n_sets c" by simp
  note l = coreD(1) [OF assms(1)]
  have len: "length ?d = ?b"
    by (rule length_block_of [OF lines_okD(1) [OF l ix] holds_less [OF lines_okD(1) [OF l ix] w(1)]])
  have k: "(?k + 1) * ?b \<le> length X" by (rule coreD(4) [OF assms(1) ix w(1)])
  have ap: "apply_req q X = put_seg (?k * ?b + 0) ?d X" using apply_store [OF w(4)] w(3) by simp
  have "agrees c (apply_req q X)"
    unfolding ap by (rule agrees_put [OF ag k]) (use len clean_not_victim [OF assms(1) ix w(1,2)] in auto)
  moreover have "view c (apply_req q X) = view c X"
    unfolding ap view_def
    using overlay_behind [of "cline c" ?k ?d ?b X 0 ?d] cline_held [OF l ix w(1)] k len by simp
  moreover have "length (apply_req q X) = length X" unfolding ap using k len by simp
  ultimately show ?thesis using assms(2,3) by (simp add: state_ok_def)
qed

lemma write_through_effect:
  assumes "core rp_inv n c (length X)" "state_ok rp_valid c X" "fsm c = WriteThroughCommit tx r"
    "fresh_req r h" "admissible (blk_bytes c) (length X) r"
  defines "q \<equiv> transaction_req tx"
  shows "state_ok rp_valid c (apply_req q X) \<and> length (apply_req q X) = length X \<and>
    view c (apply_req q X) = view c X"
proof -
  from assms(2,3) have s: "is_store r" "cline c (rblk c r) \<noteq> None" "get_addr q = get_addr r"
    "store_data q = store_data r" by (auto simp: state_ok_def q_def)
  from store_caller [OF assms(1,4,5) s(1)] obtain d where d: "store_data r = Inr d"
    "roff c r + length d \<le> blk_bytes c" "(rblk c r + 1) * blk_bytes c \<le> length X"
    "\<And>Y. apply_req r Y = put_seg (rblk c r * blk_bytes c + roff c r) d Y" by blast
  have q: "apply_req q X = apply_req r X"
    using s(3,4) d(1) apply_store [of q d] apply_store [of r d] by simp
  have "apply_req r (apply_req r X) = apply_req r X" by (rule apply_req_idem [OF assms(4,5)])
  moreover have "view c (apply_req r X) = view c X"
    using s(2) overlay_behind [OF _ d(3,2)] unfolding view_def d(4) by blast
  moreover have "length (apply_req r X) = length X" by (rule apply_req_length [OF assms(4,5)])
  ultimately show ?thesis using assms(2,3) q by (simp add: state_ok_def)
qed

lemma write_around_effect:
  assumes "core rp_inv n c (length X)" "state_ok rp_valid c X" "fsm c = WriteAround tx r"
    "fresh_req r h" "admissible (blk_bytes c) (length X) r"
  defines "q \<equiv> transaction_req tx"
  shows "state_ok rp_valid c (apply_req q X) \<and> length (apply_req q X) = length X \<and>
    view c (apply_req q X) = apply_req r (view c X)"
proof -
  from assms(2,3) have s: "is_store r" "cline c (rblk c r) = None" "get_addr q = get_addr r"
    "store_data q = store_data r" "agrees c X" by (auto simp: state_ok_def q_def)
  from store_caller [OF assms(1,4,5) s(1)] obtain d where d: "store_data r = Inr d"
    "roff c r + length d \<le> blk_bytes c" "(rblk c r + 1) * blk_bytes c \<le> length X"
    "\<And>Y. apply_req r Y = put_seg (rblk c r * blk_bytes c + roff c r) d Y" by blast
  have q: "apply_req q X = apply_req r X"
    using s(3,4) d(1) apply_store [of q d] apply_store [of r d] by simp
  have "agrees c (apply_req r X)"
    unfolding d(4) by (rule agrees_put [OF s(5) d(3,2)]) (rule clean_not_missing [OF assms(1) s(2)])
  moreover have "view c (apply_req r X) = apply_req r (view c X)"
    unfolding view_def d(4) using overlay_around [of "cline c" "rblk c r"] s(2) d(3,2) by blast
  moreover have "length (apply_req r X) = length X" by (rule apply_req_length [OF assms(4,5)])
  ultimately show ?thesis using assms(2,3) q by (simp add: state_ok_def)
qed

lemma tx_effect:
  assumes "core rp_inv n c (length X)" "state_ok rp_valid c X" "caller c = Some r"
    "fresh_req r h" "admissible (blk_bytes c) (length X) r" "tx_of (fsm c) = Some tx"
  defines "Y \<equiv> apply_req (transaction_req tx) X"
  shows "state_ok rp_valid c Y" "length Y = length X"
    "view c Y = view c X \<or> view c Y = apply_req r (view c X)"
proof -
  have "state_ok rp_valid c Y \<and> length Y = length X \<and>
    (view c Y = view c X \<or> view c Y = apply_req r (view c X))"
  proof (cases "fsm c")
    case (WriteBack t w)
    with write_back_effect [OF assms(1,2)] assms(6) show ?thesis by (simp add: Y_def)
  next
    case (Allocate t w)
    with assms(2,6) have "Y = X"
      unfolding Y_def by (intro apply_load) (auto simp: state_ok_def Let_def)
    with assms(2) show ?thesis by simp
  next
    case (WriteThroughCommit t q)
    with write_through_effect [OF assms(1,2) _ assms(4,5)] assms(3,6) show ?thesis
      by (simp add: Y_def caller_def)
  next
    case (WriteAround t q)
    with write_around_effect [OF assms(1,2) _ assms(4,5)] assms(3,6) show ?thesis
      by (simp add: Y_def caller_def)
  qed (use assms(6) in auto)
  then show "state_ok rp_valid c Y" "length Y = length X"
    "view c Y = view c X \<or> view c Y = apply_req r (view c X)" by blast+
qed

lemma state_ok_with_tx:
  assumes "state_ok rp_valid c X" "tx_of (fsm c) = Some tx" "transaction_req tx' = transaction_req tx"
  shows "state_ok rp_valid (c\<lparr>fsm := with_tx (fsm c) tx'\<rparr>) X"
    "caller (c\<lparr>fsm := with_tx (fsm c) tx'\<rparr>) = caller c"
    "tx_of (with_tx (fsm c) tx') = Some tx'"
  using assms by (cases "fsm c"; simp add: state_ok_def caller_def victim_ok_def Let_def)+

subsection \<open>A cache over a memory device\<close>

locale cache_over =
  lower: memory_device ltry ltick linv lpending lcontents lowns lwait lmax_wait lmax_len +
  pol: replacement_policy R ways_ok rp_inv rp_valid
  for ltry :: "MemoryReqType \<Rightarrow> 'm \<Rightarrow> cells \<Rightarrow> (bool \<times> 'm \<times> cells) res"
    and ltick :: "'m \<Rightarrow> cells \<Rightarrow> ('m \<times> cells) res"
    and linv :: "'m \<Rightarrow> cells \<Rightarrow> bool"
    and lpending :: "'m \<Rightarrow> MemoryReqType option"
    and lcontents :: "'m \<Rightarrow> u8 list"
    and lowns :: "'m \<Rightarrow> nat set"
    and lwait :: "'m \<Rightarrow> nat"
    and lmax_wait :: "'m \<Rightarrow> nat"
    and lmax_len :: "'m \<Rightarrow> nat"
    and R :: "'rp rp_ops"
    and ways_ok :: "nat \<Rightarrow> bool"
    and rp_inv :: "nat \<Rightarrow> 'rp \<Rightarrow> bool"
    and rp_valid :: "'rp \<Rightarrow> nat \<Rightarrow> bool"
begin

abbreviation cinv :: "'rp GeneralCache \<Rightarrow> 'm \<Rightarrow> cells \<Rightarrow> bool" where
  "cinv c m h \<equiv> cached_inv linv lpending lcontents lowns lmax_len rp_inv rp_valid (c, m) h"

abbreviation cserves ::
  "MemoryReqType \<Rightarrow> 'rp GeneralCache \<Rightarrow> 'm \<Rightarrow> cells \<Rightarrow> 'rp GeneralCache \<Rightarrow> 'm \<Rightarrow> cells \<Rightarrow> bool" where
  "cserves r c m h c' m' h' \<equiv>
     serves cached_pending (cached_contents lcontents) (cached_owns lowns) r (c, m) h (c', m') h'"

abbreviation cwait :: "'rp GeneralCache \<Rightarrow> 'm \<Rightarrow> nat" where
  "cwait c m \<equiv> cached_wait lpending lwait lmax_wait (c, m)"

text \<open>What never changes.\<close>

definition static :: "'rp GeneralCache \<Rightarrow> 'm \<Rightarrow> 'rp GeneralCache \<Rightarrow> 'm \<Rightarrow> bool" where
  "static c m c' m' \<longleftrightarrow> blk_bytes c' = blk_bytes c \<and> miss_penalty c' = miss_penalty c \<and>
     lmax_wait m' = lmax_wait m \<and> lmax_len m' = lmax_len m"

lemma cinvD:
  assumes "cinv c m h"
  shows "linv m h" "core rp_inv (ways c) c (length (lcontents m))" "state_ok rp_valid c (lcontents m)"
    "blk_bytes c \<le> lmax_len m"
    "caller c = Some r \<Longrightarrow> caller_ok lowns c (length (lcontents m)) r m h"
    "tx_of (fsm c) = None \<Longrightarrow> lpending m = None"
    "tx_of (fsm c) = Some tx \<Longrightarrow> \<exists>r. caller c = Some r \<and>
       tx_ok lpending lowns lmax_len tx r m (lcontents m) h"
  using assms by (auto simp: cached_inv_def Let_def)

text \<open>
  A step of the next level while the transaction \<open>tx\<close> is in flight, seen from above: the caller's
  request stays, and the visible contents change at most by the caller's own store.
\<close>

lemma lower_progress:
  assumes inv: "cinv c m h" and tx: "tx_of (fsm c) = Some tx" and cl: "caller c = Some r"
    and q: "q = transaction_req tx" and fq: "fresh_req q h"
    and sv: "serves lpending lcontents lowns q m h m' h'" and li: "linv m' h'"
    and ml: "lmax_len m' = lmax_len m" "lmax_wait m' = lmax_wait m"
  defines "c' \<equiv> c\<lparr>fsm := with_tx (fsm c) (Waiting q)\<rparr>"
  shows "cinv c' m' h'" "cserves r c m h c' m' h'" "static c m c' m'" "caller c' = Some r"
proof -
  let ?X = "lcontents m" and ?X' = "lcontents m'"
  have co: "core rp_inv (ways c) c (length ?X)" and st: "state_ok rp_valid c ?X"
    using cinvD(2,3) [OF inv] by auto
  have cr: "fresh_req r h" "admissible (blk_bytes c) (length ?X) r" "req_cell_id r \<notin> lowns m"
    using cinvD(5) [OF inv cl] by (auto simp: caller_ok_def)
  from cinvD(7) [OF inv tx] cl q have tq: "req_cell_id q < length h" "req_cell_id q \<noteq> req_cell_id r"
    "req_cell_id q \<notin> lowns m" "admissible (lmax_len m) (length ?X) q"
    by (auto simp: tx_ok_def Let_def)
  have fr: "frame (insert (req_cell_id q) (lowns m)) h h'"
    and ow: "lowns m' \<subseteq> lowns m \<union> {length h..<length h'}"
    and X': "?X' = ?X \<or> ?X' = apply_req q ?X"
    and lp: "lpending m' = None \<and> ?X' = apply_req q ?X \<and>
        h' ! req_cell_id q = completed_cell q ?X (h ! req_cell_id q) \<or>
      lpending m' = Some q \<and> h' ! req_cell_id q = h ! req_cell_id q"
    using sv by (auto simp: serves_def)
  note eff = tx_effect [OF co st cl cr(1,2) tx, folded q]
  have len: "length ?X' = length ?X" and st': "state_ok rp_valid c ?X'"
    and vw: "view c ?X' = view c ?X \<or> view c ?X' = apply_req r (view c ?X)"
    using X' eff st by auto
  have lenh: "length h \<le> length h'" by (rule frame_length [OF fr])
  have rcell: "h' ! req_cell_id r = h ! req_cell_id r"
    using frame_nth [OF fr fresh_reqD [OF cr(1)]] tq(2) cr(3) by auto
  have ty: "transaction_req (Waiting q) = transaction_req tx" using q by simp
  note wt = state_ok_with_tx [OF _ tx ty]
  have caller': "caller c' = Some r" unfolding c'_def using wt(2) [OF st] cl by simp
  have cok: "caller_ok lowns c' (length ?X') r m' h'"
    using cr rcell lenh ow fresh_reqD [OF cr(1)] fresh_req_frame [OF cr(1) lenh rcell]
    by (auto simp: caller_ok_def len c'_def)
  have tok: "tx_ok lpending lowns lmax_len (Waiting q) r m' ?X' h'"
    using tq lenh ow lp completed_after [OF fq tq(4)] ml by (auto simp: tx_ok_def Let_def len)
  show "cinv c' m' h'"
    using li co wt(1) [OF st'] caller' cok tok wt(3) [OF st] cinvD(4) [OF inv] ml len
    by (auto simp: cached_inv_def Let_def c'_def)
  have "frame (insert (req_cell_id r) (insert (req_cell_id q) (lowns m))) h h'"
    by (rule frame_mono [OF fr]) auto
  then show "cserves r c m h c' m' h'"
    using caller' cl vw rcell ow lenh tq(1) wt(3) [OF st] q
    by (auto simp: serves_def cached_pending_def cached_contents_def cached_owns_def c'_def tx)
  show "static c m c' m'" by (simp add: static_def c'_def ml)
  show "caller c' = Some r" by (fact caller')
qed

text \<open>A tick of an idle next level.\<close>

lemma lower_idle:
  assumes inv: "cinv c m h" and li: "linv m' h'"
    and lp: "lpending m = None" "lpending m' = None" and X: "lcontents m' = lcontents m"
    and fr: "frame (lowns m) h h'" and ow: "lowns m' \<subseteq> lowns m \<union> {length h..<length h'}"
    and ml: "lmax_len m' = lmax_len m" "lmax_wait m' = lmax_wait m"
  shows "cinv c m' h'" "static c m c m'" "cwait c m' = cwait c m"
    "caller c = Some r \<Longrightarrow> cserves r c m h c m' h'"
    "frame (cached_owns lowns (c, m)) h h'"
    "cached_owns lowns (c, m') \<subseteq> cached_owns lowns (c, m) \<union> {length h..<length h'}"
proof -
  have lenh: "length h \<le> length h'" by (rule frame_length [OF fr])
  have cell: "h' ! i = h ! i" if "i < length h" "i \<notin> lowns m" for i
    by (rule frame_nth [OF fr that])
  have cok: "caller_ok lowns c (length (lcontents m')) r m' h'" if "caller c = Some r" for r
  proof -
    from cinvD(5) [OF inv that] have r: "fresh_req r h" "admissible (blk_bytes c) (length (lcontents m)) r"
      "req_cell_id r \<notin> lowns m" by (auto simp: caller_ok_def)
    with fresh_req_frame [OF r(1) lenh cell [OF fresh_reqD [OF r(1)] r(3)]] ow fresh_reqD [OF r(1)] X
    show ?thesis by (auto simp: caller_ok_def)
  qed
  have tok: "tx_ok lpending lowns lmax_len tx r m' (lcontents m') h'"
    if "tx_ok lpending lowns lmax_len tx r m (lcontents m) h" for tx r
  proof -
    from that have q: "req_cell_id (transaction_req tx) < length h"
      "req_cell_id (transaction_req tx) \<notin> lowns m" by (auto simp: tx_ok_def Let_def)
    with that cell [OF q] fresh_req_frame [OF _ lenh cell [OF q]] ow lenh X lp ml show ?thesis
      by (auto simp: tx_ok_def Let_def split: LowerMemoryTransaction.splits)
  qed
  show "cinv c m' h'"
    using inv li cok tok lp X ml
    by (auto simp: cached_inv_def Let_def split: option.splits)
  show "static c m c m'" by (simp add: static_def ml)
  show "cwait c m' = cwait c m"
    using lp ml by (cases "fsm c")
      (auto simp: cached_wait_def tx_wait_def tx_bound_def Let_def split: LowerMemoryTransaction.splits)
  show f: "frame (cached_owns lowns (c, m)) h h'"
    by (rule frame_mono [OF fr]) (auto simp: cached_owns_def)
  show o: "cached_owns lowns (c, m') \<subseteq> cached_owns lowns (c, m) \<union> {length h..<length h'}"
    using ow by (auto simp: cached_owns_def)
  show "cserves r c m h c m' h'" if "caller c = Some r"
  proof -
    have "h' ! req_cell_id r = h ! req_cell_id r"
      using cinvD(5) [OF inv that] by (intro cell) (auto simp: caller_ok_def dest: fresh_reqD)
    with that o frame_mono [OF f, of "insert (req_cell_id r) (cached_owns lowns (c, m))"] show ?thesis
      by (auto simp: serves_def cached_pending_def cached_contents_def X)
  qed
qed

text \<open>A tick of the next level in any state.\<close>

lemma lower_tick_free:
  assumes "cinv c m h" "lpending m = None"
  shows "\<exists>m' h'. ltick m h = Inr (m', h') \<and> cinv c m' h' \<and> static c m c m' \<and> cwait c m' = cwait c m \<and>
    lcontents m' = lcontents m \<and>
    (\<forall>r. caller c = Some r \<longrightarrow> cserves r c m h c m' h') \<and> frame (cached_owns lowns (c, m)) h h' \<and>
    cached_owns lowns (c, m') \<subseteq> cached_owns lowns (c, m) \<union> {length h..<length h'}"
proof -
  from lower.tick_free [OF cinvD(1) [OF assms(1)] assms(2)] obtain m' h' where
    t: "ltick m h = Inr (m', h')" "linv m' h'" "lpending m' = None" "lcontents m' = lcontents m"
      "frame (lowns m) h h'" "lowns m' \<subseteq> lowns m \<union> {length h..<length h'}"
      "lmax_len m' = lmax_len m" "lmax_wait m' = lmax_wait m" by blast
  from lower_idle [OF assms(1) t(2) assms(2) t(3-8)] t(1,4) show ?thesis by blast
qed

lemma cwait_waiting:
  assumes "tx_of (fsm c) = Some (Waiting q)" "lpending m = Some q" "lmax_wait m' = lmax_wait m"
    "lpending m' = Some q \<longrightarrow> lwait m' < lwait m" "lpending m' = Some q \<or> lpending m' = None"
  shows "cwait c m' < cwait c m"
  using assms by (cases "fsm c") (auto simp: cached_wait_def tx_wait_def tx_bound_def Let_def)

lemma lower_tick_busy:
  assumes "cinv c m h" "lpending m \<noteq> None" "caller c = Some r"
  shows "\<exists>m' h'. ltick m h = Inr (m', h') \<and> cinv c m' h' \<and> static c m c m' \<and>
    cwait c m' < cwait c m \<and> cserves r c m h c m' h'"
proof -
  from cinvD(6) [OF assms(1)] assms(2) obtain tx where tx: "tx_of (fsm c) = Some tx" by fastforce
  from cinvD(7) [OF assms(1) tx] assms(2) obtain q where q: "tx = Waiting q" "lpending m = Some q"
    by (auto simp: tx_ok_def Let_def split: LowerMemoryTransaction.splits)
  note li = cinvD(1) [OF assms(1)]
  have fq: "fresh_req q h" using lower.inv_pending [OF li q(2)] by blast
  from lower.tick_busy [OF li q(2)] obtain m' h' where
    t: "ltick m h = Inr (m', h')" "linv m' h'" "serves lpending lcontents lowns q m h m' h'"
      "lpending m' = Some q \<longrightarrow> lwait m' < lwait m" "lmax_len m' = lmax_len m" "lmax_wait m' = lmax_wait m"
    by blast
  have same: "c\<lparr>fsm := with_tx (fsm c) (Waiting q)\<rparr> = c"
    using tx q(1) by (cases "fsm c") auto
  from lower_progress [OF assms(1) tx assms(3) _ fq t(3,2,5,6)] q(1) same
  have "cinv c m' h'" "cserves r c m h c m' h'" "static c m c m'" by auto
  moreover have "cwait c m' < cwait c m"
    using t(3) by (intro cwait_waiting [OF _ q(2) t(6,4)]) (auto simp: tx q serves_def)
  ultimately show ?thesis using t(1) by blast
qed

subsection \<open>New requests and completions\<close>

lemma linv_append:
  assumes "linv m h" "lpending m = None"
  shows "linv m (h @ cs)"
  by (rule lower.inv_frame [OF assms(1)]) (use lower.inv_owns [OF assms(1)] assms(2) in \<open>auto simp: nth_append\<close>)

lemma linv_update:
  assumes "linv m h" "lpending m = None" "i \<notin> lowns m"
  shows "linv m (h[i := x])"
proof (rule lower.inv_frame [OF assms(1)])
  show "h[i := x] ! j = h ! j" if "j \<in> lowns m" for j
    using that assms(3) by (metis nth_list_update_neq)
qed (use assms(2) in auto)

lemma caller_ok_append:
  assumes "caller_ok lowns c sz r m h"
  shows "caller_ok lowns c sz r m (h @ cs)" "req_cell_id r < length h" "(h @ cs) ! req_cell_id r = h ! req_cell_id r"
  using assms fresh_req_frame [of r h "h @ cs"] fresh_reqD [of r h]
  by (auto simp: caller_ok_def nth_append)

text \<open>The state after a fresh transaction has been created.\<close>

lemma start_tx:
  assumes li: "linv m h" "lpending m = None"
    and co: "core rp_inv n c' (length (lcontents m))" "state_ok rp_valid c' (lcontents m)"
      "blk_bytes c' \<le> lmax_len m"
    and cl: "caller c' = Some r" "caller_ok lowns c' (length (lcontents m)) r m h"
    and tx: "tx_of (fsm c') = Some (Sending q)" "req_cell_id q = length h" "fresh_req q (h @ [cell])"
      "admissible (lmax_len m) (length (lcontents m)) q"
  shows "cinv c' m (h @ [cell])"
proof -
  note cr = caller_ok_append [OF cl(2)]
  have "tx_ok lpending lowns lmax_len (Sending q) r m (lcontents m) (h @ [cell])"
    using tx li(2) cr(2) lower.inv_owns [OF li(1)] by (auto simp: tx_ok_def)
  then show ?thesis
    using co cl cr(1) [of "[cell]"] tx(1) linv_append [OF li] core_ways [OF co(1)]
    by (auto simp: cached_inv_def Let_def)
qed

lemma start_tx_serves:
  assumes "caller_ok lowns c (length (lcontents m)) r m h" "caller c' = Some r"
    "tx_of (fsm c') = Some (Sending q)" "req_cell_id q = length h"
    "view c' (lcontents m) = view c (lcontents m) \<or>
     view c' (lcontents m) = apply_req r (view c (lcontents m))"
  shows "cserves r c m h c' m (h @ [cell])"
  using assms caller_ok_append(3) [OF assms(1), of "[cell]"]
  by (auto simp: serves_def cached_pending_def cached_contents_def cached_owns_def)

text \<open>The state after the caller's request has been completed.\<close>

lemma finish_caller:
  assumes li: "linv m h" "lpending m = None"
    and co: "core rp_inv n c' (length (lcontents m))" "agrees c' (lcontents m)" "protects rp_valid c' {}"
      "blk_bytes c' \<le> lmax_len m" "fsm c' = Idle"
    and r: "caller_ok lowns c sz r m h"
    and v: "view c' (lcontents m) = apply_req r (view c (lcontents m))"
  defines "h' \<equiv> h[req_cell_id r := completed_cell r (view c (lcontents m)) (h ! req_cell_id r)]"
  shows "cinv c' m h'" "cserves r c m h c' m h'"
proof -
  have "req_cell_id r \<notin> lowns m" "req_cell_id r < length h"
    using r by (auto simp: caller_ok_def dest: fresh_reqD)
  with linv_update [OF li] co core_ways [OF co(1)] li(2)
  show "cinv c' m h'"
    by (auto simp: cached_inv_def Let_def state_ok_def caller_def h'_def)
  show "cserves r c m h c' m h'"
    using \<open>req_cell_id r < length h\<close> co(5) v
    by (auto simp: serves_def cached_pending_def cached_contents_def cached_owns_def caller_def h'_def)
qed

lemma finish_store:
  assumes "fresh_req r h" "is_store r"
  shows "complete_store r h = Inr (h[req_cell_id r := completed_cell r X (h ! req_cell_id r)])"
  using assms by (cases r) (auto simp: complete_store_def MemoryStoreReq_complete_def)

subsection \<open>Transactions of the controller\<close>

text \<open>A transaction either stays in flight, or it is completed and the controller goes on.\<close>

lemma progress_step:
  assumes inv: "cinv c m h" and tx: "tx_of (fsm c) = Some tx" and cl: "caller c = Some r"
  defines "c' \<equiv> c\<lparr>fsm := with_tx (fsm c) (Waiting (transaction_req tx))\<rparr>"
  shows "(\<exists>m' h'. progress ltry tx m h = Inr (False, Waiting (transaction_req tx), m', h') \<and>
      cinv c' m' h' \<and> cserves r c m h c' m' h' \<and> static c m c' m' \<and>
      (cwait c' m' < cwait c m \<or> lpending m' \<noteq> None \<and> cwait c' m' \<le> cwait c m)) \<or>
    (progress ltry tx m h = Inr (True, tx, m, h) \<and> lpending m = None \<and>
      completed (transaction_req tx) (lcontents m) (h ! req_cell_id (transaction_req tx)) \<and>
      is_done (transaction_req tx) h)"
proof (cases tx)
  case (Sending q)
  from cinvD(7) [OF inv tx] Sending have q: "lpending m = None" "fresh_req q h" "req_cell_id q \<notin> lowns m"
    "admissible (lmax_len m) (length (lcontents m)) q" by (auto simp: tx_ok_def Let_def)
  from lower.try_reg_free [OF cinvD(1) [OF inv] q(1,4,2,3)] obtain m' h' where
    t: "ltry q m h = Inr (True, m', h')" "linv m' h'" "serves lpending lcontents lowns q m h m' h'"
      "lmax_len m' = lmax_len m" "lmax_wait m' = lmax_wait m" by blast
  note lp = lower_progress [OF inv tx cl _ q(2) t(3,2,4,5)]
  have "cwait c' m' < cwait c m"
    using tx Sending t(5) lower.wait_bound [OF t(2)]
    by (cases "fsm c") (auto simp: cached_wait_def tx_wait_def tx_bound_def Let_def c'_def)
  with t(1) lp Sending show ?thesis by (auto simp: c'_def)
next
  case (Waiting q)
  have same: "c' = c" using tx Waiting unfolding c'_def by (cases "fsm c") auto
  from cinvD(7) [OF inv tx] Waiting consider "lpending m = Some q" |
    "lpending m = None" "completed q (lcontents m) (h ! req_cell_id q)" by (auto simp: tx_ok_def Let_def)
  then show ?thesis
  proof cases
    case 1
    have "cserves r c m h c m h" using cl
      by (auto simp: serves_def cached_pending_def cached_contents_def)
    with 1 Waiting same inv lower.inv_pending [OF cinvD(1) [OF inv] 1] show ?thesis
      by (auto simp: static_def dest: fresh_req_not_done)
  next
    case 2
    with Waiting completed_done [OF 2(2)] show ?thesis by auto
  qed
qed

text \<open>One tick of the controller alone, in any state with a caller.\<close>

definition tick_result ::
  "MemoryReqType \<Rightarrow> 'rp GeneralCache \<Rightarrow> 'm \<Rightarrow> cells \<Rightarrow> 'rp GeneralCache \<Rightarrow> 'm \<Rightarrow> cells \<Rightarrow> bool" where
  "tick_result r c m h c' m' h' \<longleftrightarrow>
     GeneralCache_tick R ltry c m h = Inr (c', m', h') \<and> cinv c' m' h' \<and> cserves r c m h c' m' h' \<and>
     static c m c' m' \<and>
     (caller c' = Some r \<longrightarrow>
        cwait c' m' < cwait c m \<or> lpending m' \<noteq> None \<and> cwait c' m' \<le> cwait c m)"

lemma tick_in_flight:
  assumes inv: "cinv c m h" and tx: "tx_of (fsm c) = Some tx" and cl: "caller c = Some r"
    and "progress ltry tx m h = Inr (False, tx', m', h')"
  shows "GeneralCache_tick R ltry c m h = Inr (c\<lparr>fsm := with_tx (fsm c) tx'\<rparr>, m', h')"
  using assms(2-4)
  by (cases "fsm c") (auto simp: GeneralCache_tick_def tick_write_back_def tick_allocate_def tick_propagate_def)

text \<open>It remains to treat the ticks in which a transaction is found completed.\<close>

lemma block_request_admissible:
  assumes "core rp_inv n c (length X)" "blk_bytes c \<le> ml" "(k + 1) * blk_bytes c \<le> length X"
    "unat (get_addr q) = k * blk_bytes c" "get_len q = blk_bytes c"
  shows "admissible ml (length X) q"
  using assms by (simp add: admissible_def blk_bytes_def)

lemma of_nat_block:
  assumes "core rp_inv n c (length X)" "(k + 1) * blk_bytes c \<le> length X"
  shows "unat (of_nat (k * blk_bytes c) :: u32) = k * blk_bytes c" "k * blk_bytes c < 2 ^ 32"
    "k div n_sets c < 2 ^ 32"
proof -
  have "k * blk_bytes c + blk_bytes c \<le> 2 ^ 32" using assms(2) coreD(6) [OF assms(1)] by simp
  then show less: "k * blk_bytes c < 2 ^ 32"
    by (metis blk_bytes_pos add_leE less_add_same_cancel1 order_less_le_trans)
  then show "unat (of_nat (k * blk_bytes c) :: u32) = k * blk_bytes c"
    by (simp only: unat_of_nat) simp
  have "k div n_sets c \<le> k" by simp
  also have "k \<le> k * blk_bytes c" by (simp add: Suc_le_eq)
  finally show "k div n_sets c < 2 ^ 32" using less by (rule le_less_trans)
qed

lemma finish_write_back:
  assumes inv: "cinv c m h" and fsm: "fsm c = WriteBack tx w" and cl: "caller c = Some r"
    and pr: "progress ltry tx m h = Inr (True, tx, m, h)" "lpending m = None"
      "completed (transaction_req tx) (lcontents m) (h ! req_cell_id (transaction_req tx))"
  shows "\<exists>c' m' h'. tick_result r c m h c' m' h'"
proof -
  let ?X = "lcontents m" and ?b = "blk_bytes c" and ?k = "rblk c r"
  note co = cinvD(2) [OF inv] and li = cinvD(1) [OF inv] and cok = cinvD(5) [OF inv cl]
  have br: "backup_req c = Some r" using cl fsm by (simp add: caller_def)
  let ?ix = "block_index c ?k" and ?q = "transaction_req tx"
  from cinvD(3) [OF inv] fsm br have st: "agrees c ?X" "victim_ok rp_valid c r w"
    "holds (cset c ?ix) w" "unat (get_addr ?q) = held_block c ?ix w * ?b"
    "store_data ?q = Inr (block_of (cset c ?ix) w)" by (auto simp: state_ok_def Let_def)
  have ix: "?ix < n_sets c" by simp
  note sh = lines_okD(1) [OF coreD(1) [OF co] ix]
  have len: "length (block_of (cset c ?ix) w) = ?b"
    by (rule length_block_of [OF sh holds_less [OF sh st(3)]])
  have victim: "block_of (cset c ?ix) w = seg (held_block c ?ix w * ?b) ?b ?X"
  proof -
    have "put_seg (held_block c ?ix w * ?b) (block_of (cset c ?ix) w) ?X = ?X"
      using pr(3) apply_store [OF st(5)] st(4) by (simp add: completed_def)
    with seg_put_seg_same [of "held_block c ?ix w * ?b" "block_of (cset c ?ix) w" ?X]
      coreD(4) [OF co ix st(3)] len show ?thesis by simp
  qed
  have k: "(?k + 1) * ?b \<le> length ?X"
    using admissible_block(3) [OF _ coreD(3) [OF co]] cok by (auto simp: caller_ok_def)
  have addr: "get_addr r AND NOT (low_mask (offset_bit_width c)) = of_nat (?k * ?b)"
    by (rule refill_addr_block [OF coreD(5) [OF co] of_nat_block(2) [OF co k]]) (simp add: rblk_def)
  obtain q' h' where q': "MemoryReqType_load (of_nat (?k * ?b)) (2 ^ offset_bit_width c) h = (q', h')"
    by fastforce
  from MemoryReqType_load_fresh [OF q'] obtain cell where fq: "fresh_req q' h'" "req_cell_id q' = length h"
    "get_addr q' = of_nat (?k * ?b)" "get_len q' = ?b" "\<not> is_store q'" "h' = h @ [cell]"
    by (auto simp: blk_bytes_def)
  have ad: "unat (get_addr q') = ?k * ?b" using fq(3) of_nat_block(1) [OF co k] by simp
  let ?c' = "c\<lparr>fsm := Allocate (Sending q') w\<rparr>"
  have cl': "caller ?c' = Some r" using br by (simp add: caller_def)
  have "cinv ?c' m (h @ [cell])"
  proof (rule start_tx [OF li pr(2)])
    show "state_ok rp_valid ?c' ?X"
      using st victim br ad fq(4,5) by (auto simp: state_ok_def victim_ok_def Let_def)
    show "admissible (lmax_len m) (length ?X) q'"
      by (rule block_request_admissible [OF co cinvD(4) [OF inv] k ad fq(4)])
  qed (use co cok cl' fq cinvD(4) [OF inv] in \<open>auto simp: caller_ok_def\<close>)
  moreover have "cserves r c m h ?c' m (h @ [cell])"
    by (rule start_tx_serves [OF cok cl' _ fq(2)]) auto
  moreover have "GeneralCache_tick R ltry c m h = Inr (?c', m, h @ [cell])"
    using fsm pr(1) br q' fq(6) addr
    by (simp add: GeneralCache_tick_def tick_write_back_def LowerMemoryTransaction_new_def)
  moreover have "cwait ?c' m < cwait c m"
    using fsm pr by (cases tx) (auto simp: cached_wait_def tx_wait_def tx_bound_def Let_def)
  ultimately show ?thesis by (auto simp: tick_result_def static_def)
qed

lemma finish_allocate:
  assumes inv: "cinv c m h" and fsm: "fsm c = Allocate tx w" and cl: "caller c = Some r"
    and pr: "progress ltry tx m h = Inr (True, tx, m, h)" "lpending m = None"
      "completed (transaction_req tx) (lcontents m) (h ! req_cell_id (transaction_req tx))"
  shows "\<exists>c' m' h'. tick_result r c m h c' m' h'"
proof -
  let ?X = "lcontents m" and ?b = "blk_bytes c" and ?k = "rblk c r" and ?n = "ways c"
  note co = cinvD(2) [OF inv] and li = cinvD(1) [OF inv] and cok = cinvD(5) [OF inv cl]
  have br: "backup_req c = Some r" using cl fsm by (simp add: caller_def)
  let ?ix = "block_index c ?k" and ?q = "transaction_req tx"
  let ?s = "cset c ?ix" and ?d = "seg (?k * ?b) ?b ?X"
  from cinvD(3) [OF inv] fsm br have st: "agrees c ?X" "w < ?n" "\<not> rp_valid (set_rp ?s) w"
    "cline c ?k = None" "protects rp_valid c {(?ix, w)}"
    "holds ?s w \<longrightarrow> block_of ?s w = seg (held_block c ?ix w * ?b) ?b ?X"
    "\<not> is_store ?q" "unat (get_addr ?q) = ?k * ?b" "get_len ?q = ?b"
    by (auto simp: state_ok_def victim_ok_def Let_def)
  have ix: "?ix < n_sets c" by simp
  note sh = lines_okD [OF coreD(1) [OF co] ix]
  have k: "(?k + 1) * ?b \<le> length ?X"
    using admissible_block(3) [OF _ coreD(3) [OF co]] cok by (auto simp: caller_ok_def)
  have data: "transaction_load_data tx h = Inr ?d"
    using pr(3) st(7-9)
    by (cases ?q) (auto simp: transaction_load_data_def load_data_def MemoryLoadReq_data_def completed_def
        dest: arg_cong [of _ _ cell_buffer])
  have setok: "pol.set_ok ?n ?b ?s" using sh(1) coreD(2) [OF co ix] by (simp add: pol.set_ok_def)
  have dlen: "length ?d = ?b" using k by simp
  from pol.insert_block_ok [OF setok st(2,3) dlen, of "block_tag c ?k"] obtain rp where
    ins: "insert_block R w (block_tag c ?k) ?d ?s = Inr (filled ?s w (block_tag c ?k) ?d rp)"
    "rp_inv ?n rp" "rp_valid rp = (rp_valid (set_rp ?s))(w := True)"
    using sh(1) by (auto simp: filled_def set_shape_def)
  let ?s' = "filled ?s w (block_tag c ?k) ?d rp"
  let ?c1 = "update_set ?ix ?s' c"
  let ?c' = "?c1\<lparr>fsm := AdditionalMissPenalty (miss_penalty c)\<rparr>"
  note f = core_filled [OF co of_nat_block(3) [OF co k] st(2,4) k ins(2) st(1)]
  have f': "core rp_inv ?n ?c1 (length ?X)" "cline ?c1 ?k = Some ?d" "agrees ?c1 ?X" "view ?c1 ?X = view c ?X"
    by (rule f; use st(6) in blast)+
  have pt: "protects rp_valid ?c1 {}"
    by (rule protects_update [OF co ix st(5)])
      (use ins(3) holds_filled [OF sh(1) st(2)] in auto)
  have tick: "GeneralCache_tick R ltry c m h = Inr (?c', m, h)"
    using fsm pr(1) br data ins(1) sh(3) addr_transfer_parts [OF coreD(5) [OF co], of "get_addr r"]
    by (simp add: GeneralCache_tick_def tick_allocate_def rblk_def cset_def)
  have br': "caller ?c' = Some r" using br by (simp add: caller_def)
  have "cinv ?c' m h"
    using li f' pt br br' core_ways [OF f'(1)] pr(2) cok cinvD(4) [OF inv]
    by (auto simp: cached_inv_def Let_def state_ok_def caller_ok_def)
  moreover have "cserves r c m h ?c' m h"
    using br' f'(4) by (auto simp: serves_def cached_pending_def cached_contents_def cached_owns_def)
  moreover have "cwait ?c' m < cwait c m"
    using fsm pr by (cases tx) (auto simp: cached_wait_def tx_wait_def tx_bound_def Let_def)
  ultimately show ?thesis using tick by (auto simp: tick_result_def static_def)
qed

text \<open>In the two store states the visible contents already include the caller's store.\<close>

lemma write_through_view:
  assumes "core rp_inv n c (length X)" "state_ok rp_valid c X" "fsm c = WriteThroughCommit tx r"
    "fresh_req r h" "admissible (blk_bytes c) (length X) r"
  shows "apply_req r (view c X) = view c X"
proof -
  let ?b = "blk_bytes c" and ?k = "rblk c r" and ?o = "roff c r"
  from assms(2,3) have s: "is_store r" "agrees c (apply_req r X)" "is_write_through (write_policy c)"
    by (auto simp: state_ok_def)
  from assms(2,3) obtain d where cl: "cline c ?k = Some d" by (auto simp: state_ok_def)
  from store_caller [OF assms(1,4,5) s(1)] obtain ys where ys: "?o + length ys \<le> ?b"
    "(?k + 1) * ?b \<le> length X" "\<And>Y. apply_req r Y = put_seg (?k * ?b + ?o) ys Y" by blast
  from cline_SomeD [OF cl] obtain w where w: "holds (cset c (block_index c ?k)) w"
    "held_block c (block_index c ?k) w = ?k" "d = block_of (cset c (block_index c ?k)) w" by blast
  have "\<not> dirty_array (cset c (block_index c ?k)) ! w"
    using coreD(8) [OF assms(1) block_index_less holds_less [OF lines_okD(1) [OF coreD(1) [OF assms(1)] block_index_less] w(1)]]
      s(3) by (auto simp: is_write_through_def)
  with agreesD [OF s(2) block_index_less w(1)] w have
    d: "d = seg (?k * ?b) ?b (put_seg (?k * ?b + ?o) ys X)" by (simp add: ys(3))
  have "seg ?o (length ys) d = seg (?k * ?b + ?o) (length ys) (put_seg (?k * ?b + ?o) ys X)"
    unfolding d by (rule seg_seg) (use ys(1) in simp)
  also have "\<dots> = ys" by (rule seg_put_seg_same) (use ys in simp)
  finally have "seg (?k * ?b + ?o) (length ys) (view c X) = ys"
    using overlay_block [of "cline c" ?k d ?b X ?o "length ys"] cl cline_length [OF coreD(1) [OF assms(1)] cl] ys
    by (simp add: view_def)
  with put_seg_seg_same [of "?k * ?b + ?o" "length ys" "view c X"] ys show ?thesis by simp
qed

lemma write_around_view:
  assumes "core rp_inv n c (length X)" "state_ok rp_valid c X" "fsm c = WriteAround tx r"
    "fresh_req r h" "admissible (blk_bytes c) (length X) r" "apply_req r X = X"
  shows "apply_req r (view c X) = view c X"
proof -
  have "apply_req (transaction_req tx) X = apply_req r X"
    using assms(2,3) is_store_data [of r] apply_store [of "transaction_req tx"] apply_store [of r]
    by (auto simp: state_ok_def)
  with write_around_effect [OF assms(1-5)] assms(6) show ?thesis by simp
qed

lemma propagated:
  assumes "is_store r" "get_addr q = get_addr r" "store_data q = store_data r" "completed q X cell"
  shows "apply_req r X = X"
  using assms is_store_data [OF assms(1)] apply_store [of q] apply_store [of r]
  by (auto simp: completed_def)

lemma finish_propagate:
  assumes inv: "cinv c m h" and fsm: "fsm c = WriteThroughCommit tx r \<or> fsm c = WriteAround tx r"
    and pr: "progress ltry tx m h = Inr (True, tx, m, h)" "lpending m = None"
      "completed (transaction_req tx) (lcontents m) (h ! req_cell_id (transaction_req tx))"
  shows "\<exists>c' m' h'. tick_result r c m h c' m' h'"
proof -
  let ?X = "lcontents m"
  have cl: "caller c = Some r" using fsm by (auto simp: caller_def)
  note co = cinvD(2) [OF inv] and li = cinvD(1) [OF inv] and cok = cinvD(5) [OF inv cl]
  note st = cinvD(3) [OF inv]
  have r: "fresh_req r h" "admissible (blk_bytes c) (length ?X) r" using cok by (auto simp: caller_ok_def)
  have q: "is_store r" "is_write_through (write_policy c)" "get_addr (transaction_req tx) = get_addr r"
    "store_data (transaction_req tx) = store_data r" using st fsm by (auto simp: state_ok_def)
  have X: "apply_req r ?X = ?X" by (rule propagated [OF q(1,3,4) pr(3)])
  have ag: "agrees c ?X" using st fsm X by (auto simp: state_ok_def)
  have v: "apply_req r (view c ?X) = view c ?X"
    using write_through_view [OF co st _ r] write_around_view [OF co st _ r X] fsm by blast
  let ?c' = "c\<lparr>fsm := Idle\<rparr>"
  let ?h' = "h[req_cell_id r := completed_cell r (view c ?X) (h ! req_cell_id r)]"
  have pt: "protects rp_valid ?c' {}" using q(2) by (simp add: protects_def is_write_through_def)
  have tick: "GeneralCache_tick R ltry c m h = Inr (?c', m, ?h')"
    using fsm pr(1) finish_store [OF r(1) q(1), of "view c ?X"]
    by (auto simp: GeneralCache_tick_def tick_propagate_def)
  have fin: "cinv ?c' m ?h'" "cserves r c m h ?c' m ?h'"
    by (rule finish_caller [OF li pr(2) _ _ pt _ _ cok]; use co ag v cinvD(4) [OF inv] in simp)+
  then show ?thesis
    using tick by (intro exI [of _ ?c'] exI [of _ m] exI [of _ ?h'])
      (simp add: tick_result_def static_def caller_def)
qed

lemma tick_penalty:
  assumes inv: "cinv c m h" and fsm: "fsm c = AdditionalMissPenalty k" and cl: "caller c = Some r"
  shows "\<exists>c' m' h'. tick_result r c m h c' m' h'"
proof -
  have br: "backup_req c = Some r" using cl fsm by (simp add: caller_def)
  note st = cinvD(3) [OF inv] and cok = cinvD(5) [OF inv cl]
  define c' where "c' = (if k > 0 then c\<lparr>fsm := AdditionalMissPenalty (k - 1)\<rparr>
    else c\<lparr>fsm := Lookup r, backup_req := None\<rparr>)"
  have cl': "caller c' = Some r" using br by (simp add: caller_def c'_def)
  have tx: "tx_of (fsm c') = None" by (simp add: c'_def)
  have "state_ok rp_valid c' (lcontents m)"
    using st fsm br by (auto simp: state_ok_def c'_def)
  then have "cinv c' m h"
    using inv cl' cok tx cinvD(6) [OF inv] fsm by (auto simp: cached_inv_def Let_def c'_def caller_ok_def)
  moreover have "cserves r c m h c' m h"
    using cl' fsm
    by (auto simp: serves_def cached_pending_def cached_contents_def cached_owns_def c'_def)
  moreover have "cwait c' m < cwait c m"
    using st fsm by (auto simp: cached_wait_def Let_def c'_def state_ok_def)
  moreover have "GeneralCache_tick R ltry c m h = Inr (c', m, h)"
    using fsm br by (simp add: GeneralCache_tick_def tick_miss_penalty_def c'_def)
  ultimately show ?thesis by (auto simp: tick_result_def static_def c'_def)
qed

subsection \<open>Lookups\<close>

lemma post_null:
  assumes "prefetcher c = NullPrefetcher" "prefetch_queue c = []"
  shows "lookup_post a s False b c = c"
  using assms by (cases c) (simp add: lookup_post_def)

lemma core_post: "core rp_inv n c sz \<Longrightarrow> lookup_post a s False b (c\<lparr>fsm := x\<rparr>) = c\<lparr>fsm := x\<rparr>"
  by (rule post_null) (auto simp: core_def)

lemma protects_same_rp:
  assumes "core rp_inv n c sz" "ix < n_sets c" "protects rp_valid c ex"
    "\<And>v. holds s v = holds (cset c ix) v" "rp_valid (set_rp s) = rp_valid (set_rp (cset c ix))"
  shows "protects rp_valid (update_set ix s c) ex"
  by (rule protects_update [OF assms(1-3)]) (use assms(4,5) in auto)

text \<open>A lookup that hits.\<close>

lemma tick_lookup_hit:
  assumes co: "core rp_inv n c (length X)" and cl: "cline c (rblk c r) = Some d"
  defines "ix \<equiv> block_index c (rblk c r)"
  obtains w rp where "holds (cset c ix) w" "held_block c ix w = rblk c r" "d = block_of (cset c ix) w"
    "rp_inv n rp" "rp_valid rp = rp_valid (set_rp (cset c ix))"
    "read_block R w (cset c ix) = Inr (d, (cset c ix)\<lparr>set_rp := rp\<rparr>)"
    "tick_lookup R r c h = bindR (lookup_hit R r ix (roff c r) w False (cset c ix) c h)
       (\<lambda>(c1, h1). Inr (lookup_post (get_addr r) (is_store r) False True c1, h1))"
proof -
  have ix: "ix < n_sets c" by (simp add: ix_def)
  note sh = lines_okD [OF coreD(1) [OF co] ix]
  from cline_SomeD [OF cl] obtain w where w: "holds (cset c ix) w" "held_block c ix w = rblk c r"
    "d = block_of (cset c ix) w" "find_way (cset c ix) (block_tag c (rblk c r)) = Some w"
    unfolding ix_def by blast
  have setok: "pol.set_ok n (blk_bytes c) (cset c ix)"
    using sh(1) coreD(2) [OF co ix] by (simp add: pol.set_ok_def)
  from pol.read_block_ok [OF setok w(1)] obtain rp where
    rp: "read_block R w (cset c ix) = Inr (d, (cset c ix)\<lparr>set_rp := rp\<rparr>)" "rp_inv n rp"
    "rp_valid rp = rp_valid (set_rp (cset c ix))" using w(3) by auto
  have nf: "\<not> prefetch_in_flight c" using co by (simp add: core_def)
  have ad: "addr_transfer c (get_addr r) = (block_tag c (rblk c r), ix, roff c r)"
    using addr_transfer_parts [OF coreD(5) [OF co], of "get_addr r"] by (simp add: ix_def rblk_def roff_def)
  have "tick_lookup R r c h = bindR (lookup_hit R r ix (roff c r) w False (cset c ix) c h)
       (\<lambda>(c1, h1). Inr (lookup_post (get_addr r) (is_store r) False True c1, h1))"
    using nf sh(3) pol.tag_compare_hit [OF setok w(4)] ad by (simp add: tick_lookup_def cset_def)
  from that [OF w(1-3) rp(2,3,1) this] show ?thesis .
qed

text \<open>The three kinds of hits.\<close>

lemma hit_load:
  assumes co: "core rp_inv n c (length X)" and r: "fresh_req r h" "admissible (blk_bytes c) (length X) r"
    and cl: "cline c (rblk c r) = Some d" and st: "\<not> is_store r"
    and ag: "agrees c X" and pt: "protects rp_valid c {}"
  shows "\<exists>c'. tick_lookup R r c h =
      Inr (c', h[req_cell_id r := completed_cell r (view c X) (h ! req_cell_id r)]) \<and>
    core rp_inv n c' (length X) \<and> agrees c' X \<and> protects rp_valid c' {} \<and> fsm c' = Idle \<and>
    view c' X = apply_req r (view c X) \<and> blk_bytes c' = blk_bytes c \<and> miss_penalty c' = miss_penalty c"
proof -
  let ?ix = "block_index c (rblk c r)"
  have ix: "?ix < n_sets c" by simp
  from tick_lookup_hit [OF co cl, of h] obtain w rp where w: "rp_inv n rp"
    "rp_valid rp = rp_valid (set_rp (cset c ?ix))"
    "read_block R w (cset c ?ix) = Inr (d, (cset c ?ix)\<lparr>set_rp := rp\<rparr>)"
    "tick_lookup R r c h = bindR (lookup_hit R r ?ix (roff c r) w False (cset c ?ix) c h)
       (\<lambda>(c1, h1). Inr (lookup_post (get_addr r) (is_store r) False True c1, h1))" by metis
  note bl = admissible_block [OF r(2) coreD(3) [OF co]]
  have d: "length d = blk_bytes c" by (rule cline_length [OF coreD(1) [OF co] cl])
  obtain lr where lr: "r = LoadReq lr" using st by (cases r) auto
  have bytes: "seg (roff c r) (lr_len lr) d = seg (unat (lr_addr lr)) (lr_len lr) (view c X)"
    using overlay_block [of "cline c" "rblk c r" d "blk_bytes c" X "roff c r" "lr_len lr"] cl d bl lr
      req_split [of r c] by (simp add: view_def)
  have lim: "unat (lr_addr lr) + lr_len lr \<le> length X" using r(2) lr by (simp add: admissible_def)
  let ?c1 = "update_set ?ix ((cset c ?ix)\<lparr>set_rp := rp\<rparr>) c"
  let ?c' = "(count_load False False ?c1)\<lparr>fsm := Idle\<rparr>"
  have co1: "core rp_inv n (count_load False False ?c1) (length X)"
    using core_update_rp [OF co ix w(1)] by simp
  have "tick_lookup R r c h =
      Inr (?c', h[req_cell_id r := completed_cell r (view c X) (h ! req_cell_id r)])"
    using w(3,4) bl d lr bytes lim core_post [OF co1]
    by (simp add: lookup_hit_def complete_from_slice_def min_absorb1)
  moreover have "protects rp_valid ?c1 {}"
    by (rule protects_same_rp [OF co ix pt]) (use w(2) in simp_all)
  ultimately show ?thesis
    using co1 agrees_update_rp [OF co ix] view_update_rp [OF co ix] ag lr by auto
qed

lemma hit_store_back:
  assumes co: "core rp_inv n c (length X)" and r: "fresh_req r h" "admissible (blk_bytes c) (length X) r"
    and cl: "cline c (rblk c r) = Some d" and st: "is_store r" and wb: "is_write_back (write_policy c)"
    and ag: "agrees c X" and pt: "protects rp_valid c {}"
  shows "\<exists>c'. tick_lookup R r c h =
      Inr (c', h[req_cell_id r := completed_cell r (view c X) (h ! req_cell_id r)]) \<and>
    core rp_inv n c' (length X) \<and> agrees c' X \<and> protects rp_valid c' {} \<and> fsm c' = Idle \<and>
    view c' X = apply_req r (view c X) \<and> blk_bytes c' = blk_bytes c \<and> miss_penalty c' = miss_penalty c"
proof -
  let ?ix = "block_index c (rblk c r)"
  let ?s = "cset c ?ix"
  have ix: "?ix < n_sets c" by simp
  note sh = lines_okD [OF coreD(1) [OF co] ix]
  from tick_lookup_hit [OF co cl, of h] obtain w rp where w: "holds ?s w" "held_block c ?ix w = rblk c r"
    "rp_inv n rp" "rp_valid rp = rp_valid (set_rp ?s)"
    "read_block R w ?s = Inr (d, ?s\<lparr>set_rp := rp\<rparr>)"
    "tick_lookup R r c h = bindR (lookup_hit R r ?ix (roff c r) w False ?s c h)
       (\<lambda>(c1, h1). Inr (lookup_post (get_addr r) (is_store r) False True c1, h1))" by metis
  from store_caller [OF co r st] obtain ys where ys: "store_data r = Inr ys" "roff c r + length ys \<le> blk_bytes c"
    "(rblk c r + 1) * blk_bytes c \<le> length X"
    "\<And>Y. apply_req r Y = put_seg (rblk c r * blk_bytes c + roff c r) ys Y" by blast
  have d: "length d = blk_bytes c" by (rule cline_length [OF coreD(1) [OF co] cl])
  obtain sr where sr: "r = StoreReq sr" "sr_store_data sr = ys" "sr_len sr = length ys"
    using st ys(1) r(1) by (cases r) (auto simp: store_data_def)
  let ?d = "put_seg (roff c r) ys d" and ?D = "(dirty_array ?s)[w := True]"
  have d': "length ?d = blk_bytes c" using d ys(2) by simp
  have setok: "pol.set_ok n (blk_bytes c) (?s\<lparr>set_rp := rp\<rparr>)" using sh(1) w(3) by (simp add: pol.set_ok_def)
  from pol.write_block_ok [OF setok _ d', of w] w(1) obtain rp' where
    wr: "write_block R w ?d (?s\<lparr>set_rp := rp\<rparr>) = Inr (written ?s w ?d ?D rp')" "rp_inv n rp'"
    "rp_valid rp' = rp_valid (set_rp ?s)"
    using sh(1) w(4) by (auto simp: written_def set_shape_def)
  let ?c0 = "count_store False False c"
  let ?c1 = "update_set ?ix (written ?s w ?d ?D rp') c"
  have swap: "update_set ?ix (written ?s w ?d ?D rp') ?c0 = count_store False False ?c1"
    by (simp add: update_set_def count_store_def)
  note cw = core_written [OF co ix w(1) d' _ wr(2), of ?D]
  have co1: "core rp_inv n ?c1 (length X)" "cline ?c1 = (cline c)(rblk c r \<mapsto> ?d)"
    using cw wb w(2) by auto
  have "tick_lookup R r c h = Inr ((count_store False False ?c1)\<lparr>fsm := Idle\<rparr>,
      h[req_cell_id r := completed_cell r (view c X) (h ! req_cell_id r)])"
    using w(5,6) sr d ys(2) wr(1) wb swap core_post [OF core_count(2) [OF co1(1)]]
    by (simp add: lookup_hit_def is_write_through_def Let_def MemoryStoreReq_complete_def)
  moreover have "agrees ?c1 X" by (rule agrees_written_dirty [OF co ix w(1) d' ag])
  moreover have "protects rp_valid ?c1 {}"
    by (rule protects_same_rp [OF co ix pt]) (use wr(3) in simp_all)
  moreover have "view ?c1 X = apply_req r (view c X)"
    using overlay_store [of "cline c" "rblk c r" d "blk_bytes c" X "roff c r" ys] cl d ys(2,3) co1(2)
    by (simp add: view_def ys(4))
  ultimately show ?thesis using co1(1) by auto
qed

lemma hit_store_through:
  assumes co: "core rp_inv n c (length X)" and r: "fresh_req r h" "admissible (blk_bytes c) (length X) r"
    and cl: "cline c (rblk c r) = Some d" and st: "is_store r" and wt: "is_write_through (write_policy c)"
    and ag: "agrees c X"
  shows "\<exists>c' q cell. tick_lookup R r c h = Inr (c', h @ [cell]) \<and>
    core rp_inv n c' (length X) \<and> state_ok rp_valid c' X \<and> fsm c' = WriteThroughCommit (Sending q) r \<and>
    view c' X = apply_req r (view c X) \<and> blk_bytes c' = blk_bytes c \<and> miss_penalty c' = miss_penalty c \<and>
    fresh_req q (h @ [cell]) \<and> req_cell_id q = length h \<and> get_addr q = get_addr r \<and> get_len q = get_len r"
proof -
  let ?ix = "block_index c (rblk c r)"
  let ?s = "cset c ?ix"
  have ix: "?ix < n_sets c" by simp
  note sh = lines_okD [OF coreD(1) [OF co] ix]
  from tick_lookup_hit [OF co cl, of h] obtain w rp where w: "holds ?s w" "held_block c ?ix w = rblk c r"
    "rp_inv n rp" "rp_valid rp = rp_valid (set_rp ?s)" "d = block_of ?s w"
    "read_block R w ?s = Inr (d, ?s\<lparr>set_rp := rp\<rparr>)"
    "tick_lookup R r c h = bindR (lookup_hit R r ?ix (roff c r) w False ?s c h)
       (\<lambda>(c1, h1). Inr (lookup_post (get_addr r) (is_store r) False True c1, h1))" by metis
  from store_caller [OF co r st] obtain ys where ys: "store_data r = Inr ys" "roff c r + length ys \<le> blk_bytes c"
    "(rblk c r + 1) * blk_bytes c \<le> length X"
    "\<And>Y. apply_req r Y = put_seg (rblk c r * blk_bytes c + roff c r) ys Y" by blast
  have d: "length d = blk_bytes c" by (rule cline_length [OF coreD(1) [OF co] cl])
  obtain sr where sr: "r = StoreReq sr" "sr_store_data sr = ys" "sr_len sr = length ys"
    using st ys(1) r(1) by (cases r) (auto simp: store_data_def)
  let ?d = "put_seg (roff c r) ys d" and ?D = "dirty_array ?s"
  have d': "length ?d = blk_bytes c" using d ys(2) by simp
  have setok: "pol.set_ok n (blk_bytes c) (?s\<lparr>set_rp := rp\<rparr>)" using sh(1) w(3) by (simp add: pol.set_ok_def)
  from pol.write_block_clean_ok [OF setok _ d', of w] w(1) obtain rp' where
    wr: "write_block_clean R w ?d (?s\<lparr>set_rp := rp\<rparr>) = Inr (written ?s w ?d ?D rp')" "rp_inv n rp'"
    using sh(1) w(4) by (auto simp: written_def set_shape_def)
  obtain q h' where q: "MemoryReqType_store (get_addr r) ys h = (q, h')" by fastforce
  from MemoryReqType_store_fresh [OF q] obtain cell where fq: "fresh_req q h'" "req_cell_id q = length h"
    "get_addr q = get_addr r" "get_len q = length ys" "store_data q = Inr ys" "h' = h @ [cell]" by auto
  let ?c1 = "update_set ?ix (written ?s w ?d ?D rp') c"
  let ?c' = "(count_store False False ?c1)\<lparr>fsm := WriteThroughCommit (Sending q) r\<rparr>"
  have swap: "update_set ?ix (written ?s w ?d ?D rp') (count_store False False c) = count_store False False ?c1"
    by (simp add: update_set_def count_store_def)
  note cw = core_written [OF co ix w(1) d' _ wr(2), of ?D]
  have co1: "core rp_inv n ?c1 (length X)" "cline ?c1 = (cline c)(rblk c r \<mapsto> ?d)"
    using cw w(2) by auto
  have "tick_lookup R r c h = Inr (?c', h @ [cell])"
    using w(6,7) sr d ys(2) wr(1) wt swap core_post [OF core_count(2) [OF co1(1)]] q fq(6)
    by (simp add: lookup_hit_def Let_def LowerMemoryTransaction_new_def)
  moreover have "agrees ?c1 (apply_req r X)"
    using agrees_written_through [OF co ix w(1) ag wt ys(2)] w(2,5) by (simp add: ys(4))
  then have "state_ok rp_valid ?c' X"
    using wt st co1(2) fq(3,5) ys(1) by (simp add: state_ok_def)
  moreover have "view ?c1 X = apply_req r (view c X)"
    using overlay_store [of "cline c" "rblk c r" d "blk_bytes c" X "roff c r" ys] cl d ys(2,3) co1(2)
    by (simp add: view_def ys(4))
  ultimately show ?thesis using co1(1) fq sr
    by (intro exI [of _ ?c'] exI [of _ q] exI [of _ cell]) simp
qed

text \<open>A lookup that misses: the victim, and the common part of the result.\<close>

definition miss_counted :: "MemoryReqType \<Rightarrow> 'rp GeneralCache \<Rightarrow> 'rp GeneralCache" where
  "miss_counted r c = (if is_store r then count_store False True c else count_load False True c)"

lemma miss_counted_simps [simp]:
  "core rp_inv n c sz \<Longrightarrow> core rp_inv n (miss_counted r c) sz" "agrees (miss_counted r c) X = agrees c X"
  "protects rp_valid (miss_counted r c) ex = protects rp_valid c ex" "view (miss_counted r c) X = view c X"
  "cline (miss_counted r c) = cline c" "cset (miss_counted r c) = cset c"
  "n_sets (miss_counted r c) = n_sets c" "blk_bytes (miss_counted r c) = blk_bytes c"
  "held_block (miss_counted r c) = held_block c" "rblk (miss_counted r c) x = rblk c x"
  "miss_penalty (miss_counted r c) = miss_penalty c" "write_policy (miss_counted r c) = write_policy c"
  by (auto simp: miss_counted_def)

lemma block_index_counted [simp]: "block_index (miss_counted r c) = block_index c"
  by (simp add: fun_eq_iff block_index_def)

lemma tick_lookup_miss:
  assumes co: "core rp_inv n c (length X)" and cl: "cline c (rblk c r) = None"
    and r: "admissible (blk_bytes c) (length X) r" and pt: "protects rp_valid c {}" and ag: "agrees c X"
  defines "ix \<equiv> block_index c (rblk c r)"
  obtains full w rp where "w < n" "rp_inv n rp" "\<not> rp_valid rp w"
    "\<And>rp'. rp_valid rp' = rp_valid rp \<Longrightarrow>
       protects rp_valid (update_set ix ((cset c ix)\<lparr>set_rp := rp'\<rparr>) c) {(ix, w)}"
    "\<not> (full \<and> dirty_array (cset c ix) ! w) \<Longrightarrow> holds (cset c ix) w \<Longrightarrow>
       block_of (cset c ix) w = seg (held_block c ix w * blk_bytes c) (blk_bytes c) X"
    "tick_lookup R r c h =
       bindR (lookup_miss R r (block_tag c (rblk c r)) ix (full \<and> dirty_array (cset c ix) ! w) w False
                ((cset c ix)\<lparr>set_rp := rp\<rparr>) c h)
       (\<lambda>(c1, h1). Inr (lookup_post (get_addr r) (is_store r) False False c1, h1))"
proof -
  have ix: "ix < n_sets c" by (simp add: ix_def)
  note sh = lines_okD [OF coreD(1) [OF co] ix]
  have k: "(rblk c r + 1) * blk_bytes c \<le> length X" by (rule admissible_block(3) [OF r coreD(3) [OF co]])
  have fw: "find_way (cset c ix) (block_tag c (rblk c r)) = None"
    using cl of_nat_block(3) [OF co k] by (simp add: cline_def ix_def)
  have setok: "pol.set_ok n (blk_bytes c) (cset c ix)"
    using sh(1) coreD(2) [OF co ix] by (simp add: pol.set_ok_def)
  from pol.tag_compare_miss [OF setok fw] obtain full w rp where
    m: "tag_compare R (block_tag c (rblk c r)) (cset c ix) =
        Inr (TagMiss (full \<and> dirty_array (cset c ix) ! w) w, (cset c ix)\<lparr>set_rp := rp\<rparr>)"
      "w < n" "rp_inv n rp" "rp_valid rp = (rp_valid (set_rp (cset c ix)))(w := False)"
      "\<not> full \<longrightarrow> \<not> rp_valid (set_rp (cset c ix)) w" by blast
  have nf: "\<not> prefetch_in_flight c" using co by (simp add: core_def)
  have ad: "addr_transfer c (get_addr r) = (block_tag c (rblk c r), ix, roff c r)"
    using addr_transfer_parts [OF coreD(5) [OF co], of "get_addr r"] by (simp add: ix_def rblk_def roff_def)
  have pr: "protects rp_valid (update_set ix ((cset c ix)\<lparr>set_rp := rp'\<rparr>) c) {(ix, w)}"
    if "rp_valid rp' = rp_valid rp" for rp'
    by (rule protects_update [OF co ix pt]) (use m(4) that in auto)
  have victim: "block_of (cset c ix) w = seg (held_block c ix w * blk_bytes c) (blk_bytes c) X"
    if d: "\<not> (full \<and> dirty_array (cset c ix) ! w)" and hw: "holds (cset c ix) w"
  proof (rule agreesD [OF ag ix hw])
    show "\<not> dirty_array (cset c ix) ! w"
    proof
      assume dw: "dirty_array (cset c ix) ! w"
      with coreD(8) [OF co ix m(2)] pt ix hw have "rp_valid (set_rp (cset c ix)) w"
        by (auto simp: protects_def)
      with dw d m(5) show False by blast
    qed
  qed
  have "tick_lookup R r c h =
       bindR (lookup_miss R r (block_tag c (rblk c r)) ix (full \<and> dirty_array (cset c ix) ! w) w False
                ((cset c ix)\<lparr>set_rp := rp\<rparr>) c h)
       (\<lambda>(c1, h1). Inr (lookup_post (get_addr r) (is_store r) False False c1, h1))"
    using nf sh(3) m(1) ad by (simp add: tick_lookup_def cset_def)
  from that [OF m(2,3) _ pr victim this] m(4) show ?thesis by simp
qed

text \<open>The three kinds of misses; every miss starts one transaction and keeps the view.\<close>

definition miss_started ::
  "nat \<Rightarrow> nat \<Rightarrow> u8 list \<Rightarrow> MemoryReqType \<Rightarrow> 'rp GeneralCache \<Rightarrow> cells \<Rightarrow> ('rp GeneralCache \<times> cells) res \<Rightarrow> bool" where
  "miss_started n ml X r c h res \<longleftrightarrow>
     (\<exists>c' q cell. res = Inr (c', h @ [cell]) \<and>
        core rp_inv n c' (length X) \<and> state_ok rp_valid c' X \<and> caller c' = Some r \<and>
        tx_of (fsm c') = Some (Sending q) \<and> view c' X = view c X \<and> blk_bytes c' = blk_bytes c \<and>
        miss_penalty c' = miss_penalty c \<and> fresh_req q (h @ [cell]) \<and> req_cell_id q = length h \<and>
        admissible ml (length X) q)"

lemma rp_updated:
  assumes "core rp_inv n c (length X)" "ix < n_sets c" "rp_inv n rp" "agrees c X"
  defines "c1 \<equiv> update_set ix ((cset c ix)\<lparr>set_rp := rp\<rparr>) c"
  shows "core rp_inv n c1 (length X)" "agrees c1 X" "view c1 X = view c X" "cline c1 = cline c"
    "cset c1 ix = (cset c ix)\<lparr>set_rp := rp\<rparr>" "held_block c1 = held_block c"
proof -
  note l = coreD(1) [OF assms(1)]
  show "core rp_inv n c1 (length X)" unfolding c1_def by (rule core_update_rp [OF assms(1-3)])
  show "agrees c1 X" "view c1 X = view c X" "cline c1 = cline c"
    using assms(4) agrees_update_rp [OF assms(1,2)] view_update_rp [OF assms(1,2)] cline_update_rp [OF l assms(2)]
    by (simp_all add: c1_def)
  show "cset c1 ix = (cset c ix)\<lparr>set_rp := rp\<rparr>" using lines_okD(3) [OF l assms(2)] by (simp add: c1_def)
  show "held_block c1 = held_block c"
    using held_block_update [OF l assms(2)] by (auto simp: fun_eq_iff c1_def held_block_def)
qed

lemma miss_around:
  assumes co: "core rp_inv n c (length X)" and cl: "cline c (rblk c r) = None"
    and r: "fresh_req r h" "admissible (blk_bytes c) (length X) r" and ag: "agrees c X" and ml: "blk_bytes c \<le> ml"
    and rp: "rp_inv n rp" and st: "is_store r" "is_no_write_allocate (write_policy c)"
  defines "ix \<equiv> block_index c (rblk c r)"
  shows "miss_started n ml X r c h (bindR (lookup_miss R r t ix b w False ((cset c ix)\<lparr>set_rp := rp\<rparr>) c h)
       (\<lambda>(c1, h1). Inr (lookup_post (get_addr r) (is_store r) False False c1, h1)))"
proof -
  have ix: "ix < n_sets c" by (simp add: ix_def)
  note u = rp_updated [OF co ix rp ag]
  let ?c1 = "update_set ix ((cset c ix)\<lparr>set_rp := rp\<rparr>) c"
  from is_store_data [OF st(1)] obtain d where d: "store_data r = Inr d" by blast
  obtain q h' where q: "MemoryReqType_store (get_addr r) d h = (q, h')" by fastforce
  from MemoryReqType_store_fresh [OF q] store_lenD [OF r(1) st(1) d] obtain cell where
    fq: "fresh_req q h'" "req_cell_id q = length h" "get_addr q = get_addr r" "get_len q = get_len r"
      "store_data q = Inr d" "h' = h @ [cell]" by auto
  let ?c' = "(miss_counted r ?c1)\<lparr>fsm := WriteAround (Sending q) r\<rparr>"
  have "lookup_miss R r t ix b w False ((cset c ix)\<lparr>set_rp := rp\<rparr>) c h = Inr (?c', h')"
    using st d q by (simp add: lookup_miss_def LowerMemoryTransaction_new_def miss_counted_def
        update_set_def count_store_def)
  moreover have "is_write_through (write_policy c)"
    using st(2) co by (cases "write_policy c") (auto simp: core_def is_no_write_allocate_def
        is_write_allocate_def is_write_through_def is_write_back_def)
  moreover have "admissible ml (length X) q"
    using r(2) ml fq(3,4) by (auto simp: admissible_def)
  moreover have "core rp_inv n ?c' (length X)" using u(1) by simp
  moreover from this have "lookup_post a s False p ?c' = ?c'" for a s p
    by (intro post_null) (auto simp: core_def)
  ultimately show ?thesis
    using u cl st(1) fq d by (auto simp: miss_started_def state_ok_def caller_def)
qed

lemma miss_allocate:
  assumes co: "core rp_inv n c (length X)" and cl: "cline c (rblk c r) = None"
    and r: "admissible (blk_bytes c) (length X) r" and ag: "agrees c X" and ml: "blk_bytes c \<le> ml"
    and rp: "rp_inv n rp" and st: "\<not> (is_store r \<and> is_no_write_allocate (write_policy c))"
  defines "ix \<equiv> block_index c (rblk c r)"
  assumes w: "w < n" "\<not> rp_valid rp w"
      "protects rp_valid (update_set ix ((cset c ix)\<lparr>set_rp := rp\<rparr>) c) {(ix, w)}"
      "holds (cset c ix) w \<Longrightarrow>
         block_of (cset c ix) w = seg (held_block c ix w * blk_bytes c) (blk_bytes c) X"
  shows "miss_started n ml X r c h
      (bindR (lookup_miss R r (block_tag c (rblk c r)) ix False w False ((cset c ix)\<lparr>set_rp := rp\<rparr>) c h)
       (\<lambda>(c1, h1). Inr (lookup_post (get_addr r) (is_store r) False False c1, h1)))"
proof -
  let ?k = "rblk c r" and ?b = "blk_bytes c"
  have ix: "ix < n_sets c" by (simp add: ix_def)
  have k: "(?k + 1) * ?b \<le> length X" by (rule admissible_block(3) [OF r coreD(3) [OF co]])
  note u = rp_updated [OF co ix rp ag]
  let ?c1 = "update_set ix ((cset c ix)\<lparr>set_rp := rp\<rparr>) c"
  have addr: "allocate_addr c (block_tag c ?k) ix = of_nat (?k * ?b)"
    unfolding ix_def by (rule allocate_addr_block [OF coreD(5) [OF co] of_nat_block(2) [OF co k]])
  obtain q h' where q: "MemoryReqType_load (of_nat (?k * ?b)) (2 ^ offset_bit_width c) h = (q, h')" by fastforce
  from MemoryReqType_load_fresh [OF q] obtain cell where fq: "fresh_req q h'" "req_cell_id q = length h"
    "get_addr q = of_nat (?k * ?b)" "get_len q = ?b" "\<not> is_store q" "h' = h @ [cell]"
    by (auto simp: blk_bytes_def)
  have ad: "unat (get_addr q) = ?k * ?b" using fq(3) of_nat_block(1) [OF co k] by simp
  let ?c' = "(miss_counted r ?c1)\<lparr>fsm := Allocate (Sending q) w, backup_req := Some r\<rparr>"
  have "lookup_miss R r (block_tag c ?k) ix False w False ((cset c ix)\<lparr>set_rp := rp\<rparr>) c h = Inr (?c', h')"
    using st q addr by (auto simp: lookup_miss_def Let_def LowerMemoryTransaction_new_def miss_counted_def
        update_set_def count_store_def count_load_def)
  moreover have "core rp_inv n ?c' (length X)" using u(1) by simp
  moreover from this have "lookup_post a s False p ?c' = ?c'" for a s p
    by (intro post_null) (auto simp: core_def)
  moreover have "state_ok rp_valid ?c' X"
    using u cl w fq(4,5) ad core_ways [OF u(1)]
    by (simp add: state_ok_def victim_ok_def Let_def ways_def flip: ix_def)
  moreover have "admissible ml (length X) q" by (rule block_request_admissible [OF co ml k ad fq(4)])
  ultimately show ?thesis
    using u(3) fq by (auto simp: miss_started_def caller_def)
qed

lemma miss_write_back:
  assumes co: "core rp_inv n c (length X)" and cl: "cline c (rblk c r) = None"
    and r: "admissible (blk_bytes c) (length X) r" and ag: "agrees c X" and ml: "blk_bytes c \<le> ml"
    and rp: "rp_inv n rp" and st: "\<not> (is_store r \<and> is_no_write_allocate (write_policy c))"
  defines "ix \<equiv> block_index c (rblk c r)"
  assumes w: "w < n" "\<not> rp_valid rp w" "dirty_array (cset c ix) ! w"
      "\<And>rp'. rp_valid rp' = rp_valid rp \<Longrightarrow>
         protects rp_valid (update_set ix ((cset c ix)\<lparr>set_rp := rp'\<rparr>) c) {(ix, w)}"
  shows "miss_started n ml X r c h
      (bindR (lookup_miss R r t ix True w False ((cset c ix)\<lparr>set_rp := rp\<rparr>) c h)
       (\<lambda>(c1, h1). Inr (lookup_post (get_addr r) (is_store r) False False c1, h1)))"
proof -
  let ?b = "blk_bytes c" and ?s = "cset c ix"
  have ix: "ix < n_sets c" by (simp add: ix_def)
  note sh = lines_okD [OF coreD(1) [OF co] ix]
  have hw: "holds ?s w" using coreD(8) [OF co ix w(1,3)] by blast
  let ?j = "held_block c ix w"
  have j: "(?j + 1) * ?b \<le> length X" by (rule coreD(4) [OF co ix hw])
  have setok: "pol.set_ok n ?b (?s\<lparr>set_rp := rp\<rparr>)" using sh(1) rp by (simp add: pol.set_ok_def)
  from pol.read_block_ok [OF setok, of w] hw obtain rp' where
    rd: "read_block R w (?s\<lparr>set_rp := rp\<rparr>) = Inr (block_of ?s w, ?s\<lparr>set_rp := rp'\<rparr>)" "rp_inv n rp'"
      "rp_valid rp' = rp_valid rp" by auto
  note u = rp_updated [OF co ix rd(2) ag]
  let ?c1 = "update_set ix (?s\<lparr>set_rp := rp'\<rparr>) c"
  have tag: "get_tag w (?s\<lparr>set_rp := rp\<rparr>) = Inr (block_tag c ?j)"
    using sh(1) w(1) held_block_parts(1) [OF ix, of w] by (simp add: get_tag_def set_shape_def)
  have addr: "write_back_addr c (block_tag c ?j) ix = of_nat (?j * ?b)"
    using write_back_addr_block [OF coreD(5) [OF co] of_nat_block(2) [OF co j]] held_block_parts(2) [OF ix] by simp
  obtain q h' where q: "MemoryReqType_store (of_nat (?j * ?b)) (block_of ?s w) h = (q, h')" by fastforce
  from MemoryReqType_store_fresh [OF q] length_block_of [OF sh(1) w(1)] obtain cell where
    fq: "fresh_req q h'" "req_cell_id q = length h" "get_addr q = of_nat (?j * ?b)" "get_len q = ?b"
      "store_data q = Inr (block_of ?s w)" "h' = h @ [cell]" by auto
  have ad: "unat (get_addr q) = ?j * ?b" using fq(3) of_nat_block(1) [OF co j] by simp
  let ?c' = "(miss_counted r ?c1)\<lparr>fsm := WriteBack (Sending q) w, backup_req := Some r\<rparr>"
  have "lookup_miss R r t ix True w False (?s\<lparr>set_rp := rp\<rparr>) c h = Inr (?c', h')"
    using st q addr tag rd(1) by (auto simp: lookup_miss_def Let_def LowerMemoryTransaction_new_def
        miss_counted_def update_set_def count_store_def count_load_def)
  moreover have "core rp_inv n ?c' (length X)" using u(1) by simp
  moreover from this have "lookup_post a s False p ?c' = ?c'" for a s p
    by (intro post_null) (auto simp: core_def)
  moreover have "state_ok rp_valid ?c' X"
    using u cl w(1,2,3) w(4) [OF rd(3)] rd(3) fq(5) ad hw core_ways [OF u(1)]
    by (simp add: state_ok_def victim_ok_def Let_def ways_def flip: ix_def)
  moreover have "admissible ml (length X) q" by (rule block_request_admissible [OF co ml j ad fq(4)])
  ultimately show ?thesis
    using u(3) fq by (auto simp: miss_started_def caller_def)
qed

lemma lookup_miss_ok:
  assumes co: "core rp_inv n c (length X)" and cl: "cline c (rblk c r) = None"
    and r: "fresh_req r h" "admissible (blk_bytes c) (length X) r"
    and pt: "protects rp_valid c {}" and ag: "agrees c X" and ml: "blk_bytes c \<le> ml"
  shows "miss_started n ml X r c h (tick_lookup R r c h)"
proof -
  let ?ix = "block_index c (rblk c r)"
  let ?s = "cset c ?ix"
  from tick_lookup_miss [OF co cl r(2) pt ag, of h] obtain full w rp where
    w: "w < n" "rp_inv n rp" "\<not> rp_valid rp w"
      "\<And>rp'. rp_valid rp' = rp_valid rp \<Longrightarrow>
         protects rp_valid (update_set ?ix (?s\<lparr>set_rp := rp'\<rparr>) c) {(?ix, w)}"
      "\<not> (full \<and> dirty_array ?s ! w) \<Longrightarrow> holds ?s w \<Longrightarrow>
         block_of ?s w = seg (held_block c ?ix w * blk_bytes c) (blk_bytes c) X"
    and tick: "tick_lookup R r c h =
       bindR (lookup_miss R r (block_tag c (rblk c r)) ?ix (full \<and> dirty_array ?s ! w) w False
                (?s\<lparr>set_rp := rp\<rparr>) c h)
       (\<lambda>(c1, h1). Inr (lookup_post (get_addr r) (is_store r) False False c1, h1))"
    by metis
  consider "is_store r \<and> is_no_write_allocate (write_policy c)" |
    "\<not> (is_store r \<and> is_no_write_allocate (write_policy c))" "full \<and> dirty_array ?s ! w" |
    "\<not> (is_store r \<and> is_no_write_allocate (write_policy c))" "\<not> (full \<and> dirty_array ?s ! w)" by blast
  then show ?thesis
  proof cases
    case 1
    then show ?thesis unfolding tick by (intro miss_around [OF co cl r ag ml w(2)]) auto
  next
    case 2
    then show ?thesis
      unfolding tick using miss_write_back [OF co cl r(2) ag ml w(2) 2(1) w(1,3) _ w(4)] by simp
  next
    case 3
    then have f: "(full \<and> dirty_array ?s ! w) = False" by simp
    show ?thesis
      unfolding tick f by (rule miss_allocate [OF co cl r(2) ag ml w(2) 3(1) w(1,3) w(4) w(5)]) (use 3 in auto)
  qed
qed

subsection \<open>The controller's tick\<close>

lemma lookup_hit_step:
  assumes li: "linv m h" "lpending m = None" and co: "core rp_inv n c (length (lcontents m))"
    and ag: "agrees c (lcontents m)" and pt: "protects rp_valid c {}" and ml: "blk_bytes c \<le> lmax_len m"
    and cok: "caller_ok lowns c (length (lcontents m)) r m h" and cl: "cline c (rblk c r) \<noteq> None"
  shows "\<exists>c' h'. tick_lookup R r c h = Inr (c', h') \<and> cinv c' m h' \<and> cserves r c m h c' m h' \<and>
    static c m c' m \<and> (caller c' = Some r \<longrightarrow> cwait c' m \<le> tx_bound lmax_wait m)"
proof -
  from cl obtain d where d: "cline c (rblk c r) = Some d" by blast
  have r: "fresh_req r h" "admissible (blk_bytes c) (length (lcontents m)) r"
    using cok by (auto simp: caller_ok_def)
  show ?thesis
  proof (cases "is_store r \<and> is_write_through (write_policy c)")
    case True
    from hit_store_through [OF co r d _ _ ag] True obtain c' q cell where
      t: "tick_lookup R r c h = Inr (c', h @ [cell])" "core rp_inv n c' (length (lcontents m))"
        "state_ok rp_valid c' (lcontents m)" "fsm c' = WriteThroughCommit (Sending q) r"
        "view c' (lcontents m) = apply_req r (view c (lcontents m))" "blk_bytes c' = blk_bytes c"
        "miss_penalty c' = miss_penalty c" "fresh_req q (h @ [cell])" "req_cell_id q = length h"
        "get_addr q = get_addr r" "get_len q = get_len r" by blast
    have cl': "caller c' = Some r" "tx_of (fsm c') = Some (Sending q)" using t(4) by (auto simp: caller_def)
    have "admissible (lmax_len m) (length (lcontents m)) q"
      using r(2) ml t(10,11) by (auto simp: admissible_def)
    then have "cinv c' m (h @ [cell])"
      using ml cok t(6) by (intro start_tx [OF li t(2,3) _ cl'(1) _ cl'(2) t(9,8)]) (auto simp: caller_ok_def)
    moreover have "cserves r c m h c' m (h @ [cell])"
      by (rule start_tx_serves [OF cok cl'(1,2) t(9)]) (use t(5) in simp)
    ultimately show ?thesis
      using t by (auto simp: static_def cached_wait_def tx_wait_def)
  next
    case False
    let ?h' = "h[req_cell_id r := completed_cell r (view c (lcontents m)) (h ! req_cell_id r)]"
    have "\<exists>c'. tick_lookup R r c h = Inr (c', ?h') \<and> core rp_inv n c' (length (lcontents m)) \<and>
      agrees c' (lcontents m) \<and> protects rp_valid c' {} \<and> fsm c' = Idle \<and>
      view c' (lcontents m) = apply_req r (view c (lcontents m)) \<and> blk_bytes c' = blk_bytes c \<and>
      miss_penalty c' = miss_penalty c"
      using hit_load [OF co r d _ ag pt] hit_store_back [OF co r d _ _ ag pt] False
      by (cases "is_store r") (auto simp: is_write_through_def)
    then obtain c' where t: "tick_lookup R r c h = Inr (c', ?h')" "core rp_inv n c' (length (lcontents m))"
      "agrees c' (lcontents m)" "protects rp_valid c' {}" "fsm c' = Idle"
      "view c' (lcontents m) = apply_req r (view c (lcontents m))" "blk_bytes c' = blk_bytes c"
      "miss_penalty c' = miss_penalty c" by blast
    note fin = finish_caller [OF li t(2-4) _ t(5) cok t(6)]
    show ?thesis
      using fin t ml by (intro exI [of _ c'] exI [of _ ?h']) (auto simp: static_def caller_def)
  qed
qed

lemma lookup_miss_step:
  assumes li: "linv m h" "lpending m = None" and co: "core rp_inv n c (length (lcontents m))"
    and ag: "agrees c (lcontents m)" and pt: "protects rp_valid c {}" and ml: "blk_bytes c \<le> lmax_len m"
    and cok: "caller_ok lowns c (length (lcontents m)) r m h" and cl: "cline c (rblk c r) = None"
  shows "\<exists>c' h'. tick_lookup R r c h = Inr (c', h') \<and> cinv c' m h' \<and> cserves r c m h c' m h' \<and> static c m c' m"
proof -
  have r: "fresh_req r h" "admissible (blk_bytes c) (length (lcontents m)) r"
    using cok by (auto simp: caller_ok_def)
  from lookup_miss_ok [OF co cl r pt ag ml] obtain c' q cell where
    t: "tick_lookup R r c h = Inr (c', h @ [cell])" "core rp_inv n c' (length (lcontents m))"
      "state_ok rp_valid c' (lcontents m)" "caller c' = Some r" "tx_of (fsm c') = Some (Sending q)"
      "view c' (lcontents m) = view c (lcontents m)" "blk_bytes c' = blk_bytes c"
      "miss_penalty c' = miss_penalty c" "fresh_req q (h @ [cell])" "req_cell_id q = length h"
      "admissible (lmax_len m) (length (lcontents m)) q" by (auto simp: miss_started_def)
  have "cinv c' m (h @ [cell])"
    using ml cok t(7) by (intro start_tx [OF li t(2,3) _ t(4) _ t(5,10,9,11)]) (auto simp: caller_ok_def)
  moreover have "cserves r c m h c' m (h @ [cell])"
    by (rule start_tx_serves [OF cok t(4,5,10)]) (use t(6) in simp)
  ultimately show ?thesis using t by (auto simp: static_def)
qed

lemma tick_with_tx:
  assumes inv: "cinv c m h" and cl: "caller c = Some r" and tx: "tx_of (fsm c) = Some tx"
  shows "\<exists>c' m' h'. tick_result r c m h c' m' h'"
  using progress_step [OF inv tx cl]
proof (elim disjE exE conjE)
  fix m' h'
  assume "progress ltry tx m h = Inr (False, Waiting (transaction_req tx), m', h')"
  from tick_in_flight [OF inv tx cl this] show
    "cinv (c\<lparr>fsm := with_tx (fsm c) (Waiting (transaction_req tx))\<rparr>) m' h' \<Longrightarrow>
     cserves r c m h (c\<lparr>fsm := with_tx (fsm c) (Waiting (transaction_req tx))\<rparr>) m' h' \<Longrightarrow>
     static c m (c\<lparr>fsm := with_tx (fsm c) (Waiting (transaction_req tx))\<rparr>) m' \<Longrightarrow>
     cwait (c\<lparr>fsm := with_tx (fsm c) (Waiting (transaction_req tx))\<rparr>) m' < cwait c m \<Longrightarrow> ?thesis"
    "cinv (c\<lparr>fsm := with_tx (fsm c) (Waiting (transaction_req tx))\<rparr>) m' h' \<Longrightarrow>
     cserves r c m h (c\<lparr>fsm := with_tx (fsm c) (Waiting (transaction_req tx))\<rparr>) m' h' \<Longrightarrow>
     static c m (c\<lparr>fsm := with_tx (fsm c) (Waiting (transaction_req tx))\<rparr>) m' \<Longrightarrow>
     lpending m' \<noteq> None \<Longrightarrow>
     cwait (c\<lparr>fsm := with_tx (fsm c) (Waiting (transaction_req tx))\<rparr>) m' \<le> cwait c m \<Longrightarrow> ?thesis"
    unfolding tick_result_def by blast+
next
  assume pr: "progress ltry tx m h = Inr (True, tx, m, h)" "lpending m = None"
    "completed (transaction_req tx) (lcontents m) (h ! req_cell_id (transaction_req tx))"
  show ?thesis
  proof (cases "fsm c")
    case (WriteBack t w)
    with finish_write_back [OF inv _ cl] pr tx show ?thesis by auto
  next
    case (Allocate t w)
    with finish_allocate [OF inv _ cl] pr tx show ?thesis by auto
  next
    case (WriteThroughCommit t q)
    with finish_propagate [OF inv] pr tx cl show ?thesis by (auto simp: caller_def)
  next
    case (WriteAround t q)
    with finish_propagate [OF inv] pr tx cl show ?thesis by (auto simp: caller_def)
  qed (use tx in auto)
qed

lemma tick_busy_result:
  assumes inv: "cinv c m h" and cl: "caller c = Some r"
  shows "\<exists>c' m' h'. tick_result r c m h c' m' h'"
proof (cases "tx_of (fsm c)")
  case (Some tx)
  then show ?thesis by (rule tick_with_tx [OF inv cl])
next
  case None
  show ?thesis
  proof (cases "fsm c")
    case (Lookup q)
    then have q: "q = r" using cl by (simp add: caller_def)
    have st: "agrees c (lcontents m)" "protects rp_valid c {}" "cline c (rblk c r) \<noteq> None"
      using cinvD(3) [OF inv] Lookup q by (auto simp: state_ok_def)
    from lookup_hit_step [OF cinvD(1) [OF inv] cinvD(6) [OF inv None] cinvD(2) [OF inv] st(1,2)
        cinvD(4) [OF inv] cinvD(5) [OF inv cl] st(3)]
    obtain c' h' where t: "tick_lookup R r c h = Inr (c', h')" "cinv c' m h'" "cserves r c m h c' m h'"
      "static c m c' m" "caller c' = Some r \<longrightarrow> cwait c' m \<le> tx_bound lmax_wait m" by blast
    have "cwait c m = tx_bound lmax_wait m + 1" using Lookup by (simp add: cached_wait_def)
    with t Lookup q have "tick_result r c m h c' m h'"
      by (auto simp: tick_result_def GeneralCache_tick_def)
    then show ?thesis by blast
  next
    case (AdditionalMissPenalty k)
    then show ?thesis by (rule tick_penalty [OF inv _ cl])
  qed (use None cl in \<open>auto simp: caller_def\<close>)
qed

subsection \<open>The composite is a memory device\<close>

lemma alignment_ok:
  assumes "core rp_inv n c sz" "admissible (blk_bytes c) sz r"
  shows "alignment_check c r = Inr True"
proof -
  note b = admissible_block [OF assms(2) coreD(3) [OF assms(1)]]
  have "block_size_bytes c = blk_bytes c" using assms(1) by (simp add: core_def)
  with b assms(2) show ?thesis
    by (auto simp: alignment_check_def admissible_def roff_def Let_def mod_eq_0_iff_dvd)
qed

lemma caller_None: "cinv c m h \<Longrightarrow> caller c = None \<Longrightarrow> fsm c = Idle"
  using cinvD(3) [of c m h] by (auto simp: caller_def state_ok_def split: MainStates.splits)

lemma pending_None: "cinv c m h \<Longrightarrow> pending_req c = None"
  using cinvD(2) [of c m h] by (simp add: core_def)

lemma register_tick:
  assumes inv: "cinv c m h" and fsm: "fsm c = Idle"
  shows "GeneralCache_tick R ltry (c\<lparr>pending_req := Some r\<rparr>) m h = Inr (c\<lparr>fsm := Lookup r\<rparr>, m, h)"
  using fsm pending_None [OF inv] by (cases c) (simp add: GeneralCache_tick_def tick_idle_def)

lemma register_free:
  assumes inv: "cinv c m h" and cl: "caller c = None"
    and r: "admissible (blk_bytes c) (length (lcontents m)) r" "fresh_req r h" "req_cell_id r \<notin> cached_owns lowns (c, m)"
  shows "\<exists>c' h'. GeneralCache_try_register_req R ltry r c m h = Inr (True, c', m, h') \<and> cinv c' m h' \<and>
    cserves r c m h c' m h' \<and> static c m c' m"
proof -
  have fsm: "fsm c = Idle" by (rule caller_None [OF inv cl])
  let ?c1 = "c\<lparr>fsm := Lookup r\<rparr>"
  have st: "agrees ?c1 (lcontents m)" "protects rp_valid ?c1 {}"
    using cinvD(3) [OF inv] fsm by (auto simp: state_ok_def)
  have co: "core rp_inv (ways c) ?c1 (length (lcontents m))" using cinvD(2) [OF inv] by simp
  have cok: "caller_ok lowns ?c1 (length (lcontents m)) r m h"
    using r by (auto simp: caller_ok_def cached_owns_def)
  have lp: "lpending m = None" using cinvD(6) [OF inv] fsm by simp
  have ml: "blk_bytes ?c1 \<le> lmax_len m" using cinvD(4) [OF inv] by simp
  have "\<exists>c' h'. tick_lookup R r ?c1 h = Inr (c', h') \<and> cinv c' m h' \<and> cserves r ?c1 m h c' m h' \<and> static ?c1 m c' m"
  proof (cases "cline ?c1 (rblk ?c1 r) = None")
    case True
    then show ?thesis by (rule lookup_miss_step [OF cinvD(1) [OF inv] lp co st ml cok])
  next
    case False
    from lookup_hit_step [OF cinvD(1) [OF inv] lp co st ml cok False] show ?thesis by blast
  qed
  then obtain c' h' where t: "tick_lookup R r ?c1 h = Inr (c', h')" "cinv c' m h'"
    "cserves r ?c1 m h c' m h'" "static ?c1 m c' m" by blast
  have "GeneralCache_try_register_req R ltry r c m h = Inr (True, c', m, h')"
    using alignment_ok [OF cinvD(2) [OF inv] r(1)] fsm pending_None [OF inv] register_tick [OF inv fsm] t(1)
    by (simp add: GeneralCache_try_register_req_def) (simp add: GeneralCache_tick_def)
  with t fsm show ?thesis
    by (auto simp: serves_def cached_pending_def cached_contents_def cached_owns_def static_def)
qed

lemma idle_tick:
  assumes "cinv c m h" "caller c = None"
  shows "GeneralCache_tick R ltry c m h = Inr (c, m, h)"
  using caller_None [OF assms] pending_None [OF assms(1)] cinvD(2) [OF assms(1)]
  by (simp add: GeneralCache_tick_def tick_idle_def core_def)

lemma caller_not_owned:
  assumes "cinv c m h" "caller c = Some r"
  shows "fresh_req r h" "req_cell_id r \<notin> cached_owns lowns (c, m)"
    "admissible (blk_bytes c) (length (lcontents m)) r"
  using cinvD(5) [OF assms] cinvD(7) [OF assms(1)] assms(2)
  by (auto simp: caller_ok_def cached_owns_def tx_ok_def Let_def split: option.splits)

lemma owns_bounded: "cinv c m h \<Longrightarrow> cached_owns lowns (c, m) \<subseteq> {..<length h}"
  using lower.inv_owns [OF cinvD(1), of c m h] cinvD(7) [of c m h]
  by (auto simp: cached_owns_def tx_ok_def Let_def split: option.splits)

lemma composite_tick:
  assumes inv: "cinv c m h" and cl: "caller c = Some r"
  shows "\<exists>c' m' h'. cached_tick R ltry ltick (c, m) h = Inr ((c', m'), h') \<and> cinv c' m' h' \<and>
    cserves r c m h c' m' h' \<and> (caller c' = Some r \<longrightarrow> cwait c' m' < cwait c m) \<and> static c m c' m'"
proof -
  from tick_busy_result [OF inv cl] obtain c1 m1 h1 where
    t: "GeneralCache_tick R ltry c m h = Inr (c1, m1, h1)" "cinv c1 m1 h1" "cserves r c m h c1 m1 h1"
      "static c m c1 m1" "caller c1 = Some r \<longrightarrow>
        cwait c1 m1 < cwait c m \<or> lpending m1 \<noteq> None \<and> cwait c1 m1 \<le> cwait c m"
    by (auto simp: tick_result_def)
  note nr = caller_not_owned [OF inv cl] and ow = owns_bounded [OF inv]
  have step: "cserves r c m h c1 m2 h2" if "cserves r c1 m1 h1 c1 m2 h2" "caller c1 = Some r" for m2 h2
    using serves_step [OF t(3) _ that(1) nr(1) ow, where ml = "blk_bytes c"] that(2) nr(3)
    by (simp add: cached_pending_def cached_contents_def)
  have fin: "\<exists>m2 h2. ltick m1 h1 = Inr (m2, h2) \<and> cinv c1 m2 h2 \<and> cserves r c m h c1 m2 h2 \<and>
      (caller c1 = Some r \<longrightarrow> cwait c1 m2 < cwait c m) \<and> static c1 m1 c1 m2"
  proof (cases "caller c1 = Some r")
    case True
    show ?thesis
    proof (cases "lpending m1 = None")
      case False
      from lower_tick_busy [OF t(2) False True] step [OF _ True] t(5) True show ?thesis by fastforce
    next
      case lp: True
      from lower_tick_free [OF t(2) lp] True step [OF _ True] t(5) lp show ?thesis by fastforce
    qed
  next
    case False
    then have none: "caller c1 = None" using t(3) by (auto simp: serves_def cached_pending_def)
    have lp: "lpending m1 = None" using cinvD(6) [OF t(2)] caller_None [OF t(2) none] by simp
    from lower_tick_free [OF t(2) lp] obtain m2 h2 where
      l: "ltick m1 h1 = Inr (m2, h2)" "cinv c1 m2 h2" "static c1 m1 c1 m2" "lcontents m2 = lcontents m1"
        "frame (cached_owns lowns (c1, m1)) h1 h2"
        "cached_owns lowns (c1, m2) \<subseteq> cached_owns lowns (c1, m1) \<union> {length h1..<length h2}" by blast
    have "cserves r c m h c1 m2 h2"
      by (rule serves_then_idle [OF t(3) _ _ _ l(5,6) nr(1,2)])
        (use none l(4) in \<open>simp_all add: cached_pending_def cached_contents_def\<close>)
    with l none show ?thesis by auto
  qed
  then show ?thesis using t(1,4) by (auto simp: cached_tick_def static_def)
qed

lemma cwait_bound:
  assumes "cinv c m h"
  shows "cwait c m \<le> cached_max_wait lmax_wait (c, m)"
proof -
  have b: "tx_wait lpending lwait lmax_wait tx m \<le> tx_bound lmax_wait m" for tx
    using lower.wait_bound [OF cinvD(1) [OF assms]]
    by (auto simp: tx_wait_def tx_bound_def split: LowerMemoryTransaction.splits)
  note d = cached_wait_def cached_max_wait_def Let_def
  show ?thesis
  proof (cases "fsm c")
    case (WriteBack tx w)
    with b [of tx] show ?thesis by (simp add: d)
  next
    case (Allocate tx w)
    with b [of tx] show ?thesis by (simp add: d)
  next
    case (WriteThroughCommit tx r)
    with b [of tx] show ?thesis by (simp add: d)
  next
    case (WriteAround tx r)
    with b [of tx] show ?thesis by (simp add: d)
  qed (simp_all add: d)
qed

lemma cinv_frame:
  assumes inv: "cinv c m h" and len: "length h \<le> length h'"
    and own: "\<And>i. i \<in> cached_owns lowns (c, m) \<Longrightarrow> h' ! i = h ! i"
    and cell: "\<And>r. caller c = Some r \<Longrightarrow> h' ! req_cell_id r = h ! req_cell_id r"
  shows "cinv c m h'"
proof -
  have lo: "h' ! i = h ! i" if "i \<in> lowns m" for i using own that by (simp add: cached_owns_def)
  have q: "h' ! req_cell_id (transaction_req tx) = h ! req_cell_id (transaction_req tx)"
    if "tx_of (fsm c) = Some tx" for tx using own that by (simp add: cached_owns_def)
  have "linv m h'"
  proof (rule lower.inv_frame [OF cinvD(1) [OF inv] len lo])
    fix p assume p: "lpending m = Some p"
    then obtain tx where tx: "tx_of (fsm c) = Some tx" using cinvD(6) [OF inv] by fastforce
    with cinvD(7) [OF inv tx] p have "transaction_req tx = p"
      by (auto simp: tx_ok_def Let_def split: LowerMemoryTransaction.splits)
    with q [OF tx] show "h' ! req_cell_id p = h ! req_cell_id p" by simp
  qed simp
  moreover have "caller_ok lowns c (length (lcontents m)) r m h'" if "caller c = Some r" for r
    using cinvD(5) [OF inv that] fresh_req_frame [OF _ len cell [OF that]] by (auto simp: caller_ok_def)
  moreover have "tx_ok lpending lowns lmax_len tx r m (lcontents m) h'"
    if "tx_of (fsm c) = Some tx" "tx_ok lpending lowns lmax_len tx r m (lcontents m) h" for tx r
    using that len q [OF that(1)] fresh_req_frame [OF _ len q [OF that(1)]]
    by (auto simp: tx_ok_def Let_def split: LowerMemoryTransaction.splits)
  ultimately show ?thesis
    using inv by (auto simp: cached_inv_def Let_def split: option.splits)
qed

end

text \<open>
  The transparency result: whatever the next level and the replacement policy, as long as they keep
  their contracts, the cache in front of the next level keeps the contract of a memory device.
\<close>

sublocale cache_over \<subseteq> cached: memory_device "cached_try_reg R ltry" "cached_tick R ltry ltick"
  "cached_inv linv lpending lcontents lowns lmax_len rp_inv rp_valid" cached_pending
  "cached_contents lcontents" "cached_owns lowns" "cached_wait lpending lwait lmax_wait"
  "cached_max_wait lmax_wait" cached_max_len
proof (unfold_locales, goal_cases)
  case (1 cm h q r)
  obtain c m where cm: "cm = (c, m)" by (cases cm)
  with 1 have "fsm c \<noteq> Idle" "alignment_check c r = Inr True"
    using alignment_ok [OF cinvD(2), of c m h r]
    by (auto simp: cached_pending_def caller_def cached_max_len_def cached_contents_def)
  with cm show ?case by (simp add: cached_try_reg_def GeneralCache_try_register_req_def)
next
  case (2 cm h r)
  obtain c m where cm: "cm = (c, m)" by (cases cm)
  from register_free [of c m h r] 2 cm obtain c' h' where
    "GeneralCache_try_register_req R ltry r c m h = Inr (True, c', m, h')" "cinv c' m h'"
    "cserves r c m h c' m h'" "static c m c' m"
    by (auto simp: cached_pending_def cached_max_len_def cached_contents_def)
  with cm show ?case
    by (auto simp: cached_try_reg_def cached_max_len_def cached_max_wait_def static_def tx_bound_def)
next
  case (3 cm h)
  obtain c m where cm: "cm = (c, m)" by (cases cm)
  with 3 have inv: "cinv c m h" "caller c = None" by (auto simp: cached_pending_def)
  have lp: "lpending m = None" using cinvD(6) [OF inv(1)] caller_None [OF inv] by simp
  from lower_tick_free [OF inv(1) lp] idle_tick [OF inv] inv(2) cm show ?case
    by (auto simp: cached_tick_def cached_pending_def cached_contents_def cached_max_len_def
        cached_max_wait_def static_def tx_bound_def)
next
  case (4 cm h r)
  obtain c m where cm: "cm = (c, m)" by (cases cm)
  with 4 have inv: "cinv c m h" "caller c = Some r" by (auto simp: cached_pending_def)
  from composite_tick [OF inv] obtain c' m' h' where
    "cached_tick R ltry ltick (c, m) h = Inr ((c', m'), h')" "cinv c' m' h'" "cserves r c m h c' m' h'"
    "caller c' = Some r \<longrightarrow> cwait c' m' < cwait c m" "static c m c' m'" by blast
  with cm show ?case
    by (intro exI [of _ "(c', m')"] exI [of _ h'])
      (auto simp: cached_pending_def cached_max_len_def cached_max_wait_def static_def tx_bound_def)
next
  case (5 cm h)
  then show ?case using cwait_bound by (cases cm) auto
next
  case (6 cm h r)
  obtain c m where cm: "cm = (c, m)" by (cases cm)
  with caller_not_owned [of c m h r] 6 show ?case
    by (auto simp: cached_pending_def cached_max_len_def cached_contents_def)
next
  case (7 cm h)
  then show ?case using owns_bounded by (cases cm) auto
next
  case (8 cm h h')
  obtain c m where cm: "cm = (c, m)" by (cases cm)
  with cinv_frame [of c m h h'] 8 show ?case by (auto simp: cached_pending_def)
qed

end
