(* ===== verification/Simple_Mem.thy ===== *)
theory Simple_Mem
  imports Memory_Request
begin

text \<open>
  The flat main memory (\<^verbatim>\<open>hardware/mem/simple_mem.rs\<close>): one request at a time, a fixed stall
  countdown, then the whole transfer in one tick.  It implements the contract \<open>memory_device\<close>;
  every accepted request completes at exactly the sixteenth tick.
\<close>

definition MEM_SIZE :: nat where
  "MEM_SIZE = 0x40000"

definition MAIN_MEM_LATENCY :: nat where
  "MAIN_MEM_LATENCY = 15"

record SimpleMem =
  sm_data :: "u8 list"
  sm_pending_req :: "MemoryReqType option"
  sm_stall_countdown :: nat
  sm_load_access_count :: nat
  sm_store_access_count :: nat

definition SimpleMem_new :: "u8 list \<Rightarrow> SimpleMem" where
  "SimpleMem_new init_data =
     \<lparr>sm_data = init_data, sm_pending_req = None, sm_stall_countdown = MAIN_MEM_LATENCY,
      sm_load_access_count = 0, sm_store_access_count = 0\<rparr>"

fun SimpleMem_count_access :: "MemoryReqType \<Rightarrow> SimpleMem \<Rightarrow> SimpleMem" where
  "SimpleMem_count_access (LoadReq _) m =
     m\<lparr>sm_load_access_count := sm_load_access_count m + 1\<rparr>"
| "SimpleMem_count_access (StoreReq _) m =
     m\<lparr>sm_store_access_count := sm_store_access_count m + 1\<rparr>"

definition SimpleMem_try_register_req ::
  "MemoryReqType \<Rightarrow> SimpleMem \<Rightarrow> cells \<Rightarrow> (bool \<times> SimpleMem \<times> cells) res" where
  "SimpleMem_try_register_req req m h =
     bindR (assertR (get_addr req < of_nat MEM_SIZE) (OutOfBoundAccess (get_addr req))) (\<lambda>_.
     if sm_pending_req m \<noteq> None then Inr (False, m, h)
     else Inr (True,
       (SimpleMem_count_access req m)
         \<lparr>sm_pending_req := Some req, sm_stall_countdown := MAIN_MEM_LATENCY\<rparr>, h))"

definition SimpleMem_handle :: "MemoryReqType \<Rightarrow> SimpleMem \<Rightarrow> cells \<Rightarrow> (SimpleMem \<times> cells) res" where
  "SimpleMem_handle req m h =
     (let addr = unat (get_addr req); len = get_len req in
      case req of
        LoadReq _ \<Rightarrow>
          bindR (get_range (sm_data m) addr (addr + len)) (\<lambda>d.
          bindR (complete_load_from_slice req d h) (\<lambda>h'. Inr (m, h')))
      | StoreReq store_req \<Rightarrow>
          bindR (set_range (sm_data m) addr (addr + len) (sr_store_data store_req)) (\<lambda>d.
          bindR (complete_store req h) (\<lambda>h'. Inr (m\<lparr>sm_data := d\<rparr>, h'))))"

definition SimpleMem_tick :: "SimpleMem \<Rightarrow> cells \<Rightarrow> (SimpleMem \<times> cells) res" where
  "SimpleMem_tick m h =
     (case sm_pending_req m of
        None \<Rightarrow> Inr (m, h)
      | Some req \<Rightarrow>
          if sm_stall_countdown m > 0
          then Inr (m\<lparr>sm_stall_countdown := sm_stall_countdown m - 1\<rparr>, h)
          else SimpleMem_handle req (m\<lparr>sm_pending_req := None\<rparr>) h)"

subsection \<open>The memory implements the device contract\<close>

text \<open>
  Contents of at most \<open>MEM_SIZE\<close> bytes (the ELF loader always builds exactly that many), and a
  request in flight that is admissible and not yet completed.
\<close>

definition SimpleMem_inv :: "SimpleMem \<Rightarrow> cells \<Rightarrow> bool" where
  "SimpleMem_inv m h \<longleftrightarrow>
     length (sm_data m) \<le> MEM_SIZE \<and> sm_stall_countdown m \<le> MAIN_MEM_LATENCY \<and>
     (case sm_pending_req m of None \<Rightarrow> True
      | Some r \<Rightarrow> fresh_req r h \<and> admissible MEM_SIZE (length (sm_data m)) r)"

lemma SimpleMem_count_access_simps [upd_simps]:
  "sm_data (SimpleMem_count_access r m) = sm_data m"
  "sm_pending_req (SimpleMem_count_access r m) = sm_pending_req m"
  by (cases r; simp)+

lemma admissible_addr_less:
  assumes "admissible ml sz r" "sz \<le> MEM_SIZE"
  shows "get_addr r < of_nat MEM_SIZE"
proof -
  from assms(1) have "0 < get_len r" "unat (get_addr r) + get_len r \<le> sz"
    by (auto simp: admissible_def is_power_of_two_def)
  with assms(2) have "unat (get_addr r) < MEM_SIZE" by linarith
  then show ?thesis
    by (simp add: word_less_nat_alt MEM_SIZE_def)
qed

text \<open>The transfer itself: what the final tick of a request does.\<close>

lemma SimpleMem_handle_ok:
  assumes "fresh_req r h" "admissible ml (length (sm_data m)) r"
  shows "SimpleMem_handle r m h =
    Inr (m\<lparr>sm_data := apply_req r (sm_data m)\<rparr>,
         h[req_cell_id r := completed_cell r (sm_data m) (h ! req_cell_id r)])"
  using assms
  by (cases r) (auto simp: SimpleMem_handle_def Let_def admissible_def complete_load_from_slice_def
      complete_from_slice_def complete_store_def MemoryStoreReq_complete_def)

lemma fresh_req_cases:
  assumes "fresh_req r h"
  shows "h[req_cell_id r := c] ! req_cell_id r = c"
  using fresh_reqD [OF assms] by simp

interpretation sm: memory_device SimpleMem_try_register_req SimpleMem_tick SimpleMem_inv
  sm_pending_req sm_data "\<lambda>_. {}" sm_stall_countdown "\<lambda>_. MAIN_MEM_LATENCY" "\<lambda>_. MEM_SIZE"
proof (unfold_locales, goal_cases)
  case (1 m h q r)
  then have "get_addr r < of_nat MEM_SIZE"
    by (intro admissible_addr_less) (auto simp: SimpleMem_inv_def)
  with 1 show ?case by (simp add: SimpleMem_try_register_req_def)
next
  case (2 m h r)
  then have "get_addr r < of_nat MEM_SIZE"
    by (intro admissible_addr_less) (auto simp: SimpleMem_inv_def)
  with 2 show ?case
    by (auto simp: SimpleMem_try_register_req_def SimpleMem_inv_def serves_def upd_simps)
next
  case (3 m h)
  then show ?case by (simp add: SimpleMem_tick_def)
next
  case (4 m h r)
  then have r: "fresh_req r h" "admissible MEM_SIZE (length (sm_data m)) r"
    and inv: "length (sm_data m) \<le> MEM_SIZE" "sm_stall_countdown m \<le> MAIN_MEM_LATENCY"
    by (auto simp: SimpleMem_inv_def)
  show ?case
  proof (cases "sm_stall_countdown m > 0")
    case True
    with 4 r inv show ?thesis
      by (auto simp: SimpleMem_tick_def SimpleMem_inv_def serves_def)
  next
    case False
    let ?m = "m\<lparr>sm_pending_req := None\<rparr>"
    have "SimpleMem_tick m h = SimpleMem_handle r ?m h"
      using 4 False by (simp add: SimpleMem_tick_def)
    also have "\<dots> = Inr (?m\<lparr>sm_data := apply_req r (sm_data m)\<rparr>,
         h[req_cell_id r := completed_cell r (sm_data m) (h ! req_cell_id r)])"
      using SimpleMem_handle_ok [of r h MEM_SIZE ?m] r by simp
    finally show ?thesis
      using 4 r inv by (simp add: SimpleMem_inv_def serves_def fresh_req_cases)
  qed
next
  case (5 m h)
  then show ?case by (simp add: SimpleMem_inv_def)
next
  case (6 m h r)
  then show ?case by (simp add: SimpleMem_inv_def)
next
  case (7 m h)
  then show ?case by simp
next
  case (8 m h h')
  then show ?case
    by (auto simp: SimpleMem_inv_def split: option.splits intro: fresh_req_frame)
qed

text \<open>
  C17. A request accepted by an idle \<open>SimpleMem\<close> is in flight for fifteen ticks, during which the
  memory does not change, and the sixteenth tick completes it: the store has updated exactly its
  bytes, the load's buffer holds the bytes at its address.
\<close>

theorem SimpleMem_exact_latency:
  assumes "sm_pending_req m = None" "length (sm_data m) \<le> MEM_SIZE"
    and "admissible MEM_SIZE (length (sm_data m)) r" "fresh_req r h"
  shows "\<exists>m1. SimpleMem_try_register_req r m h = Inr (True, m1, h) \<and>
    (\<forall>n\<le>15. \<exists>m2. ticks SimpleMem_tick n m1 h = Inr (m2, h) \<and> sm_pending_req m2 = Some r \<and>
       sm_data m2 = sm_data m) \<and>
    (\<exists>m3. ticks SimpleMem_tick 16 m1 h =
       Inr (m3, h[req_cell_id r := completed_cell r (sm_data m) (h ! req_cell_id r)]) \<and>
       sm_pending_req m3 = None \<and> sm_data m3 = apply_req r (sm_data m))"
proof -
  let ?m1 = "(SimpleMem_count_access r m)\<lparr>sm_pending_req := Some r, sm_stall_countdown := 15\<rparr>"
  have reg: "SimpleMem_try_register_req r m h = Inr (True, ?m1, h)"
    using assms admissible_addr_less [OF assms(3,2)]
    by (simp add: SimpleMem_try_register_req_def MAIN_MEM_LATENCY_def)
  have stall: "ticks SimpleMem_tick n m' h = Inr (m'\<lparr>sm_stall_countdown := k - n\<rparr>, h)"
    if "sm_pending_req m' = Some r" "sm_stall_countdown m' = k" "n \<le> k" for n k m'
    using that by (induction n arbitrary: m' k) (auto simp: SimpleMem_tick_def)
  have last: "ticks SimpleMem_tick (15 + 1) ?m1 h =
      Inr (?m1\<lparr>sm_stall_countdown := 0, sm_pending_req := None, sm_data := apply_req r (sm_data m)\<rparr>,
           h[req_cell_id r := completed_cell r (sm_data m) (h ! req_cell_id r)])"
    unfolding ticks_add using stall [of ?m1 15 15]
      SimpleMem_handle_ok [of r h MEM_SIZE "?m1\<lparr>sm_stall_countdown := 0, sm_pending_req := None\<rparr>"] assms
    by (simp add: SimpleMem_tick_def upd_simps)
  show ?thesis
  proof (intro exI conjI)
    show "SimpleMem_try_register_req r m h = Inr (True, ?m1, h)" by (fact reg)
    show "\<forall>n\<le>15. \<exists>m2. ticks SimpleMem_tick n ?m1 h = Inr (m2, h) \<and> sm_pending_req m2 = Some r \<and>
       sm_data m2 = sm_data m"
      using stall [of ?m1 15] by (simp add: upd_simps)
    show "ticks SimpleMem_tick 16 ?m1 h =
      Inr (?m1\<lparr>sm_stall_countdown := 0, sm_pending_req := None, sm_data := apply_req r (sm_data m)\<rparr>,
           h[req_cell_id r := completed_cell r (sm_data m) (h ! req_cell_id r)])"
      using last by simp
  qed simp_all
qed

theorem SimpleMem_exact_latency_witness:
  "\<exists>m1. SimpleMem_try_register_req (LoadReq \<lparr>lr_addr = 2, lr_len = 2, lr_cell = 0\<rparr>)
      (SimpleMem_new [1, 2, 3, 4]) [\<lparr>cell_done = False, cell_buffer = [0, 0]\<rparr>] =
      Inr (True, m1, [\<lparr>cell_done = False, cell_buffer = [0, 0]\<rparr>]) \<and>
    (\<exists>m3. ticks SimpleMem_tick 16 m1 [\<lparr>cell_done = False, cell_buffer = [0, 0]\<rparr>] =
      Inr (m3, [\<lparr>cell_done = True, cell_buffer = [3, 4]\<rparr>]))"
proof -
  let ?r = "LoadReq \<lparr>lr_addr = 2, lr_len = 2, lr_cell = 0\<rparr>"
  let ?h = "[\<lparr>cell_done = False, cell_buffer = [0, 0]\<rparr>]"
  have "admissible MEM_SIZE (length (sm_data (SimpleMem_new [1, 2, 3, 4]))) ?r" "fresh_req ?r ?h"
    by (simp_all add: admissible_def is_power_of_two_def MEM_SIZE_def SimpleMem_new_def)
  from SimpleMem_exact_latency [OF _ _ this] show ?thesis
    by (force simp: SimpleMem_new_def MEM_SIZE_def seg_def)
qed

end
