(* ===== verification/Simple_Dram.thy ===== *)
theory Simple_Dram
  imports Memory_Request
begin

text \<open>
  The single-bank DRAM controller (\<^verbatim>\<open>hardware/mem/simple_dram\<close>): timing parameters
  (\<^verbatim>\<open>timing.rs\<close>), the bank as a cycle-counting state machine (\<^verbatim>\<open>bank.rs\<close>) and the controller
  that decides a command and then advances the bank in every tick (\<^verbatim>\<open>mod.rs\<close>).  The controller
  implements \<open>memory_device\<close>; the latency of every request is exactly the one of its path (row hit,
  cold open, row miss), and every request is counted once as a hit or as a miss.
\<close>

subsection \<open>Timing parameters\<close>

record DramTiming =
  t_rcd :: nat
  t_cl :: nat
  t_rp :: nat

definition assert_valid :: "DramTiming \<Rightarrow> unit res" where
  "assert_valid t =
     bindR (assertR (t_rcd t \<ge> 1) ZeroTiming) (\<lambda>_.
     bindR (assertR (t_cl t \<ge> 1) ZeroTiming) (\<lambda>_.
     assertR (t_rp t \<ge> 1) ZeroTiming))"

definition educational_default :: DramTiming where
  "educational_default = \<lparr>t_rcd = 4, t_cl = 4, t_rp = 4\<rparr>"

definition ddr4_2400 :: DramTiming where
  "ddr4_2400 = \<lparr>t_rcd = 17, t_cl = 17, t_rp = 17\<rparr>"

subsection \<open>The bank\<close>

datatype BankState =
    Bank_Idle
  | Activating u32 nat
  | Active u32
  | Precharging nat
  | Reading u32 nat
  | Writing u32 nat

datatype BankEvent = ActivationFinished | PrechargeFinished | ReadFinished | WriteFinished

record Bank =
  bank_state :: BankState

definition Bank_new :: Bank where
  "Bank_new = \<lparr>bank_state = Bank_Idle\<rparr>"

definition issue_activate :: "u32 \<Rightarrow> nat \<Rightarrow> Bank \<Rightarrow> Bank res" where
  "issue_activate row t b =
     bindR (assertR (bank_state b = Bank_Idle) ActNotIdle) (\<lambda>_.
     bindR (assertR (t \<ge> 1) ZeroTiming) (\<lambda>_.
     Inr (b\<lparr>bank_state := Activating row t\<rparr>)))"

definition issue_precharge :: "nat \<Rightarrow> Bank \<Rightarrow> Bank res" where
  "issue_precharge t b =
     bindR (assertR (case bank_state b of Active _ \<Rightarrow> True | _ \<Rightarrow> False) PreNotActive) (\<lambda>_.
     bindR (assertR (t \<ge> 1) ZeroTiming) (\<lambda>_.
     Inr (b\<lparr>bank_state := Precharging t\<rparr>)))"

definition issue_read :: "u32 \<Rightarrow> nat \<Rightarrow> Bank \<Rightarrow> Bank res" where
  "issue_read row t b =
     (case bank_state b of
        Active open_row \<Rightarrow>
          bindR (assertR (open_row = row) (CasWrongRow row open_row)) (\<lambda>_.
          bindR (assertR (t \<ge> 1) ZeroTiming) (\<lambda>_.
          Inr (b\<lparr>bank_state := Reading row t\<rparr>)))
      | _ \<Rightarrow> Inl CasNotActive)"

definition issue_write :: "u32 \<Rightarrow> nat \<Rightarrow> Bank \<Rightarrow> Bank res" where
  "issue_write row t b =
     (case bank_state b of
        Active open_row \<Rightarrow>
          bindR (assertR (open_row = row) (CasWrongRow row open_row)) (\<lambda>_.
          bindR (assertR (t \<ge> 1) ZeroTiming) (\<lambda>_.
          Inr (b\<lparr>bank_state := Writing row t\<rparr>)))
      | _ \<Rightarrow> Inl CasNotActive)"

fun bank_next :: "BankState \<Rightarrow> BankState \<times> BankEvent option" where
  "bank_next Bank_Idle = (Bank_Idle, None)"
| "bank_next (Active row) = (Active row, None)"
| "bank_next (Activating row n) =
     (if n = 1 then (Active row, Some ActivationFinished) else (Activating row (n - 1), None))"
| "bank_next (Precharging n) =
     (if n = 1 then (Bank_Idle, Some PrechargeFinished) else (Precharging (n - 1), None))"
| "bank_next (Reading row n) =
     (if n = 1 then (Active row, Some ReadFinished) else (Reading row (n - 1), None))"
| "bank_next (Writing row n) =
     (if n = 1 then (Active row, Some WriteFinished) else (Writing row (n - 1), None))"

definition advance_one_cycle :: "Bank \<Rightarrow> BankEvent option \<times> Bank" where
  "advance_one_cycle b =
     (let (nxt, event) = bank_next (bank_state b) in (event, b\<lparr>bank_state := nxt\<rparr>))"

subsection \<open>The controller\<close>

definition DEFAULT_ROW_SIZE_BYTES :: nat where
  "DEFAULT_ROW_SIZE_BYTES = 1024"

record SimpleDram =
  dram_data :: "u8 list"
  dram_timing :: DramTiming
  row_size_bytes :: nat
  dram_bank :: Bank
  dram_pending_req :: "MemoryReqType option"
  required_activate :: bool
  row_buffer_hit_cnt :: nat
  row_buffer_miss_cnt :: nat

definition SimpleDram_new :: "u8 list \<Rightarrow> DramTiming \<Rightarrow> SimpleDram res" where
  "SimpleDram_new init_data t =
     bindR (assert_valid t) (\<lambda>_. Inr
       \<lparr>dram_data = init_data, dram_timing = t, row_size_bytes = DEFAULT_ROW_SIZE_BYTES,
        dram_bank = Bank_new, dram_pending_req = None, required_activate = False,
        row_buffer_hit_cnt = 0, row_buffer_miss_cnt = 0\<rparr>)"

definition with_row_size :: "nat \<Rightarrow> SimpleDram \<Rightarrow> SimpleDram res" where
  "with_row_size n d =
     bindR (assertR (n \<ge> 1 \<and> is_power_of_two n) (RowSizeInvalid n)) (\<lambda>_.
     Inr (d\<lparr>row_size_bytes := n\<rparr>))"

text \<open>The row size is cast to \<open>u32\<close> before the division.\<close>

definition addr_to_row :: "SimpleDram \<Rightarrow> u32 \<Rightarrow> u32 res" where
  "addr_to_row d addr =
     (if u32_of_usize (row_size_bytes d) = 0 then Inl DivisionByZero
      else Inr (addr div u32_of_usize (row_size_bytes d)))"

definition complete_pending_read :: "SimpleDram \<Rightarrow> cells \<Rightarrow> (SimpleDram \<times> cells) res" where
  "complete_pending_read d h =
     bindR (unwrapR UnwrapNone (dram_pending_req d)) (\<lambda>req.
     let addr = unat (get_addr req); len = get_len req in
     bindR (get_range (dram_data d) addr (addr + len)) (\<lambda>bytes.
     bindR (complete_load_from_slice req bytes h) (\<lambda>h'.
     Inr (d\<lparr>dram_pending_req := None, required_activate := False\<rparr>, h'))))"

definition complete_pending_write :: "SimpleDram \<Rightarrow> cells \<Rightarrow> (SimpleDram \<times> cells) res" where
  "complete_pending_write d h =
     bindR (unwrapR UnwrapNone (dram_pending_req d)) (\<lambda>req.
     let addr = unat (get_addr req); len = get_len req in
     bindR (store_data req) (\<lambda>bytes.
     bindR (set_range (dram_data d) addr (addr + len) bytes) (\<lambda>data'.
     bindR (complete_store req h) (\<lambda>h'.
     Inr (d\<lparr>dram_pending_req := None, dram_data := data', required_activate := False\<rparr>, h')))))"

definition SimpleDram_try_register_req ::
  "MemoryReqType \<Rightarrow> SimpleDram \<Rightarrow> cells \<Rightarrow> (bool \<times> SimpleDram \<times> cells) res" where
  "SimpleDram_try_register_req req d h =
     (let addr = unat (get_addr req); len = get_len req in
      bindR (assertR (addr + len \<le> length (dram_data d))
               (OutOfBoundDram (get_addr req) len (length (dram_data d)))) (\<lambda>_.
      if dram_pending_req d \<noteq> None then Inr (False, d, h)
      else Inr (True, d\<lparr>dram_pending_req := Some req, required_activate := False\<rparr>, h)))"

text \<open>Phase 1 of a tick: the command, if any, that the pending request issues.\<close>

definition dram_decide :: "SimpleDram \<Rightarrow> SimpleDram res" where
  "dram_decide d =
     (case dram_pending_req d of None \<Rightarrow> Inr d | Some req \<Rightarrow>
      bindR (addr_to_row d (get_addr req)) (\<lambda>req_row.
      case bank_state (dram_bank d) of
        Bank_Idle \<Rightarrow>
          bindR (issue_activate req_row (t_rcd (dram_timing d)) (dram_bank d)) (\<lambda>b.
          Inr (d\<lparr>row_buffer_miss_cnt := row_buffer_miss_cnt d + 1, required_activate := True,
                 dram_bank := b\<rparr>))
      | Active open_row \<Rightarrow>
          if open_row = req_row then
            let d1 = (if \<not> required_activate d
                      then d\<lparr>row_buffer_hit_cnt := row_buffer_hit_cnt d + 1\<rparr> else d) in
            bindR (if is_store req then issue_write req_row (t_cl (dram_timing d)) (dram_bank d)
                   else issue_read req_row (t_cl (dram_timing d)) (dram_bank d)) (\<lambda>b.
            Inr (d1\<lparr>dram_bank := b\<rparr>))
          else
            bindR (issue_precharge (t_rp (dram_timing d)) (dram_bank d)) (\<lambda>b.
            Inr (d\<lparr>dram_bank := b\<rparr>))
      | _ \<Rightarrow> Inr d))"

text \<open>Phase 2: advance the bank one cycle and complete the request when its CAS finished.\<close>

definition dram_advance :: "SimpleDram \<Rightarrow> cells \<Rightarrow> (SimpleDram \<times> cells) res" where
  "dram_advance d h =
     (let (event, b) = advance_one_cycle (dram_bank d); d1 = d\<lparr>dram_bank := b\<rparr> in
      case event of
        Some ReadFinished \<Rightarrow> complete_pending_read d1 h
      | Some WriteFinished \<Rightarrow> complete_pending_write d1 h
      | _ \<Rightarrow> Inr (d1, h))"

definition SimpleDram_tick :: "SimpleDram \<Rightarrow> cells \<Rightarrow> (SimpleDram \<times> cells) res" where
  "SimpleDram_tick d h = bindR (dram_decide d) (\<lambda>d1. dram_advance d1 h)"

subsection \<open>Invariant and latency\<close>

definition req_row :: "SimpleDram \<Rightarrow> MemoryReqType \<Rightarrow> u32" where
  "req_row d r = get_addr r div u32_of_usize (row_size_bytes d)"

text \<open>Bank states that can occur while a given request, or none, is in flight.\<close>

fun bank_ok :: "DramTiming \<Rightarrow> u32 \<Rightarrow> bool \<Rightarrow> bool \<Rightarrow> BankState \<Rightarrow> bool" where
  "bank_ok t row st act Bank_Idle \<longleftrightarrow> \<not> act"
| "bank_ok t row st act (Activating w n) \<longleftrightarrow> w = row \<and> 1 \<le> n \<and> n \<le> t_rcd t \<and> act"
| "bank_ok t row st act (Active w) \<longleftrightarrow> (act \<longrightarrow> w = row)"
| "bank_ok t row st act (Precharging n) \<longleftrightarrow> 1 \<le> n \<and> n \<le> t_rp t \<and> \<not> act"
| "bank_ok t row st act (Reading w n) \<longleftrightarrow> w = row \<and> \<not> st \<and> 1 \<le> n \<and> n \<le> t_cl t"
| "bank_ok t row st act (Writing w n) \<longleftrightarrow> w = row \<and> st \<and> 1 \<le> n \<and> n \<le> t_cl t"

fun bank_quiet :: "BankState \<Rightarrow> bool" where
  "bank_quiet Bank_Idle = True"
| "bank_quiet (Active _) = True"
| "bank_quiet _ = False"

text \<open>Number of ticks until a request for row \<open>row\<close> completes.\<close>

fun bank_latency :: "DramTiming \<Rightarrow> u32 \<Rightarrow> BankState \<Rightarrow> nat" where
  "bank_latency t row Bank_Idle = t_rcd t + t_cl t"
| "bank_latency t row (Active w) = (if w = row then t_cl t else t_rp t + t_rcd t + t_cl t)"
| "bank_latency t row (Activating w n) = n + t_cl t"
| "bank_latency t row (Precharging n) = n + t_rcd t + t_cl t"
| "bank_latency t row (Reading w n) = n"
| "bank_latency t row (Writing w n) = n"

definition dram_static :: "SimpleDram \<Rightarrow> bool" where
  "dram_static d \<longleftrightarrow>
     t_rcd (dram_timing d) \<ge> 1 \<and> t_cl (dram_timing d) \<ge> 1 \<and> t_rp (dram_timing d) \<ge> 1 \<and>
     u32_of_usize (row_size_bytes d) \<noteq> 0"

definition SimpleDram_inv :: "SimpleDram \<Rightarrow> cells \<Rightarrow> bool" where
  "SimpleDram_inv d h \<longleftrightarrow> dram_static d \<and>
     (case dram_pending_req d of
        None \<Rightarrow> bank_quiet (bank_state (dram_bank d))
      | Some r \<Rightarrow> fresh_req r h \<and> admissible (length (dram_data d)) (length (dram_data d)) r \<and>
          bank_ok (dram_timing d) (req_row d r) (is_store r) (required_activate d)
            (bank_state (dram_bank d)))"

definition dram_wait :: "SimpleDram \<Rightarrow> nat" where
  "dram_wait d =
     (case dram_pending_req d of None \<Rightarrow> 0
      | Some r \<Rightarrow> bank_latency (dram_timing d) (req_row d r) (bank_state (dram_bank d)))"

definition dram_max_wait :: "SimpleDram \<Rightarrow> nat" where
  "dram_max_wait d = t_rp (dram_timing d) + t_rcd (dram_timing d) + t_cl (dram_timing d)"

text \<open>Hits and misses that the request in flight has still to be counted for.\<close>

definition owed_hit :: "SimpleDram \<Rightarrow> nat" where
  "owed_hit d =
     (case dram_pending_req d of None \<Rightarrow> 0 | Some r \<Rightarrow>
        if bank_state (dram_bank d) = Active (req_row d r) \<and> \<not> required_activate d then 1 else 0)"

definition owed_miss :: "SimpleDram \<Rightarrow> nat" where
  "owed_miss d =
     (case dram_pending_req d of None \<Rightarrow> 0 | Some r \<Rightarrow>
        (case bank_state (dram_bank d) of
           Bank_Idle \<Rightarrow> 1 | Precharging _ \<Rightarrow> 1
         | Active w \<Rightarrow> if w = req_row d r then 0 else 1
         | _ \<Rightarrow> 0))"


subsection \<open>One tick\<close>

text \<open>What a tick preserves: the static parameters and the event balance.\<close>

definition dram_keeps :: "SimpleDram \<Rightarrow> SimpleDram \<Rightarrow> bool" where
  "dram_keeps d d' \<longleftrightarrow>
     dram_timing d' = dram_timing d \<and> row_size_bytes d' = row_size_bytes d \<and>
     row_buffer_hit_cnt d' + owed_hit d' = row_buffer_hit_cnt d + owed_hit d \<and>
     row_buffer_miss_cnt d' + owed_miss d' = row_buffer_miss_cnt d + owed_miss d"

lemmas dram_defs = SimpleDram_tick_def dram_decide_def dram_advance_def addr_to_row_def
  advance_one_cycle_def issue_activate_def issue_precharge_def issue_read_def issue_write_def
  req_row_def dram_static_def

lemmas dram_ghosts = dram_keeps_def owed_hit_def owed_miss_def dram_wait_def

text \<open>The data transfer of the final tick.\<close>

lemma complete_pending_ok:
  assumes "dram_pending_req d = Some r" "fresh_req r h" "admissible ml (length (dram_data d)) r"
  defines "d' \<equiv> d\<lparr>dram_pending_req := None, dram_data := apply_req r (dram_data d),
                  required_activate := False\<rparr>"
    and "h' \<equiv> h[req_cell_id r := completed_cell r (dram_data d) (h ! req_cell_id r)]"
  shows "\<not> is_store r \<Longrightarrow> complete_pending_read d h = Inr (d', h')"
    and "is_store r \<Longrightarrow> complete_pending_write d h = Inr (d', h')"
  using assms
  by (cases r; auto simp: complete_pending_read_def complete_pending_write_def Let_def
      admissible_def complete_load_from_slice_def complete_from_slice_def store_data_def
      complete_store_def MemoryStoreReq_complete_def)+



lemma dram_tick_last:
  assumes "SimpleDram_inv d h" "dram_pending_req d = Some r" "dram_wait d = 1"
  shows "\<exists>d'. SimpleDram_tick d h =
      Inr (d', h[req_cell_id r := completed_cell r (dram_data d) (h ! req_cell_id r)]) \<and>
    SimpleDram_inv d' h' \<and> dram_pending_req d' = None \<and> dram_data d' = apply_req r (dram_data d) \<and>
    bank_state (dram_bank d') = Active (req_row d r) \<and> dram_keeps d d'"
proof (cases "bank_state (dram_bank d)")
  case (Active w)
  with assms show ?thesis
    by (auto simp: SimpleDram_inv_def dram_defs dram_ghosts Let_def
        complete_pending_ok [of _ r h "length (dram_data d)"] split: if_splits)
qed (use assms in \<open>auto simp: SimpleDram_inv_def dram_defs dram_ghosts Let_def
        complete_pending_ok [of _ r h "length (dram_data d)"] split: if_splits\<close>)

lemma dram_tick_more:
  assumes "SimpleDram_inv d h" "dram_pending_req d = Some r" "dram_wait d \<noteq> 1"
  shows "\<exists>d'. SimpleDram_tick d h = Inr (d', h) \<and> SimpleDram_inv d' h \<and>
    dram_pending_req d' = Some r \<and> dram_data d' = dram_data d \<and>
    dram_wait d' = dram_wait d - 1 \<and> dram_keeps d d'"
proof (cases "bank_state (dram_bank d)")
  case (Active w)
  with assms show ?thesis
    by (auto simp: SimpleDram_inv_def dram_defs dram_ghosts Let_def split: if_splits)
qed (use assms in \<open>auto simp: SimpleDram_inv_def dram_defs dram_ghosts Let_def split: if_splits\<close>)

lemma dram_wait_pos: "SimpleDram_inv d h \<Longrightarrow> dram_pending_req d = Some r \<Longrightarrow> 0 < dram_wait d"
  by (cases "bank_state (dram_bank d)") (auto simp: SimpleDram_inv_def dram_wait_def dram_static_def)

subsection \<open>The controller implements the device contract\<close>

lemma dram_register_ok:
  assumes "SimpleDram_inv d h" "dram_pending_req d = None" "fresh_req r h"
    "admissible (length (dram_data d)) (length (dram_data d)) r"
  defines "d' \<equiv> d\<lparr>dram_pending_req := Some r, required_activate := False\<rparr>"
  shows "SimpleDram_try_register_req r d h = Inr (True, d', h)" "SimpleDram_inv d' h"
  using assms
  by (cases "bank_state (dram_bank d)";
      auto simp: SimpleDram_try_register_req_def Let_def admissible_def SimpleDram_inv_def dram_static_def)+

lemma dram_wait_bound: "SimpleDram_inv d h \<Longrightarrow> dram_wait d \<le> dram_max_wait d"
  by (cases "bank_state (dram_bank d)")
    (auto simp: SimpleDram_inv_def dram_wait_def dram_max_wait_def split: option.splits)

interpretation dram: memory_device SimpleDram_try_register_req SimpleDram_tick SimpleDram_inv
  dram_pending_req dram_data "\<lambda>_. {}" dram_wait dram_max_wait "\<lambda>d. length (dram_data d)"
proof (unfold_locales, goal_cases)
  case (1 d h q r)
  then show ?case
    by (auto simp: SimpleDram_try_register_req_def Let_def admissible_def)
next
  case (2 d h r)
  with dram_register_ok [of d h r] show ?case
    by (auto simp: serves_def dram_max_wait_def)
next
  case (3 d h)
  then show ?case
    by (cases "bank_state (dram_bank d)")
      (auto simp: SimpleDram_inv_def dram_defs dram_max_wait_def)
next
  case (4 d h r)
  then have r: "fresh_req r h" "admissible (length (dram_data d)) (length (dram_data d)) r"
    by (auto simp: SimpleDram_inv_def)
  show ?case
  proof (cases "dram_wait d = 1")
    case True
    let ?h = "h[req_cell_id r := completed_cell r (dram_data d) (h ! req_cell_id r)]"
    from dram_tick_last [OF 4 True, of ?h] r apply_req_length [OF r] fresh_reqD [OF r(1)]
    show ?thesis by (auto simp: serves_def dram_max_wait_def dram_keeps_def)
  next
    case False
    from dram_tick_more [OF 4 False] dram_wait_pos [OF 4]
    show ?thesis by (auto simp: serves_def dram_max_wait_def dram_keeps_def)
  qed
next
  case (5 d h)
  then show ?case by (rule dram_wait_bound)
next
  case (6 d h r)
  then show ?case by (simp add: SimpleDram_inv_def)
next
  case (7 d h)
  then show ?case by simp
next
  case (8 d h h')
  then show ?case
    by (auto simp: SimpleDram_inv_def split: option.splits intro: fresh_req_frame)
qed

subsection \<open>Exact latency and event counts\<close>

lemma dram_keeps_trans: "dram_keeps a b \<Longrightarrow> dram_keeps b c \<Longrightarrow> dram_keeps a c"
  by (simp add: dram_keeps_def)

lemma dram_keeps_row: "dram_keeps d d' \<Longrightarrow> req_row d' r = req_row d r"
  by (simp add: dram_keeps_def req_row_def)

lemma dram_stall:
  "SimpleDram_inv d h \<Longrightarrow> dram_pending_req d = Some r \<Longrightarrow> n < dram_wait d \<Longrightarrow>
   \<exists>d'. ticks SimpleDram_tick n d h = Inr (d', h) \<and> SimpleDram_inv d' h \<and>
     dram_pending_req d' = Some r \<and> dram_data d' = dram_data d \<and>
     dram_wait d' = dram_wait d - n \<and> dram_keeps d d'"
proof (induction n arbitrary: d)
  case 0
  then show ?case by (simp add: dram_keeps_def)
next
  case (Suc n)
  then obtain d1 where "SimpleDram_tick d h = Inr (d1, h)" "SimpleDram_inv d1 h"
    "dram_pending_req d1 = Some r" "dram_data d1 = dram_data d" "dram_wait d1 = dram_wait d - 1"
    "dram_keeps d d1"
    using dram_tick_more [of d h r] by auto
  moreover from this Suc.prems(3) have "n < dram_wait d1" by simp
  ultimately show ?case using Suc.IH [of d1] by (fastforce dest: dram_keeps_trans)
qed

lemma dram_finish:
  assumes "SimpleDram_inv d h" "dram_pending_req d = Some r"
  shows "\<exists>d'. ticks SimpleDram_tick (dram_wait d) d h =
      Inr (d', h[req_cell_id r := completed_cell r (dram_data d) (h ! req_cell_id r)]) \<and>
    dram_pending_req d' = None \<and> dram_data d' = apply_req r (dram_data d) \<and>
    bank_state (dram_bank d') = Active (req_row d r) \<and> dram_keeps d d'"
proof -
  from dram_wait_pos [OF assms] obtain n where n: "dram_wait d = n + 1"
    by (metis Suc_eq_plus1 gr0_implies_Suc)
  from dram_stall [OF assms, of n] n obtain d1 where d1: "ticks SimpleDram_tick n d h = Inr (d1, h)"
    "SimpleDram_inv d1 h" "dram_pending_req d1 = Some r" "dram_data d1 = dram_data d"
    "dram_wait d1 = 1" "dram_keeps d d1" by auto
  from dram_tick_last [OF d1(2,3,5), of h] d1(1,4,6) show ?thesis
    unfolding n ticks_add by (fastforce simp: dram_keeps_row dest: dram_keeps_trans)
qed

text \<open>
  C16. The latency table of the DRAM controller: a request accepted while the bank is quiescent is
  in flight, without effect, for all ticks before its path latency (\<open>t_cl\<close> when its row is open,
  \<open>t_rcd + t_cl\<close> when no row is open, \<open>t_rp + t_rcd + t_cl\<close> when another row is open) and completes
  at exactly that tick, leaving its row open; it is counted once, as a hit in the first case and as
  a miss otherwise.
\<close>

theorem SimpleDram_exact_latency:
  assumes "SimpleDram_inv d h" "dram_pending_req d = None" "fresh_req r h"
    "admissible (length (dram_data d)) (length (dram_data d)) r"
  defines "hit \<equiv> bank_state (dram_bank d) = Active (req_row d r)"
    and "lat \<equiv> (case bank_state (dram_bank d) of
        Active w \<Rightarrow> (if w = req_row d r then 0 else t_rp (dram_timing d) + t_rcd (dram_timing d))
      | _ \<Rightarrow> t_rcd (dram_timing d)) + t_cl (dram_timing d)"
  shows "\<exists>d1. SimpleDram_try_register_req r d h = Inr (True, d1, h) \<and>
    (\<forall>n<lat. \<exists>d2. ticks SimpleDram_tick n d1 h = Inr (d2, h) \<and> dram_pending_req d2 = Some r \<and>
       dram_data d2 = dram_data d) \<and>
    (\<exists>d3. ticks SimpleDram_tick lat d1 h =
       Inr (d3, h[req_cell_id r := completed_cell r (dram_data d) (h ! req_cell_id r)]) \<and>
       dram_pending_req d3 = None \<and> dram_data d3 = apply_req r (dram_data d) \<and>
       bank_state (dram_bank d3) = Active (req_row d r) \<and>
       row_buffer_hit_cnt d3 = row_buffer_hit_cnt d + (if hit then 1 else 0) \<and>
       row_buffer_miss_cnt d3 = row_buffer_miss_cnt d + (if hit then 0 else 1))"
proof -
  let ?d = "d\<lparr>dram_pending_req := Some r, required_activate := False\<rparr>"
  note reg = dram_register_ok [OF assms(1-4)]
  have q: "bank_quiet (bank_state (dram_bank d))"
    using assms(1,2) by (simp add: SimpleDram_inv_def)
  have w: "dram_wait ?d = lat"
    using q by (cases "bank_state (dram_bank d)") (auto simp: dram_wait_def lat_def req_row_def)
  have owed: "owed_hit ?d = (if hit then 1 else 0)" "owed_miss ?d = (if hit then 0 else 1)"
    using q by (cases "bank_state (dram_bank d)";
        auto simp: owed_hit_def owed_miss_def hit_def req_row_def)+
  have row: "req_row ?d r = req_row d r" by (simp add: req_row_def)
  show ?thesis
    using reg dram_stall [OF reg(2), of r] dram_finish [OF reg(2), of r] owed
    by (fastforce simp: w row dram_keeps_def owed_hit_def [of x for x] owed_miss_def [of x for x])
qed

theorem SimpleDram_exact_latency_witness:
  "\<exists>d1 d3. SimpleDram_try_register_req (LoadReq \<lparr>lr_addr = 2, lr_len = 2, lr_cell = 0\<rparr>)
      \<lparr>dram_data = [1, 2, 3, 4, 5, 6, 7, 8], dram_timing = educational_default, row_size_bytes = 4,
       dram_bank = \<lparr>bank_state = Active 1\<rparr>, dram_pending_req = None, required_activate = False,
       row_buffer_hit_cnt = 0, row_buffer_miss_cnt = 1\<rparr>
      [\<lparr>cell_done = False, cell_buffer = [0, 0]\<rparr>] =
      Inr (True, d1, [\<lparr>cell_done = False, cell_buffer = [0, 0]\<rparr>]) \<and>
    ticks SimpleDram_tick 12 d1 [\<lparr>cell_done = False, cell_buffer = [0, 0]\<rparr>] =
      Inr (d3, [\<lparr>cell_done = True, cell_buffer = [3, 4]\<rparr>]) \<and> row_buffer_miss_cnt d3 = 2"
proof -
  let ?r = "LoadReq \<lparr>lr_addr = 2, lr_len = 2, lr_cell = 0\<rparr>"
  let ?h = "[\<lparr>cell_done = False, cell_buffer = [0, 0]\<rparr>] :: cells"
  let ?d = "\<lparr>dram_data = [1, 2, 3, 4, 5, 6, 7, 8], dram_timing = educational_default,
    row_size_bytes = 4, dram_bank = \<lparr>bank_state = Active 1\<rparr>, dram_pending_req = None,
    required_activate = False, row_buffer_hit_cnt = 0, row_buffer_miss_cnt = 1\<rparr>"
  have "SimpleDram_inv ?d ?h" "dram_pending_req ?d = None" "fresh_req ?r ?h"
    "admissible (length (dram_data ?d)) (length (dram_data ?d)) ?r"
    by (simp_all add: SimpleDram_inv_def dram_static_def educational_default_def u32_of_usize_def
        admissible_def is_power_of_two_def)
  from SimpleDram_exact_latency [OF this] show ?thesis
    by (force simp: educational_default_def req_row_def u32_of_usize_def seg_def)
qed

end
