(* ===== verification/Hierarchy.thy ===== *)
theory Hierarchy
  imports Cache_Correct Simple_Mem Simple_Dram
begin

text \<open>
  The memory hierarchies that the simulator builds: caches with each replacement policy over the
  flat memory and over the DRAM controller, and a first-level cache over a second-level cache.
  Freshly built caches satisfy the invariant; sequences of accesses through a hierarchy return what
  a flat byte array returns.
\<close>

subsection \<open>A new cache\<close>

lemma sets_new_ok:
  assumes "replacement_policy R ways_ok rp_inv rp_valid" "ways_ok n"
  shows "\<exists>ss. sets_new R n b k = Inr ss \<and> length ss = k \<and>
    (\<forall>s\<in>set ss. set_shape n b s \<and> rp_inv n (set_rp s) \<and> (\<forall>w. \<not> holds s w) \<and>
       dirty_array s = replicate n False)"
proof (induction k)
  case 0
  then show ?case by simp
next
  case (Suc k)
  from replacement_policy.SetUnit_new_ok [OF assms, of b] Suc show ?case
    by (auto simp: replacement_policy.set_ok_def [OF assms(1)])
qed

text \<open>
  The configurations for which the cache is proved transparent: accepted by the configuration
  check, at least one offset or index bit and at least one tag bit, blocks that divide the memory and
  fit one access of the next level, prefetching disabled, any write policy but write-back without
  write-allocate.
\<close>

definition usable_config :: "(nat \<Rightarrow> bool) \<Rightarrow> nat \<Rightarrow> nat \<Rightarrow> GeneralCacheConfig \<Rightarrow> bool" where
  "usable_config ways_ok ml sz cfg \<longleftrightarrow>
     (let g = cfg_geometry cfg in
      (\<exists>t b w. CacheGeometry_new t b w = Inr g) \<and> ways_ok (geo_num_of_way g) \<and>
      0 < geo_offset_bit_width g + geo_index_bit_width g \<and>
      geo_offset_bit_width g + geo_index_bit_width g < 32 \<and>
      geo_block_size g \<le> ml \<and> geo_block_size g dvd sz \<and> sz \<le> 2 ^ 32 \<and>
      cfg_write_policy cfg \<noteq> WriteBackNoWriteAllocate \<and> cfg_prefetcher_kind cfg = PrefetchNull)"

context cache_over
begin

lemma new_cache_inv:
  assumes "usable_config ways_ok (lmax_len m) (length (lcontents m)) cfg" "linv m h" "lpending m = None"
  shows "\<exists>c. GeneralCache_new R cfg = Inr c \<and> cinv c m h \<and> caller c = None \<and>
    view c (lcontents m) = lcontents m \<and> blk_bytes c = geo_block_size (cfg_geometry cfg) \<and>
    miss_penalty c = cfg_miss_penalty cfg"
proof -
  let ?g = "cfg_geometry cfg"
  let ?n = "geo_num_of_way ?g" and ?b = "geo_block_size ?g" and ?k = "geo_num_sets ?g"
  from assms(1) obtain t b w where g: "geometry_ok t b w ?g"
    by (auto simp: usable_config_def Let_def dest: CacheGeometry_new_sound)
  then have geo: "2 ^ geo_offset_bit_width ?g = ?b" "2 ^ geo_index_bit_width ?g = ?k"
    by (auto simp: geometry_ok_def)
  have u: "ways_ok ?n" "0 < geo_offset_bit_width ?g + geo_index_bit_width ?g"
    "geo_offset_bit_width ?g + geo_index_bit_width ?g < 32" "?b \<le> lmax_len m" "?b dvd length (lcontents m)"
    "length (lcontents m) \<le> 2 ^ 32" "cfg_write_policy cfg \<noteq> WriteBackNoWriteAllocate"
    "cfg_prefetcher_kind cfg = PrefetchNull"
    using assms(1) by (auto simp: usable_config_def Let_def)
  from sets_new_ok [OF pol.replacement_policy_axioms u(1)] obtain ss where
    ss: "sets_new R ?n ?b ?k = Inr ss" "length ss = ?k"
      "\<And>s. s \<in> set ss \<Longrightarrow> set_shape ?n ?b s \<and> rp_inv ?n (set_rp s) \<and> (\<forall>w. \<not> holds s w) \<and>
         dirty_array s = replicate ?n False" by blast
  define c where "c = \<lparr>offset_bit_width = geo_offset_bit_width ?g, index_bit_width = geo_index_bit_width ?g,
           cache_set = ss, fsm = Idle, pending_req = None, backup_req = None,
           miss_penalty = cfg_miss_penalty cfg, write_policy = cfg_write_policy cfg,
           prefetcher = PrefetcherKind_build (cfg_prefetcher_kind cfg) ?b,
           prefetch_queue = [], prefetch_in_flight = False, block_size_bytes = ?b,
           hpm = CacheStatistic_new (cfg_name cfg)\<rparr>"
  have new: "GeneralCache_new R cfg = Inr c"
    using ss(1) by (simp add: GeneralCache_new_def Let_def c_def)
  have bb: "blk_bytes c = ?b" "n_sets c = ?k" by (simp_all add: blk_bytes_def n_sets_def c_def geo)
  have set: "set_shape ?n ?b (cset c ix)" "rp_inv ?n (set_rp (cset c ix))" "\<not> holds (cset c ix) v"
    "dirty_array (cset c ix) = replicate ?n False" if "ix < n_sets c" for ix v
    using ss(3) [of "cset c ix"] that ss(2) bb by (auto simp: cset_def c_def)
  have co: "core rp_inv ?n c (length (lcontents m))"
    using set u bb ss(2)
    by (auto simp: core_def lines_ok_def widths_ok_def tags_distinct_def c_def [symmetric] bb)
      (auto simp: c_def)
  have idle: "fsm c = Idle" by (simp add: c_def)
  have ag: "agrees c (lcontents m)" and pt: "protects rp_valid c {}"
    using set(3) by (simp_all add: agrees_def protects_def)
  have none: "cline c k = None" for k
    using set(3) by (auto simp: cline_def find_way_None)
  have "view c (lcontents m) = lcontents m"
    by (intro nth_equalityI) (auto simp: view_def nth_overlay none)
  moreover have "cinv c m h"
    using assms(2,3) co core_ways [OF co] u(4) bb ag pt idle
    by (simp add: cached_inv_def Let_def state_ok_def caller_def)
  ultimately show ?thesis using new bb by (auto simp: caller_def c_def)
qed

text \<open>Accesses through a new cache.\<close>

lemma new_cache_run:
  assumes "usable_config ways_ok (lmax_len m) (length (lcontents m)) cfg" "linv m h" "lpending m = None"
    "list_all (op_ok (geo_block_size (cfg_geometry cfg)) (length (lcontents m))) ops"
    "3 * lmax_wait m + cfg_miss_penalty cfg + 12 \<le> fuel"
  shows "\<exists>c ds cm h'. GeneralCache_new R cfg = Inr c \<and>
    run_ops (cached_try_reg R ltry) (cached_tick R ltry ltick) fuel ops (c, m) h = Inr (Some (ds, cm, h')) \<and>
    flat_ops ops (lcontents m) = (ds, cached_contents lcontents cm)"
proof -
  from new_cache_inv [OF assms(1-3)] obtain c where c: "GeneralCache_new R cfg = Inr c" "cinv c m h"
    "caller c = None" "view c (lcontents m) = lcontents m" "blk_bytes c = geo_block_size (cfg_geometry cfg)"
    "miss_penalty c = cfg_miss_penalty cfg" by blast
  have x: "cached_contents lcontents (c, m) = lcontents m" using c(4) by (simp add: cached_contents_def)
  from cached.run_ops_flat [OF c(2), of ops fuel] c x assms(4,5) show ?thesis
    by (auto simp: cached_pending_def cached_max_len_def cached_max_wait_def tx_bound_def)
qed

end

subsection \<open>The hierarchies of the simulator\<close>

interpretation fifo_mem: cache_over SimpleMem_try_register_req SimpleMem_tick SimpleMem_inv
  sm_pending_req sm_data "\<lambda>_. {}" sm_stall_countdown "\<lambda>_. MAIN_MEM_LATENCY" "\<lambda>_. MEM_SIZE"
  fifo_ops "\<lambda>n. 0 < n" FifoRP_inv "\<lambda>s. bits_valid (ff_valid s)" ..

interpretation plru_mem: cache_over SimpleMem_try_register_req SimpleMem_tick SimpleMem_inv
  sm_pending_req sm_data "\<lambda>_. {}" sm_stall_countdown "\<lambda>_. MAIN_MEM_LATENCY" "\<lambda>_. MEM_SIZE"
  plru_ops is_power_of_two PseudoLruRP_inv "\<lambda>s. bits_valid (plru_valid s)" ..

interpretation fifo_dram: cache_over SimpleDram_try_register_req SimpleDram_tick SimpleDram_inv
  dram_pending_req dram_data "\<lambda>_. {}" dram_wait dram_max_wait "\<lambda>d. length (dram_data d)"
  fifo_ops "\<lambda>n. 0 < n" FifoRP_inv "\<lambda>s. bits_valid (ff_valid s)" ..

interpretation plru_dram: cache_over SimpleDram_try_register_req SimpleDram_tick SimpleDram_inv
  dram_pending_req dram_data "\<lambda>_. {}" dram_wait dram_max_wait "\<lambda>d. length (dram_data d)"
  plru_ops is_power_of_two PseudoLruRP_inv "\<lambda>s. bits_valid (plru_valid s)" ..

text \<open>A first-level cache over a second-level cache over the flat memory.\<close>

interpretation fifo_two_level: cache_over
  "cached_try_reg fifo_ops SimpleMem_try_register_req"
  "cached_tick fifo_ops SimpleMem_try_register_req SimpleMem_tick"
  "cached_inv SimpleMem_inv sm_pending_req sm_data (\<lambda>_. {}) (\<lambda>_. MEM_SIZE) FifoRP_inv
     (\<lambda>s. bits_valid (ff_valid s))"
  cached_pending "cached_contents sm_data" "cached_owns (\<lambda>_. {})"
  "cached_wait sm_pending_req sm_stall_countdown (\<lambda>_. MAIN_MEM_LATENCY)"
  "cached_max_wait (\<lambda>_. MAIN_MEM_LATENCY)" cached_max_len
  fifo_ops "\<lambda>n. 0 < n" FifoRP_inv "\<lambda>s. bits_valid (ff_valid s)" ..

lemma SimpleMem_new_inv:
  "length data \<le> MEM_SIZE \<Longrightarrow>
   SimpleMem_inv (SimpleMem_new data) h \<and> sm_pending_req (SimpleMem_new data) = None \<and>
   sm_data (SimpleMem_new data) = data"
  by (simp add: SimpleMem_inv_def SimpleMem_new_def)

text \<open>The freshly built hierarchy satisfies the invariant and shows the memory image.\<close>

lemma new_two_level:
  assumes "length data = MEM_SIZE"
    and "usable_config (\<lambda>n. 0 < n) MEM_SIZE MEM_SIZE cfg2"
    and "usable_config (\<lambda>n. 0 < n) (geo_block_size (cfg_geometry cfg2)) MEM_SIZE cfg1"
  shows "\<exists>l1 l2. GeneralCache_new fifo_ops cfg1 = Inr l1 \<and> GeneralCache_new fifo_ops cfg2 = Inr l2 \<and>
    fifo_two_level.cinv l1 (l2, SimpleMem_new data) [] \<and> caller l1 = None \<and>
    cached_contents (cached_contents sm_data) (l1, l2, SimpleMem_new data) = data \<and>
    blk_bytes l1 = geo_block_size (cfg_geometry cfg1) \<and>
    cached_max_wait (cached_max_wait (\<lambda>_. MAIN_MEM_LATENCY)) (l1, l2, SimpleMem_new data) =
      179 + 3 * cfg_miss_penalty cfg2 + cfg_miss_penalty cfg1"
proof -
  have m: "SimpleMem_inv (SimpleMem_new data) []" "sm_pending_req (SimpleMem_new data) = None"
    "sm_data (SimpleMem_new data) = data" using SimpleMem_new_inv [of data] assms(1) by auto
  from fifo_mem.new_cache_inv [OF _ m(1,2), of cfg2] assms(1,2) m(3) obtain l2 where
    l2: "GeneralCache_new fifo_ops cfg2 = Inr l2"
      "cached_inv SimpleMem_inv sm_pending_req sm_data (\<lambda>_. {}) (\<lambda>_. MEM_SIZE) FifoRP_inv
         (\<lambda>s. bits_valid (ff_valid s)) (l2, SimpleMem_new data) []"
      "caller l2 = None" "view l2 data = data" "blk_bytes l2 = geo_block_size (cfg_geometry cfg2)"
      "miss_penalty l2 = cfg_miss_penalty cfg2" by auto
  have x: "cached_contents sm_data (l2, SimpleMem_new data) = data"
    using l2(4) m(3) by (simp add: cached_contents_def)
  from fifo_two_level.new_cache_inv [OF _ l2(2), of cfg1] assms l2 x m(3) show ?thesis
    by (auto simp: cached_pending_def cached_max_len_def cached_max_wait_def tx_bound_def
        cached_contents_def MAIN_MEM_LATENCY_def)
qed


text \<open>The default second-level and first-level data caches.\<close>

definition default_l2_config :: GeneralCacheConfig where
  "default_l2_config =
     \<lparr>cfg_name = ''L2$'',
      cfg_geometry = \<lparr>geo_block_size = 64, geo_num_of_way = 4, geo_num_sets = 64,
        geo_offset_bit_width = 6, geo_index_bit_width = 6\<rparr>,
      cfg_miss_penalty = 10, cfg_write_policy = WriteBackWriteAllocate,
      cfg_prefetcher_kind = PrefetchNull\<rparr>"

definition default_l1d_config :: GeneralCacheConfig where
  "default_l1d_config =
     \<lparr>cfg_name = ''L1-D$'',
      cfg_geometry = \<lparr>geo_block_size = 32, geo_num_of_way = 2, geo_num_sets = 4,
        geo_offset_bit_width = 5, geo_index_bit_width = 2\<rparr>,
      cfg_miss_penalty = 2, cfg_write_policy = WriteBackWriteAllocate,
      cfg_prefetcher_kind = PrefetchNull\<rparr>"

lemma default_configs_usable:
  "usable_config (\<lambda>n. 0 < n) MEM_SIZE MEM_SIZE default_l2_config"
  "usable_config (\<lambda>n. 0 < n) 64 MEM_SIZE default_l1d_config"
proof -
  have "CacheGeometry_new 16384 64 4 = Inr (cfg_geometry default_l2_config)"
    "CacheGeometry_new 256 32 2 = Inr (cfg_geometry default_l1d_config)" 
    by (simp_all add: CacheGeometry_new_def usize_checked_mul_def small_powers ilog2.simps
        default_l2_config_def default_l1d_config_def)
  then show "usable_config (\<lambda>n. 0 < n) MEM_SIZE MEM_SIZE default_l2_config"
    "usable_config (\<lambda>n. 0 < n) 64 MEM_SIZE default_l1d_config"
    unfolding usable_config_def Let_def
    by (auto simp: MEM_SIZE_def default_l2_config_def default_l1d_config_def)
qed


text \<open>
  C5. The same transparency for a single cache with tree pseudo-LRU replacement over the DRAM
  controller, for all valid timings and power-of-two row sizes.
\<close>

theorem plru_dram_transparent:
  assumes "SimpleDram_inv dram []" "dram_pending_req dram = None"
    and "usable_config is_power_of_two (length (dram_data dram)) (length (dram_data dram)) cfg"
    and "list_all (op_ok (geo_block_size (cfg_geometry cfg)) (length (dram_data dram))) ops"
    and "3 * (t_rp (dram_timing dram) + t_rcd (dram_timing dram) + t_cl (dram_timing dram)) +
      cfg_miss_penalty cfg + 12 \<le> fuel"
  shows "\<exists>c ds hier h. GeneralCache_new plru_ops cfg = Inr c \<and>
    run_ops (cached_try_reg plru_ops SimpleDram_try_register_req)
      (cached_tick plru_ops SimpleDram_try_register_req SimpleDram_tick) fuel ops (c, dram) [] =
      Inr (Some (ds, hier, h)) \<and>
    flat_ops ops (dram_data dram) = (ds, cached_contents dram_data hier)"
  using plru_dram.new_cache_run [OF assms(3,1,2,4)] assms(5) by (simp add: dram_max_wait_def)

text \<open>A cache with one block of four bytes, without write-allocate, and a DRAM of twelve bytes.\<close>

definition wb_nwa_cache :: "FifoRP GeneralCache" where
  "wb_nwa_cache =
     \<lparr>offset_bit_width = 2, index_bit_width = 0,
      cache_set = [\<lparr>num_associativity = 1, bytes_per_block = 4, data_array = [0, 0, 0, 0],
        tag_array = [0], valid_array = [False], dirty_array = [False],
        set_rp = \<lparr>ff_valid = [False], ff_queue = []\<rparr>\<rparr>],
      fsm = Idle, pending_req = None, backup_req = None, miss_penalty = 0,
      write_policy = WriteBackNoWriteAllocate, prefetcher = NullPrefetcher, prefetch_queue = [],
      prefetch_in_flight = False, block_size_bytes = 4, hpm = CacheStatistic_new []\<rparr>"

definition tiny_dram :: SimpleDram where
  "tiny_dram = \<lparr>dram_data = replicate 12 0, dram_timing = \<lparr>t_rcd = 1, t_cl = 1, t_rp = 1\<rparr>,
     row_size_bytes = 16, dram_bank = Bank_new, dram_pending_req = None, required_activate = False,
     row_buffer_hit_cnt = 0, row_buffer_miss_cnt = 0\<rparr>"

definition wb_nwa_config :: GeneralCacheConfig where
  "wb_nwa_config =
     \<lparr>cfg_name = [], cfg_geometry = \<lparr>geo_block_size = 4, geo_num_of_way = 1, geo_num_sets = 1,
        geo_offset_bit_width = 2, geo_index_bit_width = 0\<rparr>,
      cfg_miss_penalty = 0, cfg_write_policy = WriteBackNoWriteAllocate,
      cfg_prefetcher_kind = PrefetchNull\<rparr>"

lemma wb_nwa_geometry: "CacheGeometry_new 4 4 1 = Inr (cfg_geometry wb_nwa_config)"
  using small_powers
  by (simp add: CacheGeometry_new_def usize_checked_mul_def ilog2.simps wb_nwa_config_def)

definition wb_nwa_ops :: "mem_op list" where
  "wb_nwa_ops = [LoadOp 0 4, StoreOp 0 [7], StoreOp 4 [8], LoadOp 8 4, LoadOp 0 1]"

theorem plru_dram_transparent_witness:
  "\<exists>c hier h. GeneralCache_new plru_ops (wb_nwa_config\<lparr>cfg_write_policy := WriteThroughNoWriteAllocate\<rparr>) = Inr c \<and>
    run_ops (cached_try_reg plru_ops SimpleDram_try_register_req)
      (cached_tick plru_ops SimpleDram_try_register_req SimpleDram_tick) 21 wb_nwa_ops (c, tiny_dram) [] =
      Inr (Some ([[0, 0, 0, 0], [], [], [0, 0, 0, 0], [7]], hier, h))"
proof -
  let ?cfg = "wb_nwa_config\<lparr>cfg_write_policy := WriteThroughNoWriteAllocate\<rparr>"
  have inv: "SimpleDram_inv tiny_dram []" "dram_pending_req tiny_dram = None"
    by (simp_all add: tiny_dram_def SimpleDram_inv_def dram_static_def Bank_new_def u32_of_usize_def)
  have "CacheGeometry_new 4 4 1 = Inr (cfg_geometry ?cfg)" using wb_nwa_geometry by simp
  then have us: "usable_config is_power_of_two (length (dram_data tiny_dram)) (length (dram_data tiny_dram)) ?cfg"
    using small_powers unfolding usable_config_def Let_def by (auto simp: wb_nwa_config_def tiny_dram_def)
  have ops: "list_all (op_ok (geo_block_size (cfg_geometry ?cfg)) (length (dram_data tiny_dram))) wb_nwa_ops"
    by code_simp
  have "fst (flat_ops wb_nwa_ops (dram_data tiny_dram)) = [[0, 0, 0, 0], [], [], [0, 0, 0, 0], [7]]"
    by code_simp
  with plru_dram_transparent [OF inv us ops, of 21] show ?thesis
    by (auto simp: tiny_dram_def wb_nwa_config_def)
qed

text \<open>
  C10. Write-back without write-allocate is not transparent.  The cache built from this accepted
  configuration loses a store: a store miss asks the replacement policy for a victim, which clears the
  policy's valid bit of the dirty block although the store goes around the cache; the next miss then
  takes that way as free and overwrites the dirty block without writing it back.
\<close>

theorem write_back_no_allocate_loses_store:
  "CacheGeometry_new 4 4 1 = Inr (cfg_geometry wb_nwa_config) \<and>
   GeneralCache_new fifo_ops wb_nwa_config = Inr wb_nwa_cache \<and>
   (case run_ops (cached_try_reg fifo_ops SimpleDram_try_register_req)
      (cached_tick fifo_ops SimpleDram_try_register_req SimpleDram_tick) 30 wb_nwa_ops
      (wb_nwa_cache, tiny_dram) [] of
      Inr (Some (ds, _, _)) \<Rightarrow> ds = [[0, 0, 0, 0], [], [], [0, 0, 0, 0], [0]] | _ \<Rightarrow> False) \<and>
   fst (flat_ops wb_nwa_ops (dram_data tiny_dram)) = [[0, 0, 0, 0], [], [], [0, 0, 0, 0], [7]]"
proof (intro conjI)
  show "CacheGeometry_new 4 4 1 = Inr (cfg_geometry wb_nwa_config)" by (rule wb_nwa_geometry)
  show "GeneralCache_new fifo_ops wb_nwa_config = Inr wb_nwa_cache"
    by (simp add: GeneralCache_new_def wb_nwa_config_def wb_nwa_cache_def SetUnit_new_def fifo_ops_def
        FifoRP_new_def Let_def numeral_eq_Suc)
  show "fst (flat_ops wb_nwa_ops (dram_data tiny_dram)) = [[0, 0, 0, 0], [], [], [0, 0, 0, 0], [7]]"
    by code_simp
qed code_simp

text \<open>The same cache with write-allocate and the next-line prefetcher.\<close>

definition next_line_config :: GeneralCacheConfig where
  "next_line_config = wb_nwa_config\<lparr>cfg_write_policy := WriteBackWriteAllocate, cfg_prefetcher_kind := PrefetchNextLine\<rparr>"

definition next_line_cache :: "FifoRP GeneralCache" where
  "next_line_cache = wb_nwa_cache\<lparr>write_policy := WriteBackWriteAllocate, prefetcher := NextLinePrefetcher 4\<rparr>"

lemma next_line_cache_new: "GeneralCache_new fifo_ops next_line_config = Inr next_line_cache"
  by (simp add: GeneralCache_new_def next_line_config_def next_line_cache_def wb_nwa_config_def wb_nwa_cache_def
      SetUnit_new_def fifo_ops_def FifoRP_new_def Let_def numeral_eq_Suc)




end
