(* ===== verification/Memory_Transaction.thy ===== *)
theory Memory_Transaction
  imports Uop Hierarchy
begin

text \<open>
  The memory-stage transaction (\<open>pipeline_processor/memory_access.rs\<close>): one load or store of the
  processor, sent to a memory, retried while the memory refuses it, awaited, and turned into the
  value a load writes back.  The memory is a parameter of the operations; the interface it has to
  satisfy is \<open>memory_device\<close>, and the results are stated for the data side of the hierarchy.
\<close>

datatype MemoryTransaction =
    MtIdle
  | MtSending MemoryReqType MemoryAccess
  | MtWaiting MemoryReqType MemoryAccess
  | MtComplete "u32 option"

datatype MemoryTransactionStatus = StPending | StComplete "u32 option"

definition request_for :: "MemoryAccess \<Rightarrow> cells \<Rightarrow> MemoryReqType \<times> cells" where
  "request_for access h =
     (case ma_store_value access of
        Some v \<Rightarrow> MemoryReqType_store (ma_addr access) (take (ma_len access) (to_le_bytes v)) h
      | None \<Rightarrow> MemoryReqType_load (ma_addr access) (ma_len access) h)"

definition mt_complete ::
  "MemoryReqType \<Rightarrow> MemoryAccess \<Rightarrow> cells \<Rightarrow> (MemoryTransactionStatus \<times> MemoryTransaction) res" where
  "mt_complete req access h =
     (if ma_is_load access then
        bindR (load_data req h) (\<lambda>d.
        bindR (loaded_value access d) (\<lambda>v.
        Inr (StComplete (Some v), MtComplete (Some v))))
      else Inr (StComplete None, MtComplete None))"

definition mt_send ::
  "'m lower \<Rightarrow> MemoryReqType \<Rightarrow> MemoryAccess \<Rightarrow> 'm \<Rightarrow> cells \<Rightarrow>
   (MemoryTransactionStatus \<times> MemoryTransaction \<times> 'm \<times> cells) res" where
  "mt_send try_reg req access m h =
     bindR (try_reg req m h) (\<lambda>(ok, m1, h1).
     if \<not> ok then Inr (StPending, MtSending req access, m1, h1)
     else if is_done req h1 then
       bindR (mt_complete req access h1) (\<lambda>(st, t). Inr (st, t, m1, h1))
     else Inr (StPending, MtWaiting req access, m1, h1))"

definition mt_progress ::
  "'m lower \<Rightarrow> MemoryTransaction \<Rightarrow> MemoryAccess \<Rightarrow> 'm \<Rightarrow> cells \<Rightarrow>
   (MemoryTransactionStatus \<times> MemoryTransaction \<times> 'm \<times> cells) res" where
  "mt_progress try_reg t access m h =
     (case t of
        MtIdle \<Rightarrow> (let (req, h1) = request_for access h in mt_send try_reg req access m h1)
      | MtSending req access \<Rightarrow> mt_send try_reg req access m h
      | MtWaiting req access \<Rightarrow>
          (if is_done req h then
             bindR (mt_complete req access h) (\<lambda>(st, t1). Inr (st, t1, m, h))
           else Inr (StPending, t, m, h))
      | MtComplete v \<Rightarrow> Inr (StComplete v, t, m, h))"

definition mt_reset :: "MemoryTransaction \<Rightarrow> MemoryTransaction" where
  "mt_reset t = MtIdle"

subsection \<open>A transaction run to completion\<close>

text \<open>The memory stage, cycle by cycle: progress the transaction, then clock the memory.\<close>

fun run_transaction ::
  "'m lower \<Rightarrow> ('m \<Rightarrow> cells \<Rightarrow> ('m \<times> cells) res) \<Rightarrow> nat \<Rightarrow> MemoryTransaction \<Rightarrow> MemoryAccess \<Rightarrow> 'm \<Rightarrow> cells \<Rightarrow>
   (u32 option \<times> 'm \<times> cells) option res" where
  "run_transaction try_reg tk 0 t access m h = Inr None"
| "run_transaction try_reg tk (Suc n) t access m h =
     bindR (mt_progress try_reg t access m h) (\<lambda>(st, t1, m1, h1).
     case st of
       StComplete v \<Rightarrow> Inr (Some (v, m1, h1))
     | StPending \<Rightarrow> bindR (tk m1 h1) (\<lambda>(m2, h2). run_transaction try_reg tk n t1 access m2 h2))"

text \<open>One access after the other, each from a reset transaction.\<close>

fun run_accesses ::
  "'m lower \<Rightarrow> ('m \<Rightarrow> cells \<Rightarrow> ('m \<times> cells) res) \<Rightarrow> nat \<Rightarrow> MemoryAccess list \<Rightarrow> 'm \<Rightarrow> cells \<Rightarrow>
   (u32 option list \<times> 'm \<times> cells) option res" where
  "run_accesses try_reg tk n [] m h = Inr (Some ([], m, h))"
| "run_accesses try_reg tk n (a # as) m h =
     bindR (run_transaction try_reg tk n MtIdle a m h) (\<lambda>res.
     case res of None \<Rightarrow> Inr None
     | Some (v, m1, h1) \<Rightarrow>
         bindR (run_accesses try_reg tk n as m1 h1) (\<lambda>res2.
         case res2 of None \<Rightarrow> Inr None
         | Some (vs, m2, h2) \<Rightarrow> Inr (Some (v # vs, m2, h2))))"

text \<open>The access on a flat byte array: the value a load delivers, and the bytes afterwards.\<close>

definition flat_value :: "MemoryAccess \<Rightarrow> u8 list \<Rightarrow> u32 option" where
  "flat_value a X =
     (case a of
        MaLoad addr w e \<Rightarrow>
          (case loaded_value a (seg (unat addr) (width_len w) X) of Inr v \<Rightarrow> Some v | Inl _ \<Rightarrow> None)
      | MaStore _ _ _ \<Rightarrow> None)"

fun flat_store :: "MemoryAccess \<Rightarrow> u8 list \<Rightarrow> u8 list" where
  "flat_store (MaLoad _ _ _) X = X"
| "flat_store (MaStore addr w v) X = put_seg (unat addr) (take (width_len w) (to_le_bytes v)) X"

fun flat_accesses :: "MemoryAccess list \<Rightarrow> u8 list \<Rightarrow> u32 option list \<times> u8 list" where
  "flat_accesses [] X = ([], X)"
| "flat_accesses (a # as) X =
     (let (vs, Y) = flat_accesses as (flat_store a X) in (flat_value a X # vs, Y))"

definition access_ok :: "nat \<Rightarrow> nat \<Rightarrow> MemoryAccess \<Rightarrow> bool" where
  "access_ok ml sz a \<longleftrightarrow>
     ma_len a \<le> ml \<and> ma_len a dvd unat (ma_addr a) \<and> unat (ma_addr a) + ma_len a \<le> sz"

lemma ma_len_cases: "ma_len a = 1 \<or> ma_len a = 2 \<or> ma_len a = 4"
proof (cases a)
  case (MaLoad a w e)
  then show ?thesis by (cases w) simp_all
next
  case (MaStore a w v)
  then show ?thesis by (cases w) simp_all
qed

lemma is_power_of_two_ma_len: "is_power_of_two (ma_len a)"
  using ma_len_cases [of a] by (auto simp: is_power_of_two_def)

lemma width_len_le: "width_len w \<le> 4"
  by (cases w) simp_all

lemma loaded_value_total: "length d = width_len w \<Longrightarrow> \<exists>v. loaded_value (MaLoad a w e) d = Inr v"
  by (simp add: Let_def)

lemma request_for_spec:
  assumes "request_for a h = (r, h0)" "access_ok ml sz a"
  shows "fresh_req r h0" "req_cell_id r = length h" "admissible ml sz r" "\<exists>c. h0 = h @ [c]"
    "apply_req r X = flat_store a X"
    "ma_is_load a \<longleftrightarrow> \<not> is_store r" "get_addr r = ma_addr a" "get_len r = ma_len a"
proof -
  have w: "min 4 (width_len w) = width_len w" for w using width_len_le [of w] by simp
  show "fresh_req r h0" "req_cell_id r = length h" "admissible ml sz r" "\<exists>c. h0 = h @ [c]"
    "apply_req r X = flat_store a X"
    "ma_is_load a \<longleftrightarrow> \<not> is_store r" "get_addr r = ma_addr a" "get_len r = ma_len a"
    using assms is_power_of_two_ma_len [of a]
    by (cases a; auto simp: request_for_def MemoryReqType_load_def MemoryLoadReq_new_def w
        MemoryReqType_store_def MemoryStoreReq_new_def admissible_def access_ok_def)+
qed

text \<open>What completing a served request yields.\<close>

lemma mt_complete_flat:
  assumes "request_for a h = (r, h0)" "access_ok ml (length X) a"
    and "h' ! req_cell_id r = completed_cell r X c"
  shows "mt_complete r a h' = Inr (StComplete (flat_value a X), MtComplete (flat_value a X))"
proof (cases a)
  case (MaLoad addr w e)
  then obtain q where q: "r = LoadReq q" "lr_addr q = addr" "lr_len q = width_len w"
    using assms(1) by (auto simp: request_for_def MemoryReqType_load_def MemoryLoadReq_new_def)
  have len: "length (seg (unat addr) (width_len w) X) = width_len w"
    using assms(2) MaLoad by (auto simp: access_ok_def)
  from loaded_value_total [OF this] obtain v where
    v: "loaded_value (MaLoad addr w e) (seg (unat addr) (width_len w) X) = Inr v" by blast
  have "load_data r h' = Inr (seg (unat addr) (width_len w) X)"
    using assms(3) q by (simp add: load_data_def MemoryLoadReq_data_def)
  with v show ?thesis using MaLoad
    by (simp add: mt_complete_def flat_value_def del: loaded_value.simps)
next
  case (MaStore addr w v)
  then show ?thesis by (simp add: mt_complete_def flat_value_def)
qed

context memory_device
begin

lemma waiting_completes:
  assumes "request_for a h = (r, h0)" "access_ok ml (length X) a"
  shows "inv m h1 \<Longrightarrow> pending m = Some r \<Longrightarrow> fresh_req r h1 \<Longrightarrow>
   contents m = X \<or> contents m = apply_req r X \<Longrightarrow> h1 ! req_cell_id r = h0 ! req_cell_id r \<Longrightarrow>
   apply_req r (apply_req r X) = apply_req r X \<Longrightarrow> Suc (Suc (wait m)) \<le> n \<Longrightarrow>
   \<exists>m' h'. run_transaction try_reg dev_tick n (MtWaiting r a) a m h1 = Inr (Some (flat_value a X, m', h')) \<and>
     inv m' h' \<and> pending m' = None \<and> contents m' = apply_req r X \<and>
     max_len m' = max_len m \<and> max_wait m' = max_wait m"
proof (induction n arbitrary: m h1)
  case 0
  then show ?case by simp
next
  case (Suc n)
  have nd: "\<not> is_done r h1" by (rule fresh_req_not_done [OF Suc.prems(3)])
  from tick_busy [OF Suc.prems(1,2)] obtain m1 h2 where
    t: "dev_tick m h1 = Inr (m1, h2)" "inv m1 h2" "serves pending contents owns r m h1 m1 h2"
      "pending m1 = Some r \<longrightarrow> wait m1 < wait m" "max_len m1 = max_len m" "max_wait m1 = max_wait m" by blast
  have cc: "completed_cell r (contents m) c = completed_cell r X c" for c
    using Suc.prems(4) by (cases r) auto
  have ap: "apply_req r (contents m) = apply_req r X" using Suc.prems(4,6) by auto
  show ?case
  proof (cases "pending m1")
    case None
    with t(3) have d: "contents m1 = apply_req r X"
      "h2 ! req_cell_id r = completed_cell r X (h0 ! req_cell_id r)"
      using cc ap Suc.prems(5) by (auto simp: serves_def)
    obtain k where k: "n = Suc k" using Suc.prems(7) by (cases n) auto
    have "is_done r h2" using d(2) by (simp add: is_done_cell)
    with mt_complete_flat [OF assms d(2)] nd t(1,2,5,6) None d(1) k show ?thesis
      by (simp add: mt_progress_def)
  next
    case (Some q)
    with t(3) have q: "pending m1 = Some r" "h2 ! req_cell_id r = h0 ! req_cell_id r"
      "contents m1 = X \<or> contents m1 = apply_req r X"
      using ap Suc.prems(4,5) by (auto simp: serves_def)
    have f: "fresh_req r h2" using inv_pending [OF t(2) q(1)] by blast
    have "Suc (Suc (wait m1)) \<le> n" using t(4) q(1) Suc.prems(7) by simp
    from Suc.IH [OF t(2) q(1) f q(3,2) Suc.prems(6) this] nd t(1,5,6) show ?thesis
      by (auto simp: mt_progress_def)
  qed
qed

lemma run_transaction_flat:
  assumes "inv m h" "pending m = None" "access_ok (max_len m) (length (contents m)) a"
    and fuel: "max_wait m + 3 \<le> n"
  shows "\<exists>m' h'. run_transaction try_reg dev_tick n MtIdle a m h =
      Inr (Some (flat_value a (contents m), m', h')) \<and> inv m' h' \<and> pending m' = None \<and>
      contents m' = flat_store a (contents m) \<and> length (contents m') = length (contents m) \<and>
      max_len m' = max_len m \<and> max_wait m' = max_wait m"
proof -
  obtain r h0 where r: "request_for a h = (r, h0)" by fastforce
  note s = request_for_spec [OF r assms(3)]
  obtain cell where h0: "h0 = h @ [cell]" using s(4) by blast
  have inv0: "inv m h0"
    by (rule inv_frame [OF assms(1)]) (use inv_owns [OF assms(1)] assms(2) h0 in \<open>auto simp: nth_append\<close>)
  have own: "req_cell_id r \<notin> owns m" using inv_owns [OF assms(1)] s(2) by auto
  from try_reg_free [OF inv0 assms(2) s(3,1) own] obtain m1 h1 where
    t: "try_reg r m h0 = Inr (True, m1, h1)" "inv m1 h1" "serves pending contents owns r m h0 m1 h1"
      "max_wait m1 = max_wait m" "max_len m1 = max_len m" by blast
  have len: "length (flat_store a (contents m)) = length (contents m)"
    using apply_req_length [OF s(1,3)] s(5) by simp
  obtain k where k: "n = Suc k" using fuel by (cases n) auto
  show ?thesis
  proof (cases "pending m1")
    case None
    with t(3) have d: "contents m1 = apply_req r (contents m)"
      "h1 ! req_cell_id r = completed_cell r (contents m) (h0 ! req_cell_id r)"
      by (auto simp: serves_def)
    then have "is_done r h1" by (simp add: is_done_cell)
    with mt_complete_flat [OF r assms(3) d(2)] t(1,2,4,5) None d(1) s(5) r k len show ?thesis
      by (simp add: mt_progress_def mt_send_def)
  next
    case (Some q)
    with t(3) have q: "pending m1 = Some r" "h1 ! req_cell_id r = h0 ! req_cell_id r"
      "contents m1 = contents m \<or> contents m1 = apply_req r (contents m)"
      by (auto simp: serves_def)
    have f: "fresh_req r h1" using inv_pending [OF t(2) q(1)] by blast
    have idem: "apply_req r (apply_req r (contents m)) = apply_req r (contents m)"
      by (rule apply_req_idem [OF s(1,3)])
    have nd: "\<not> is_done r h1" by (rule fresh_req_not_done [OF f])
    from tick_busy [OF t(2) q(1)] have "wait m1 \<le> max_wait m" using wait_bound [OF t(2)] t(4) by simp
    then have "Suc (Suc (wait m1)) \<le> n" using fuel by simp
    from waiting_completes [OF r assms(3) t(2) q(1) f q(3,2) idem this]
    have w: "\<exists>m' h'. run_transaction try_reg dev_tick n (MtWaiting r a) a m1 h1 =
        Inr (Some (flat_value a (contents m), m', h')) \<and> inv m' h' \<and> pending m' = None \<and>
        contents m' = apply_req r (contents m) \<and> max_len m' = max_len m1 \<and> max_wait m' = max_wait m1" .
    have "run_transaction try_reg dev_tick n MtIdle a m h =
        run_transaction try_reg dev_tick n (MtWaiting r a) a m1 h1"
      using r t(1) nd k by (simp add: mt_progress_def mt_send_def)
    with w s(5) len t(4,5) show ?thesis by fastforce
  qed
qed

lemma run_accesses_flat:
  "inv m h \<Longrightarrow> pending m = None \<Longrightarrow> list_all (access_ok (max_len m) (length (contents m))) as \<Longrightarrow>
   max_wait m + 3 \<le> n \<Longrightarrow>
   \<exists>vs m' h'. run_accesses try_reg dev_tick n as m h = Inr (Some (vs, m', h')) \<and>
     flat_accesses as (contents m) = (vs, contents m')"
proof (induction as arbitrary: m h)
  case Nil
  then show ?case by simp
next
  case (Cons a as)
  then obtain m1 h1 where s: "run_transaction try_reg dev_tick n MtIdle a m h =
      Inr (Some (flat_value a (contents m), m1, h1))" "inv m1 h1" "pending m1 = None"
    "contents m1 = flat_store a (contents m)" "length (contents m1) = length (contents m)"
    "max_len m1 = max_len m" "max_wait m1 = max_wait m"
    using run_transaction_flat [of m h a n] by auto
  from Cons.IH [OF s(2,3)] Cons.prems(3,4) s(5-7) obtain vs m' h' where
    "run_accesses try_reg dev_tick n as m1 h1 = Inr (Some (vs, m', h'))"
    "flat_accesses as (contents m1) = (vs, contents m')" by auto
  with s(1,4) show ?case by auto
qed

end

text \<open>
  The memory stage over the data side of the hierarchy: through a new L1 data cache over a new
  L2 cache over main memory, any sequence of naturally aligned loads and stores of any width, each
  driven by a reset transaction that is progressed once per cycle, completes within a cycle bound
  per access without a panic; every load delivers the sign- or zero-extended value of the bytes of
  a flat memory at that point of the sequence, and the hierarchy ends up showing that memory.
\<close>

lemma memory_stage_two_level:
  assumes "length data = MEM_SIZE"
    and "usable_config (\<lambda>n. 0 < n) MEM_SIZE MEM_SIZE cfg2"
    and "usable_config (\<lambda>n. 0 < n) (geo_block_size (cfg_geometry cfg2)) MEM_SIZE cfg1"
    and "list_all (access_ok (geo_block_size (cfg_geometry cfg1)) MEM_SIZE) accesses"
    and "182 + 3 * cfg_miss_penalty cfg2 + cfg_miss_penalty cfg1 \<le> n"
  shows "\<exists>l1 l2 vs hier h. GeneralCache_new fifo_ops cfg1 = Inr l1 \<and> GeneralCache_new fifo_ops cfg2 = Inr l2 \<and>
    run_accesses (cached_try_reg fifo_ops (cached_try_reg fifo_ops SimpleMem_try_register_req))
      (cached_tick fifo_ops (cached_try_reg fifo_ops SimpleMem_try_register_req)
        (cached_tick fifo_ops SimpleMem_try_register_req SimpleMem_tick))
      n accesses (l1, l2, SimpleMem_new data) [] = Inr (Some (vs, hier, h)) \<and>
    flat_accesses accesses data = (vs, cached_contents (cached_contents sm_data) hier)"
proof -
  from new_two_level [OF assms(1-3)] obtain l1 l2 where
    new: "GeneralCache_new fifo_ops cfg1 = Inr l1" "GeneralCache_new fifo_ops cfg2 = Inr l2"
      "fifo_two_level.cinv l1 (l2, SimpleMem_new data) []" "caller l1 = None"
      "cached_contents (cached_contents sm_data) (l1, l2, SimpleMem_new data) = data"
      "blk_bytes l1 = geo_block_size (cfg_geometry cfg1)"
      "cached_max_wait (cached_max_wait (\<lambda>_. MAIN_MEM_LATENCY)) (l1, l2, SimpleMem_new data) =
         179 + 3 * cfg_miss_penalty cfg2 + cfg_miss_penalty cfg1" by blast
  from fifo_two_level.cached.run_accesses_flat [OF new(3), of accesses n] new assms(1,4,5) show ?thesis
    by (auto simp: cached_pending_def cached_max_len_def)
qed

end
