(* ===== verification/Decode_Execute.thy ===== *)
theory Decode_Execute
  imports Uop "HOL-Library.Signed_Division"
begin

text \<open>
  Instruction decode and execute logic of the pipeline (\<^verbatim>\<open>pipeline_processor/decode.rs\<close>,
  \<^verbatim>\<open>pipeline_processor/execute.rs\<close>): operand selection, the RV32IM ALU, multiply/divide stall cycles
  and branch conditions.  The ALU is compared with the integer semantics of the instruction set.
\<close>

subsection \<open>Decode\<close>

datatype DecodeError = DecodeIllegalInstruction u32 u32 | DecodeUnsupportedFence u32

fun alu_op_type :: "Instruction \<Rightarrow> AluOpTypes option" where
  "alu_op_type (Instruction.Add _) = Some Add"
| "alu_op_type (Addi _) = Some Add"
| "alu_op_type (Instruction.Sub _) = Some Sub"
| "alu_op_type (Instruction.Sll _) = Some Sll"
| "alu_op_type (Slli _) = Some Sll"
| "alu_op_type (Instruction.Slt _) = Some Slt"
| "alu_op_type (Slti _) = Some Slt"
| "alu_op_type (Instruction.Sltu _) = Some Sltu"
| "alu_op_type (Sltiu _) = Some Sltu"
| "alu_op_type (Instruction.Xor _) = Some Xor"
| "alu_op_type (Xori _) = Some Xor"
| "alu_op_type (Instruction.Srl _) = Some Srl"
| "alu_op_type (Srli _) = Some Srl"
| "alu_op_type (Instruction.Sra _) = Some Sra"
| "alu_op_type (Srai _) = Some Sra"
| "alu_op_type (Instruction.Or _) = Some Or"
| "alu_op_type (Ori _) = Some Or"
| "alu_op_type (Instruction.And _) = Some And"
| "alu_op_type (Andi _) = Some And"
| "alu_op_type (Instruction.Mul _) = Some Mul"
| "alu_op_type (Instruction.Mulh _) = Some Mulh"
| "alu_op_type (Instruction.Mulhu _) = Some Mulhu"
| "alu_op_type (Instruction.Mulhsu _) = Some Mulhsu"
| "alu_op_type (Instruction.Div _) = Some Div"
| "alu_op_type (Instruction.Divu _) = Some Divu"
| "alu_op_type (Instruction.Rem _) = Some Rem"
| "alu_op_type (Instruction.Remu _) = Some Remu"
| "alu_op_type _ = None"

text \<open>
  The arms of the \<open>match\<close> in \<open>decode\<close>.  The register file is an array of 32 words and register
  fields have five bits, so that indexing it cannot panic.
\<close>

definition read_reg :: "u32 list \<Rightarrow> u8 \<Rightarrow> (u8 \<times> u32) option" where
  "read_reg regs i = Some (i, regs ! unat i)"

definition decode_r_arm :: "u32 list \<Rightarrow> PreDecodeMicroOp \<Rightarrow> RType \<Rightarrow> PreDecodeMicroOp" where
  "decode_r_arm regs op inst =
     op\<lparr>op_rs1 := read_reg regs (RType_rs1 inst), op_rs2 := read_reg regs (RType_rs2 inst),
        op_rd_index := Some (RType_rd inst), op_alu_result_as_rd_dst_value := True,
        op_alu_op1_sel := RegRs1, op_alu_op2_sel := RegRs2\<rparr>"

definition decode_i_arm :: "u32 list \<Rightarrow> PreDecodeMicroOp \<Rightarrow> IType \<Rightarrow> PreDecodeMicroOp" where
  "decode_i_arm regs op inst =
     op\<lparr>op_rs1 := read_reg regs (IType_rs1 inst), op_immediate_signext := IType_imm_sign_ext inst,
        op_rd_index := Some (IType_rd inst), op_alu_op1_sel := RegRs1,
        op_alu_op2_sel := ImmSignExt, op_alu_result_as_rd_dst_value := True\<rparr>"

definition decode_load_arm :: "u32 list \<Rightarrow> PreDecodeMicroOp \<Rightarrow> IType \<Rightarrow> PreDecodeMicroOp" where
  "decode_load_arm regs op inst =
     op\<lparr>op_rs1 := read_reg regs (IType_rs1 inst), op_immediate_signext := IType_imm_sign_ext inst,
        op_rd_index := Some (IType_rd inst), op_alu_op1_sel := RegRs1,
        op_alu_op2_sel := ImmSignExt, op_alu_op_type := Add\<rparr>"

definition decode_store_arm :: "u32 list \<Rightarrow> PreDecodeMicroOp \<Rightarrow> SType \<Rightarrow> PreDecodeMicroOp" where
  "decode_store_arm regs op inst =
     op\<lparr>op_rs1 := read_reg regs (SType_rs1 inst), op_rs2 := read_reg regs (SType_rs2 inst),
        op_immediate_signext := SType_sign_ext inst, op_alu_op1_sel := RegRs1,
        op_alu_op2_sel := ImmSignExt, op_alu_op_type := Add\<rparr>"

definition decode_branch_arm :: "u32 list \<Rightarrow> PreDecodeMicroOp \<Rightarrow> BType \<Rightarrow> PreDecodeMicroOp" where
  "decode_branch_arm regs op inst =
     op\<lparr>op_rs1 := read_reg regs (BType_rs1 inst), op_rs2 := read_reg regs (BType_rs2 inst),
        op_immediate_signext := BType_sign_ext inst, op_alu_op1_sel := CurrentPc,
        op_alu_op2_sel := ImmSignExt, op_alu_op_type := Add\<rparr>"

definition decode_jal_arm :: "PreDecodeMicroOp \<Rightarrow> JType \<Rightarrow> PreDecodeMicroOp" where
  "decode_jal_arm op inst =
     op\<lparr>op_immediate_signext := JType_sign_ext inst, op_rd_index := Some (JType_rd inst),
        op_rd_write_value := Some (op_pc op + 4), op_alu_op1_sel := CurrentPc,
        op_alu_op2_sel := ImmSignExt, op_alu_op_type := Add\<rparr>"

definition decode_jalr_arm :: "u32 list \<Rightarrow> PreDecodeMicroOp \<Rightarrow> IType \<Rightarrow> PreDecodeMicroOp" where
  "decode_jalr_arm regs op inst =
     op\<lparr>op_rs1 := read_reg regs (IType_rs1 inst), op_rd_index := Some (IType_rd inst),
        op_rd_write_value := Some (op_pc op + 4), op_immediate_signext := IType_imm_sign_ext inst,
        op_alu_op1_sel := RegRs1, op_alu_op2_sel := ImmSignExt, op_alu_op_type := Add\<rparr>"

definition decode_u_arm :: "AluOpOneSelect \<Rightarrow> PreDecodeMicroOp \<Rightarrow> UType \<Rightarrow> PreDecodeMicroOp" where
  "decode_u_arm sel op inst =
     op\<lparr>op_rd_index := Some (UType_rd inst), op_immediate_signext := UType_sign_ext inst,
        op_alu_op1_sel := sel, op_alu_op2_sel := ImmSignExt, op_alu_op_type := Add,
        op_alu_result_as_rd_dst_value := True\<rparr>"

definition decode_match ::
  "PreDecodeMicroOp \<Rightarrow> u32 list \<Rightarrow> DecodeError + PreDecodeMicroOp" where
  "decode_match op regs =
     (case op_inst op of
        Instruction.Add i \<Rightarrow> Inr (decode_r_arm regs op i)
      | Instruction.Sub i \<Rightarrow> Inr (decode_r_arm regs op i)
      | Instruction.Sll i \<Rightarrow> Inr (decode_r_arm regs op i)
      | Instruction.Slt i \<Rightarrow> Inr (decode_r_arm regs op i)
      | Instruction.Sltu i \<Rightarrow> Inr (decode_r_arm regs op i)
      | Instruction.Xor i \<Rightarrow> Inr (decode_r_arm regs op i)
      | Instruction.Srl i \<Rightarrow> Inr (decode_r_arm regs op i)
      | Instruction.Sra i \<Rightarrow> Inr (decode_r_arm regs op i)
      | Instruction.Or i \<Rightarrow> Inr (decode_r_arm regs op i)
      | Instruction.And i \<Rightarrow> Inr (decode_r_arm regs op i)
      | Instruction.Mul i \<Rightarrow> Inr (decode_r_arm regs op i)
      | Instruction.Mulh i \<Rightarrow> Inr (decode_r_arm regs op i)
      | Instruction.Mulhu i \<Rightarrow> Inr (decode_r_arm regs op i)
      | Instruction.Mulhsu i \<Rightarrow> Inr (decode_r_arm regs op i)
      | Instruction.Div i \<Rightarrow> Inr (decode_r_arm regs op i)
      | Instruction.Divu i \<Rightarrow> Inr (decode_r_arm regs op i)
      | Instruction.Rem i \<Rightarrow> Inr (decode_r_arm regs op i)
      | Instruction.Remu i \<Rightarrow> Inr (decode_r_arm regs op i)
      | Addi i \<Rightarrow> Inr (decode_i_arm regs op i)
      | Slti i \<Rightarrow> Inr (decode_i_arm regs op i)
      | Sltiu i \<Rightarrow> Inr (decode_i_arm regs op i)
      | Xori i \<Rightarrow> Inr (decode_i_arm regs op i)
      | Ori i \<Rightarrow> Inr (decode_i_arm regs op i)
      | Andi i \<Rightarrow> Inr (decode_i_arm regs op i)
      | Slli i \<Rightarrow> Inr (decode_i_arm regs op i)
      | Srli i \<Rightarrow> Inr (decode_i_arm regs op i)
      | Srai i \<Rightarrow> Inr (decode_i_arm regs op i)
      | Lb i \<Rightarrow> Inr (decode_load_arm regs op i)
      | Lh i \<Rightarrow> Inr (decode_load_arm regs op i)
      | Lw i \<Rightarrow> Inr (decode_load_arm regs op i)
      | Lbu i \<Rightarrow> Inr (decode_load_arm regs op i)
      | Lhu i \<Rightarrow> Inr (decode_load_arm regs op i)
      | Sb i \<Rightarrow> Inr (decode_store_arm regs op i)
      | Sh i \<Rightarrow> Inr (decode_store_arm regs op i)
      | Sw i \<Rightarrow> Inr (decode_store_arm regs op i)
      | Beq i \<Rightarrow> Inr (decode_branch_arm regs op i)
      | Bne i \<Rightarrow> Inr (decode_branch_arm regs op i)
      | Blt i \<Rightarrow> Inr (decode_branch_arm regs op i)
      | Bge i \<Rightarrow> Inr (decode_branch_arm regs op i)
      | Bltu i \<Rightarrow> Inr (decode_branch_arm regs op i)
      | Bgeu i \<Rightarrow> Inr (decode_branch_arm regs op i)
      | Instruction.Jal i \<Rightarrow> Inr (decode_jal_arm op i)
      | Instruction.Jalr i \<Rightarrow> Inr (decode_jalr_arm regs op i)
      | Instruction.Lui i \<Rightarrow> Inr (decode_u_arm Zero op i)
      | Instruction.Auipc i \<Rightarrow> Inr (decode_u_arm CurrentPc op i)
      | Fence i \<Rightarrow> Inl (DecodeUnsupportedFence (op_pc op))
      | Ecall i \<Rightarrow> Inr op
      | Illegal raw_inst \<Rightarrow> Inl (DecodeIllegalInstruction raw_inst (op_pc op)))"

definition decode :: "PreDecodeMicroOp \<Rightarrow> u32 list \<Rightarrow> DecodeError + PreDecodeMicroOp" where
  "decode op regs =
     (case decode_match op regs of
        Inl e \<Rightarrow> Inl e
      | Inr op' \<Rightarrow>
          Inr (case alu_op_type (op_inst op') of
                 Some t \<Rightarrow> op'\<lparr>op_alu_op_type := t\<rparr>
               | None \<Rightarrow> op'))"

subsection \<open>Execute\<close>

definition MUL_STALL :: nat where "MUL_STALL = 8"
definition DIV_REM_STALL :: nat where "DIV_REM_STALL = 32"

fun m_extension_stall :: "Instruction \<Rightarrow> nat option" where
  "m_extension_stall (Instruction.Mul _) = Some MUL_STALL"
| "m_extension_stall (Instruction.Mulh _) = Some MUL_STALL"
| "m_extension_stall (Instruction.Mulhu _) = Some MUL_STALL"
| "m_extension_stall (Instruction.Mulhsu _) = Some MUL_STALL"
| "m_extension_stall (Instruction.Div _) = Some DIV_REM_STALL"
| "m_extension_stall (Instruction.Divu _) = Some DIV_REM_STALL"
| "m_extension_stall (Instruction.Rem _) = Some DIV_REM_STALL"
| "m_extension_stall (Instruction.Remu _) = Some DIV_REM_STALL"
| "m_extension_stall _ = None"

definition alu_operands :: "PreDecodeMicroOp \<Rightarrow> (u32 \<times> u32) res" where
  "alu_operands op =
     bindR (case op_alu_op1_sel op of
              RegRs1 \<Rightarrow> bindR (unwrapR MissingRs1 (op_rs1 op)) (\<lambda>r. Inr (snd r))
            | CurrentPc \<Rightarrow> Inr (op_pc op)
            | Zero \<Rightarrow> Inr 0)
       (\<lambda>op1. bindR (case op_alu_op2_sel op of
                       RegRs2 \<Rightarrow> bindR (unwrapR MissingRs2 (op_rs2 op)) (\<lambda>r. Inr (snd r))
                     | ImmSignExt \<Rightarrow> Inr (op_immediate_signext op))
         (\<lambda>op2. Inr (op1, op2)))"

text \<open>
  \<open>as i64\<close> on an \<open>i32\<close> sign-extends, on a \<open>u32\<close> zero-extends; \<open>as u32\<close> truncates; division of
  \<open>i64\<close> truncates towards zero.
\<close>

definition i64_of_i32 :: "u32 \<Rightarrow> u64" where "i64_of_i32 w = scast w"
definition u64_of_u32 :: "u32 \<Rightarrow> u64" where "u64_of_u32 w = ucast w"
definition i64_div :: "u64 \<Rightarrow> u64 \<Rightarrow> u64" where
  "i64_div a b = word_of_int (sint a sdiv sint b)"
definition i32_wrapping_rem :: "u32 \<Rightarrow> u32 \<Rightarrow> u32" where
  "i32_wrapping_rem a b = word_of_int (sint a smod sint b)"

fun alu_result :: "AluOpTypes \<Rightarrow> u32 \<Rightarrow> u32 \<Rightarrow> u32" where
  "alu_result Add op1 op2 = op1 + op2"
| "alu_result Sub op1 op2 = op1 - op2"
| "alu_result Sll op1 op2 = push_bit (unat (op2 AND 0x1f)) op1"
| "alu_result Slt op1 op2 = (if sint op1 < sint op2 then 1 else 0)"
| "alu_result Sltu op1 op2 = (if op1 < op2 then 1 else 0)"
| "alu_result Xor op1 op2 = op1 XOR op2"
| "alu_result Srl op1 op2 = drop_bit (unat (op2 AND 0x1f)) op1"
| "alu_result Sra op1 op2 = signed_drop_bit (unat (op2 AND 0x1f)) op1"
| "alu_result Or op1 op2 = op1 OR op2"
| "alu_result And op1 op2 = op1 AND op2"
| "alu_result Mul op1 op2 = ucast (i64_of_i32 op1 * i64_of_i32 op2)"
| "alu_result Mulh op1 op2 = ucast (signed_drop_bit 32 (i64_of_i32 op1 * i64_of_i32 op2))"
| "alu_result Mulhu op1 op2 = ucast (drop_bit 32 (u64_of_u32 op1 * u64_of_u32 op2))"
| "alu_result Mulhsu op1 op2 = ucast (signed_drop_bit 32 (i64_of_i32 op1 * u64_of_u32 op2))"
| "alu_result Div op1 op2 =
     (if op2 \<noteq> 0 then ucast (i64_div (i64_of_i32 op1) (i64_of_i32 op2)) else 0xffffffff)"
| "alu_result Divu op1 op2 =
     (if op2 \<noteq> 0 then ucast (u64_of_u32 op1 div u64_of_u32 op2) else 0xffffffff)"
| "alu_result Rem op1 op2 = (if op2 \<noteq> 0 then i32_wrapping_rem op1 op2 else op1)"
| "alu_result Remu op1 op2 = (if op2 \<noteq> 0 then op1 mod op2 else op1)"

fun branch_taken :: "Instruction \<Rightarrow> u32 \<Rightarrow> u32 \<Rightarrow> bool option" where
  "branch_taken (Instruction.Jal _) rs1 rs2 = Some True"
| "branch_taken (Instruction.Jalr _) rs1 rs2 = Some True"
| "branch_taken (Beq _) rs1 rs2 = Some (rs1 = rs2)"
| "branch_taken (Bne _) rs1 rs2 = Some (rs1 \<noteq> rs2)"
| "branch_taken (Blt _) rs1 rs2 = Some (sint rs1 < sint rs2)"
| "branch_taken (Bge _) rs1 rs2 = Some (sint rs1 \<ge> sint rs2)"
| "branch_taken (Bltu _) rs1 rs2 = Some (rs1 < rs2)"
| "branch_taken (Bgeu _) rs1 rs2 = Some (rs1 \<ge> rs2)"
| "branch_taken _ rs1 rs2 = None"

subsection \<open>Integer semantics of the RV32IM operations\<close>

definition shamt :: "u32 \<Rightarrow> nat" where
  "shamt b = unat b mod 32"

fun isa_alu :: "AluOpTypes \<Rightarrow> u32 \<Rightarrow> u32 \<Rightarrow> int" where
  "isa_alu Add a b = uint a + uint b"
| "isa_alu Sub a b = uint a - uint b"
| "isa_alu Sll a b = uint a * 2 ^ shamt b"
| "isa_alu Slt a b = of_bool (sint a < sint b)"
| "isa_alu Sltu a b = of_bool (uint a < uint b)"
| "isa_alu Xor a b = uint a XOR uint b"
| "isa_alu Srl a b = uint a div 2 ^ shamt b"
| "isa_alu Sra a b = sint a div 2 ^ shamt b"
| "isa_alu Or a b = uint a OR uint b"
| "isa_alu And a b = uint a AND uint b"
| "isa_alu Mul a b = uint a * uint b"
| "isa_alu Mulh a b = (sint a * sint b) div 2 ^ 32"
| "isa_alu Mulhu a b = (uint a * uint b) div 2 ^ 32"
| "isa_alu Mulhsu a b = (sint a * uint b) div 2 ^ 32"
| "isa_alu Div a b =
     (if b = 0 then - 1
      else if sint a = - (2 ^ 31) \<and> sint b = - 1 then - (2 ^ 31)
      else sint a sdiv sint b)"
| "isa_alu Divu a b = (if b = 0 then 2 ^ 32 - 1 else uint a div uint b)"
| "isa_alu Rem a b =
     (if b = 0 then sint a
      else if sint a = - (2 ^ 31) \<and> sint b = - 1 then 0
      else sint a smod sint b)"
| "isa_alu Remu a b = (if b = 0 then uint a else uint a mod uint b)"

lemma shift_amount: "unat (b AND 0x1f) = shamt b" for b :: u32
proof -
  have "b AND 0x1f = take_bit 5 b"
    by (simp add: take_bit_eq_mask mask_eq_exp_minus_1)
  then have "unat (b AND 0x1f) = take_bit 5 (unat b)"
    by (simp only: unsigned_take_bit_eq)
  then show ?thesis by (simp add: shamt_def take_bit_eq_mod)
qed

lemma ucast_of_sint: "(ucast w :: u32) = word_of_int (sint w)" for w :: u64
  by (rule bit_word_eqI) (auto simp: bit_simps)

lemma ucast_of_uint: "(ucast w :: u32) = word_of_int (uint w)" for w :: u64
  by (rule bit_word_eqI) (auto simp: bit_simps)

lemma uint_drop_bit: "uint (drop_bit n w) = drop_bit n (uint w)" for w :: "'a::len word"
  by (rule bit_eqI) (auto simp: bit_simps dest: bit_imp_le_length)

lemma sint_u32_range: "- (2 ^ 31) \<le> sint w" "sint w < 2 ^ 31" for w :: u32
  using sint_range_size [of w] by (auto simp: word_size)

lemma uint_u32_range: "0 \<le> uint w" "uint w < 2 ^ 32" for w :: u32
  using uint_range_size [of w] by (auto simp: word_size)

lemma sint_i64_of_i32: "sint (i64_of_i32 w) = sint w"
  using sint_u32_range [of w]
  by (simp add: i64_of_i32_def signed_scast_eq signed_take_bit_int_eq_self)

lemma uint_u64_of_u32: "uint (u64_of_u32 w) = uint w"
  using uint_u32_range [of w]
  by (simp add: u64_of_u32_def unsigned_ucast_eq take_bit_int_eq_self)

lemma sint_u64_of_u32: "sint (u64_of_u32 w) = uint w"
proof -
  have "- (2 ^ 63) \<le> uint w"
    by (rule order_trans [of _ 0]) simp_all
  moreover have "uint w < 2 ^ 63"
    using uint_u32_range [of w] by simp
  ultimately have "signed_take_bit 63 (uint w) = uint w"
    by (rule signed_take_bit_int_eq_self)
  then show ?thesis by (simp add: sint_uint uint_u64_of_u32)
qed

text \<open>No \<open>i64\<close> or \<open>u64\<close> product of 32-bit factors overflows.\<close>

lemma sint_mult_i64:
  fixes x y :: u64
  assumes "- (2 ^ 31) \<le> sint x" "sint x < 2 ^ 31" "- (2 ^ 31) \<le> sint y" "sint y < 2 ^ 32"
  shows "sint (x * y) = sint x * sint y"
proof -
  have "\<bar>sint x * sint y\<bar> \<le> 2 ^ 31 * (2 ^ 32 - 1)"
    unfolding abs_mult using assms by (intro mult_mono) auto
  then show ?thesis
    by (simp add: sint_word_ariths signed_take_bit_int_eq_self abs_le_iff)
qed

lemma uint_mult_u64:
  fixes x y :: u64
  assumes "uint x < 2 ^ 32" "uint y < 2 ^ 32"
  shows "uint (x * y) = uint x * uint y"
proof -
  have "uint x * uint y \<le> (2 ^ 32 - 1) * (2 ^ 32 - 1)"
    using assms by (intro mult_mono) auto
  then show ?thesis
    by (simp add: uint_word_ariths)
qed

lemmas alu_casts = sint_i64_of_i32 uint_u64_of_u32 sint_u64_of_u32 ucast_of_sint ucast_of_uint
  sint_signed_drop_bit_eq drop_bit_eq_div

lemma word_of_sint_mult: "word_of_int (sint a * sint b) = a * b" for a b :: u32
  by simp

lemma div_no_overflow:
  fixes a b :: int
  assumes "- (2 ^ 31) \<le> a" "a < 2 ^ 31" "b \<noteq> 0"
  shows "\<bar>a sdiv b\<bar> \<le> 2 ^ 31"
  using sdiv_int_range [of a b] assms by auto

text \<open>The ALU against the integer semantics, operation by operation.\<close>

lemma alu_result_integer: "alu_result t a b = word_of_int (isa_alu t a b)"
proof (cases t)
  case Mul
  have "alu_result Mul a b = word_of_int (sint (i64_of_i32 a * i64_of_i32 b))"
    by (simp add: ucast_of_sint)
  also have "sint (i64_of_i32 a * i64_of_i32 b) = sint a * sint b"
    using sint_u32_range [of a] sint_u32_range [of b]
    by (simp add: sint_mult_i64 sint_i64_of_i32)
  also have "word_of_int (sint a * sint b) = (word_of_int (uint a * uint b) :: u32)"
    by simp
  finally show ?thesis by (simp only: Mul isa_alu.simps)
next
  case Mulh
  have "alu_result Mulh a b = word_of_int (drop_bit 32 (sint (i64_of_i32 a * i64_of_i32 b)))"
    by (simp add: ucast_of_sint sint_signed_drop_bit_eq)
  then show ?thesis using Mulh sint_u32_range [of a] sint_u32_range [of b]
    by (simp add: sint_mult_i64 sint_i64_of_i32 drop_bit_eq_div)
next
  case Mulhsu
  have "alu_result Mulhsu a b = word_of_int (drop_bit 32 (sint (i64_of_i32 a * u64_of_u32 b)))"
    by (simp add: ucast_of_sint sint_signed_drop_bit_eq)
  moreover have "sint (i64_of_i32 a * u64_of_u32 b) = sint a * uint b"
    using sint_mult_i64 [of "i64_of_i32 a" "u64_of_u32 b"] sint_u32_range [of a]
      uint_u32_range [of b]
    by (simp add: sint_i64_of_i32 sint_u64_of_u32)
  ultimately show ?thesis using Mulhsu by (simp add: drop_bit_eq_div)
next
  case Mulhu
  have "alu_result Mulhu a b = word_of_int (drop_bit 32 (uint (u64_of_u32 a * u64_of_u32 b)))"
    by (simp add: ucast_of_uint uint_drop_bit)
  then show ?thesis using Mulhu uint_u32_range [of a] uint_u32_range [of b]
    by (simp add: uint_mult_u64 uint_u64_of_u32 drop_bit_eq_div)
next
  case Div
  have r: "sint (i64_div (i64_of_i32 a) (i64_of_i32 b)) = sint a sdiv sint b" if "b \<noteq> 0"
  proof -
    have "\<bar>sint a sdiv sint b\<bar> \<le> 2 ^ 31"
      using sdiv_int_range [of "sint a" "sint b"] sint_u32_range [of a] by auto
    then show ?thesis
      by (simp add: i64_div_def sint_i64_of_i32 sint_sbintrunc' signed_take_bit_int_eq_self abs_le_iff)
  qed
  show ?thesis
  proof (cases "b = 0")
    case False
    then have "alu_result Div a b = word_of_int (sint a sdiv sint b)"
      by (simp only: alu_result.simps ucast_of_sint r if_True simp_thms)
    moreover have "sint a sdiv sint b = isa_alu Div a b \<or>
        sint a = - (2 ^ 31) \<and> sint b = - 1"
      using False by auto
    ultimately show ?thesis using Div False by auto
  qed (simp add: Div)
next
  case Divu
  then show ?thesis by (simp add: ucast_of_uint uint_div uint_u64_of_u32)
next
  case Rem
  then show ?thesis by (simp add: i32_wrapping_rem_def signed_modulo_int_def)
next
  case Remu
  then show ?thesis by (simp add: uint_mod flip: uint_mod)
next
  case Sra
  then show ?thesis by (simp add: shift_amount flip: drop_bit_eq_div sint_signed_drop_bit_eq)
next
  case Srl
  have "alu_result Srl a b = word_of_int (drop_bit (shamt b) (uint a))"
    unfolding uint_drop_bit [symmetric] by (simp add: shift_amount)
  then show ?thesis by (simp only: Srl isa_alu.simps drop_bit_eq_div)
next
  case Sll
  then show ?thesis by (simp add: shift_amount push_bit_eq_mult)
qed (simp_all add: word_less_def flip: unsigned_xor_eq unsigned_or_eq unsigned_and_eq)

text \<open>
  C7.  The ALU computes, for each of its 18 operations and all operand values, the 32-bit result of
  the integer semantics of the instruction set, including the division corner cases (division by
  zero and signed overflow) and the high halves of signed, unsigned and mixed products.
\<close>

theorem alu_result_isa: "alu_result t a b = word_of_int (isa_alu t a b)"
  by (rule alu_result_integer)


subsection \<open>Decoded operations carry their operands\<close>

text \<open>What the execute stage relies on for an operation that decode has accepted.\<close>

definition operands_present :: "PreDecodeMicroOp \<Rightarrow> bool" where
  "operands_present op \<longleftrightarrow>
     (op_alu_op1_sel op = RegRs1 \<longrightarrow> op_rs1 op \<noteq> None) \<and>
     (op_alu_op2_sel op = RegRs2 \<longrightarrow> op_rs2 op \<noteq> None)"

lemma alu_operands_ok: "operands_present op \<Longrightarrow> \<exists>v. alu_operands op = Inr v"
  by (auto simp: operands_present_def alu_operands_def split: AluOpOneSelect.split
      AluOpTwoSelect.split)

lemmas decode_arm_defs = decode_r_arm_def decode_i_arm_def decode_load_arm_def
  decode_store_arm_def decode_branch_arm_def decode_jal_arm_def decode_jalr_arm_def
  decode_u_arm_def read_reg_def

lemma decode_operands_present:
  assumes "decode op regs = Inr op'" "\<And>i. op_inst op \<noteq> Ecall i"
  shows "operands_present op'"
  using assms by (cases "op_inst op")
    (auto simp: decode_def decode_match_def decode_arm_defs operands_present_def)

lemma decode_keeps:
  assumes "decode op regs = Inr op'"
  shows "op_inst op' = op_inst op" "op_pc op' = op_pc op" "op_raw_inst op' = op_raw_inst op"
    "op_bp_result op' = op_bp_result op" "op_placeholder op' = op_placeholder op"
  using assms by (cases "op_inst op"; auto simp: decode_def decode_match_def decode_arm_defs)+

lemma reg_field_less: "unat (ucast (x AND 0x1f) :: u8) < 32" for x :: u32
proof -
  have "unat (x AND 0x1f) \<le> unat (0x1f :: u32)"
    by (rule word_and_le1 [THEN word_le_nat_alt [THEN iffD1]])
  then show ?thesis by (simp add: unsigned_ucast_eq take_bit_nat_eq_self)
qed

lemma format_rd_less:
  "unat (RType_rd r) < 32" "unat (IType_rd i) < 32" "unat (UType_rd u) < 32"
  "unat (JType_rd j) < 32"
  by (cases r, cases i, cases u, cases j, simp add: reg_field_less)+

lemma decode_rd_index_less:
  assumes "decode op regs = Inr op'" "op_rd_index op = None" "op_rd_index op' = Some i"
  shows "unat i < 32"
  using assms by (cases "op_inst op")
    (auto simp: decode_def decode_match_def decode_arm_defs format_rd_less)

lemma decode_panic_iff:
  "(\<exists>e. decode op regs = Inl e) \<longleftrightarrow> (\<exists>i. op_inst op = Fence i) \<or> (\<exists>w. op_inst op = Illegal w)"
  by (cases "op_inst op") (auto simp: decode_def decode_match_def)

text \<open>
  C20.  Decode feeds execute: unless the instruction is a FENCE or an illegal word, decode succeeds,
  and the operation it produces (ECALL apart, which has no ALU work) carries every operand the
  execute stage selects, keeps its program counter, and names a destination below 32.
\<close>

theorem decode_feeds_execute:
  assumes "\<And>i. op_inst op \<noteq> Fence i" "\<And>w. op_inst op \<noteq> Illegal w" "op_rd_index op = None"
  shows "\<exists>op'. decode op regs = Inr op' \<and> op_pc op' = op_pc op \<and>
     (\<forall>i. op_rd_index op' = Some i \<longrightarrow> unat i < 32) \<and>
     ((\<exists>i. op_inst op = Ecall i) \<or> (\<exists>v. alu_operands op' = Inr v))"
proof -
  have "\<nexists>e. decode op regs = Inl e" using assms(1,2) decode_panic_iff [of op regs] by blast
  then obtain op' where d: "decode op regs = Inr op'" by (cases "decode op regs") auto
  have "(\<exists>i. op_inst op = Ecall i) \<or> (\<exists>v. alu_operands op' = Inr v)"
    using decode_operands_present [OF d] alu_operands_ok by blast
  with d show ?thesis using decode_keeps(2) [OF d] decode_rd_index_less [OF d assms(3)] by blast
qed

theorem decode_feeds_execute_witness:
  "\<exists>op'. decode (fetched 0x00150513 (Addi (IType 0x00150513)) 0x100) (replicate 32 5) = Inr op' \<and>
     op_pc op' = 0x100 \<and> (\<exists>v. alu_operands op' = Inr v)"
  using decode_feeds_execute [of "fetched 0x00150513 (Addi (IType 0x00150513)) 0x100" "replicate 32 5"]
  by (auto simp: fetched_def PreDecodeMicroOp_default_def)

end
