(* ===== verification/Pipeline.thy ===== *)
theory Pipeline
  imports Memory_Transaction Decode_Execute
begin

text \<open>
  The five-stage pipeline (\<open>pipeline_processor/pipe.rs\<close>, \<open>pipeline_processor/statistic.rs\<close>).  The
  record holds the fields of \<open>PipelineProcessor\<close>; the main memory below the L2 cache (the
  \<open>Rc<RefCell<M>>\<close> shared with the runner) and the store of request cells are passed along.  The
  stages, the hazard logic and the branch recovery are one definition each, composed by \<open>pipe_tick\<close>
  in the order of the simulator: recovery, forwarding, WB, MEM, EXE, load-use check, ID, IF, bubble
  insertion, then the clocks of the instruction cache, the data cache and the L2 cache.
\<close>

subsection \<open>Statistics\<close>

record StatisticInfo =
  total_ticked_cycle :: nat
  inst_fetched :: nat
  inst_retire :: nat
  branch_inst_cnt :: nat
  branch_miss_cnt :: nat
  total_flush_cnt :: nat
  actual_flushed_inst_cnt :: nat
  ipc :: real
  branch_miss_rate :: real

definition StatisticInfo_default :: StatisticInfo where
  "StatisticInfo_default =
     \<lparr>total_ticked_cycle = 0, inst_fetched = 0, inst_retire = 0, branch_inst_cnt = 0,
      branch_miss_cnt = 0, total_flush_cnt = 0, actual_flushed_inst_cnt = 0, ipc = 0,
      branch_miss_rate = 0\<rparr>"

definition stat_tick :: "StatisticInfo \<Rightarrow> StatisticInfo" where
  "stat_tick s = s\<lparr>total_ticked_cycle := total_ticked_cycle s + 1\<rparr>"

definition inst_fetch :: "StatisticInfo \<Rightarrow> StatisticInfo" where
  "inst_fetch s = s\<lparr>inst_fetched := inst_fetched s + 1\<rparr>"

definition inst_ret :: "StatisticInfo \<Rightarrow> StatisticInfo" where
  "inst_ret s = s\<lparr>inst_retire := inst_retire s + 1\<rparr>"

definition solve_branch :: "bool \<Rightarrow> StatisticInfo \<Rightarrow> StatisticInfo" where
  "solve_branch is_miss s =
     (let s1 = s\<lparr>branch_inst_cnt := branch_inst_cnt s + 1\<rparr> in
      if is_miss then s1\<lparr>branch_miss_cnt := branch_miss_cnt s1 + 1\<rparr> else s1)"

definition inst_flush :: "bool \<Rightarrow> StatisticInfo \<Rightarrow> StatisticInfo" where
  "inst_flush valid s =
     (let s1 = s\<lparr>total_flush_cnt := total_flush_cnt s + 1\<rparr> in
      if valid then s1\<lparr>actual_flushed_inst_cnt := actual_flushed_inst_cnt s1 + 1\<rparr> else s1)"

definition StatisticInfo_finalize_rates :: "StatisticInfo \<Rightarrow> StatisticInfo" where
  "StatisticInfo_finalize_rates s =
     s\<lparr>ipc := safe_ratio (inst_retire s) (total_ticked_cycle s),
       branch_miss_rate := safe_ratio (branch_miss_cnt s) (branch_inst_cnt s)\<rparr>"

subsection \<open>State\<close>

datatype PipelineMemoryFSM =
    IfIdle
  | IfSendingReq MemoryReqType
  | IfWaitingComplete MemoryReqType

record 'rp PipelineProcessor =
  p_halt :: bool
  p_if_pc :: u32
  p_if_raw_inst_buffer :: "u32 option"
  p_branch_predictor :: Predictor
  p_id_regs :: "u32 list"
  p_id_op :: "PreDecodeMicroOp option"
  p_exe_op :: "PreDecodeMicroOp option"
  p_mem_op :: "PreDecodeMicroOp option"
  p_wb_op :: "PreDecodeMicroOp option"
  p_if_fsm :: PipelineMemoryFSM
  p_mem_transaction :: MemoryTransaction
  p_branch_recover :: bool
  p_branch_correct_direction :: bool
  p_branch_destination :: u32
  p_branch_flushes :: nat
  p_int_mul_div_stall_countdown :: "nat option"
  p_icache :: "'rp GeneralCache"
  p_dcache :: "'rp GeneralCache"
  p_l2_cache :: "'rp GeneralCache"
  p_hpm :: StatisticInfo

definition new_with_predictor ::
  "'rp rp_ops \<Rightarrow> u32 \<Rightarrow> GeneralCacheConfig \<Rightarrow> GeneralCacheConfig \<Rightarrow> GeneralCacheConfig \<Rightarrow> Predictor \<Rightarrow>
   'rp PipelineProcessor res" where
  "new_with_predictor R init_pc l1i_cache_config l1d_cache_config l2_cache_config predictor =
     bindR (GeneralCache_new R l2_cache_config) (\<lambda>l2.
     bindR (GeneralCache_new R l1i_cache_config) (\<lambda>ic.
     bindR (GeneralCache_new R l1d_cache_config) (\<lambda>dc.
     Inr \<lparr>p_halt = False, p_if_pc = init_pc, p_if_raw_inst_buffer = None,
          p_branch_predictor = predictor, p_id_regs = replicate 32 0,
          p_id_op = None, p_exe_op = None, p_mem_op = None, p_wb_op = None,
          p_if_fsm = IfIdle, p_mem_transaction = MtIdle,
          p_branch_recover = False, p_branch_correct_direction = False,
          p_branch_destination = 0, p_branch_flushes = 0,
          p_int_mul_div_stall_countdown = None,
          p_icache = ic, p_dcache = dc, p_l2_cache = l2, p_hpm = StatisticInfo_default\<rparr>)))"

definition PipelineProcessor_new ::
  "'rp rp_ops \<Rightarrow> u32 \<Rightarrow> GeneralCacheConfig \<Rightarrow> GeneralCacheConfig \<Rightarrow> GeneralCacheConfig \<Rightarrow>
   'rp PipelineProcessor res" where
  "PipelineProcessor_new R init_pc l1i_cache_config l1d_cache_config l2_cache_config =
     new_with_predictor R init_pc l1i_cache_config l1d_cache_config l2_cache_config
       (Bimodal BimodalPredictor_new)"

subsection \<open>Instruction fetch\<close>

text \<open>The instruction cache sends its misses to the L2 cache, which sends its own to main memory.\<close>

definition icache_register ::
  "'rp rp_ops \<Rightarrow> 'm lower \<Rightarrow> MemoryReqType \<Rightarrow> 'rp PipelineProcessor \<Rightarrow> 'm \<Rightarrow> cells \<Rightarrow>
   (bool \<times> 'rp PipelineProcessor \<times> 'm \<times> cells) res" where
  "icache_register R mtry req p m h =
     bindR (GeneralCache_try_register_req R (cached_try_reg R mtry) req (p_icache p) (p_l2_cache p, m) h)
       (\<lambda>(ok, ic, (l2, m1), h1). Inr (ok, p\<lparr>p_icache := ic, p_l2_cache := l2\<rparr>, m1, h1))"

text \<open>\<open>u32::from_le_bytes\<close> of the first four bytes of the completed request.\<close>

definition fetched_word :: "MemoryReqType \<Rightarrow> cells \<Rightarrow> u32 res" where
  "fetched_word req h =
     bindR (load_data req h) (\<lambda>load_bytes.
     bindR (get_range load_bytes 0 4) (\<lambda>arr. Inr (from_le_bytes arr)))"

text \<open>After a successful registration: wait, or buffer the word of a hit.\<close>

definition fetch_accepted ::
  "MemoryReqType \<Rightarrow> 'rp PipelineProcessor \<Rightarrow> cells \<Rightarrow> (bool \<times> 'rp PipelineProcessor) res" where
  "fetch_accepted req p h =
     (if \<not> is_done req h then Inr (False, p\<lparr>p_if_fsm := IfWaitingComplete req\<rparr>)
      else bindR (fetched_word req h) (\<lambda>w. Inr (True, p\<lparr>p_if_raw_inst_buffer := Some w\<rparr>)))"

text \<open>The first half of the stage; \<open>False\<close> is its early return.\<close>

definition fetch_request ::
  "'rp rp_ops \<Rightarrow> 'm lower \<Rightarrow> 'rp PipelineProcessor \<Rightarrow> 'm \<Rightarrow> cells \<Rightarrow>
   (bool \<times> 'rp PipelineProcessor \<times> 'm \<times> cells) res" where
  "fetch_request R mtry p m h =
     (case p_if_fsm p of
        IfIdle \<Rightarrow>
          (let (new_req, h0) = MemoryReqType_load (p_if_pc p) 4 h in
           bindR (icache_register R mtry new_req p m h0) (\<lambda>(ok, p1, m1, h1).
           if \<not> ok then Inr (False, p1\<lparr>p_if_fsm := IfSendingReq new_req\<rparr>, m1, h1)
           else bindR (fetch_accepted new_req p1 h1) (\<lambda>(ready, p2). Inr (ready, p2, m1, h1))))
      | IfSendingReq new_req \<Rightarrow>
          bindR (icache_register R mtry new_req p m h) (\<lambda>(ok, p1, m1, h1).
          if \<not> ok then Inr (False, p1, m1, h1)
          else bindR (fetch_accepted new_req p1 h1) (\<lambda>(ready, p2). Inr (ready, p2, m1, h1)))
      | IfWaitingComplete inflight_req \<Rightarrow>
          (if \<not> is_done inflight_req h then Inr (False, p, m, h)
           else bindR (fetched_word inflight_req h) (\<lambda>w.
                Inr (True, p\<lparr>p_if_raw_inst_buffer := Some w\<rparr>, m, h))))"

text \<open>The second half: predict, advance the program counter and hand the operation to ID.\<close>

definition fetch_issue :: "'rp PipelineProcessor \<Rightarrow> 'rp PipelineProcessor res" where
  "fetch_issue p =
     (if p_id_op p \<noteq> None then Inr p
      else
        bindR (unwrapR UnwrapNone (p_if_raw_inst_buffer p)) (\<lambda>raw_inst.
        let opcode = (case OpcodeMap_try_from (ucast (raw_inst AND 0x7f)) of
                        Some oc \<Rightarrow> oc | None \<Rightarrow> OpcodeMap.Op) in
        bindR (raw_binary_to_inst raw_inst) (\<lambda>new_inst.
        let old_pc = p_if_pc p;
            p1 = p\<lparr>p_if_raw_inst_buffer := None, p_hpm := inst_fetch (p_hpm p), p_if_fsm := IfIdle\<rparr>
        in Inr (if opcode \<in> {OpcodeMap.Branch, OpcodeMap.Jal, OpcodeMap.Jalr} then
                  let bp = branch_predict (p_branch_predictor p) old_pc in
                  p1\<lparr>p_if_pc := (if bp_direction bp then bp_addr bp else old_pc + 4),
                     p_id_op := Some (fetched_branch raw_inst new_inst old_pc bp)\<rparr>
                else
                  p1\<lparr>p_if_pc := old_pc + 4,
                     p_id_op := Some (fetched raw_inst new_inst old_pc)\<rparr>))))"

definition pipe_stage_fetch ::
  "'rp rp_ops \<Rightarrow> 'm lower \<Rightarrow> 'rp PipelineProcessor \<Rightarrow> 'm \<Rightarrow> cells \<Rightarrow>
   ('rp PipelineProcessor \<times> 'm \<times> cells) res" where
  "pipe_stage_fetch R mtry p m h =
     bindR (fetch_request R mtry p m h) (\<lambda>(ready, p1, m1, h1).
     if ready then bindR (fetch_issue p1) (\<lambda>p2. Inr (p2, m1, h1)) else Inr (p1, m1, h1))"

subsection \<open>Decode\<close>

fun decode_panic :: "DecodeError \<Rightarrow> panic" where
  "decode_panic (DecodeIllegalInstruction raw pc) = IllegalInstruction raw pc"
| "decode_panic (DecodeUnsupportedFence pc) = UnsupportedFence pc"

definition pipe_stage_decode :: "bool \<Rightarrow> 'rp PipelineProcessor \<Rightarrow> 'rp PipelineProcessor res" where
  "pipe_stage_decode additional_stall p =
     (if p_exe_op p \<noteq> None then Inr p
      else case p_id_op p of
        None \<Rightarrow> Inr p
      | Some current_op \<Rightarrow>
          (if additional_stall then Inr p
           else case decode current_op (p_id_regs p) of
             Inl e \<Rightarrow> Inl (decode_panic e)
           | Inr op \<Rightarrow> Inr (p\<lparr>p_id_op := None, p_exe_op := Some op\<rparr>)))"

subsection \<open>Execute\<close>

fun is_ecall :: "Instruction \<Rightarrow> bool" where
  "is_ecall (Ecall _) = True"
| "is_ecall _ = False"

definition countdown_step :: "nat option \<Rightarrow> nat option" where
  "countdown_step c = map_option (\<lambda>n. if n > 0 then n - 1 else n) c"

text \<open>Branch resolution: compare with the prediction and request a recovery on a mispredict.\<close>

definition resolve_branch ::
  "BranchResolutionInputs option \<Rightarrow> 'rp PipelineProcessor \<Rightarrow> 'rp PipelineProcessor res" where
  "resolve_branch inputs p =
     (case inputs of
        None \<Rightarrow> Inr p
      | Some branch \<Rightarrow>
          bindR (unwrapR NotControlFlow (branch_taken (br_inst branch) (br_rs1 branch) (br_rs2 branch)))
            (\<lambda>is_taken.
             let need_recover = needs_recovery branch is_taken;
                 p1 = (if need_recover then
                         p\<lparr>p_branch_recover := True, p_branch_correct_direction := is_taken,
                           p_branch_destination := recovery_destination branch is_taken,
                           p_branch_flushes := 3\<rparr>
                       else p)
             in Inr (p1\<lparr>p_hpm := solve_branch need_recover (p_hpm p1)\<rparr>)))"

text \<open>The operation after the ALU, with its result as write-back value where decode asked for it.\<close>

definition executed :: "PreDecodeMicroOp \<Rightarrow> u32 \<Rightarrow> u32 \<Rightarrow> PreDecodeMicroOp" where
  "executed op op1 op2 =
     (let res = alu_result (op_alu_op_type op) op1 op2; op' = op\<lparr>op_alu_result := res\<rparr> in
      if op_alu_result_as_rd_dst_value op' then set_writeback_value res op' else op')"

definition pipe_stage_exe :: "'rp PipelineProcessor \<Rightarrow> 'rp PipelineProcessor res" where
  "pipe_stage_exe p0 =
     (let p = p0\<lparr>p_int_mul_div_stall_countdown := countdown_step (p_int_mul_div_stall_countdown p0)\<rparr> in
      if p_mem_op p \<noteq> None then Inr p
      else case p_exe_op p of
        None \<Rightarrow> Inr p
      | Some op \<Rightarrow>
          (if is_ecall (op_inst op) then Inr (p\<lparr>p_mem_op := Some op, p_exe_op := None\<rparr>)
           else if m_extension_stall (op_inst op) \<noteq> None \<and> p_int_mul_div_stall_countdown p = None then
             Inr (p\<lparr>p_int_mul_div_stall_countdown := m_extension_stall (op_inst op)\<rparr>)
           else
             bindR (alu_operands op) (\<lambda>(op1, op2).
             let current_op = executed op op1 op2;
                 p1 = (if m_extension_stall (op_inst op) \<noteq> None
                       then p\<lparr>p_int_mul_div_stall_countdown := None\<rparr> else p)
             in bindR (branch_resolution_inputs current_op) (\<lambda>inputs.
                bindR (resolve_branch inputs p1) (\<lambda>p2.
                Inr (p2\<lparr>p_mem_op := Some current_op, p_exe_op := None\<rparr>))))))"

subsection \<open>Memory access\<close>

definition mem_finish :: "u32 option \<Rightarrow> PreDecodeMicroOp \<Rightarrow> 'rp PipelineProcessor \<Rightarrow> 'rp PipelineProcessor" where
  "mem_finish load_value op p =
     (let op1 = (case load_value of Some v \<Rightarrow> set_writeback_value v op | None \<Rightarrow> op) in
      if p_wb_op p \<noteq> None then p\<lparr>p_mem_op := Some op1\<rparr>
      else p\<lparr>p_mem_transaction := mt_reset (p_mem_transaction p), p_wb_op := Some op1,
             p_mem_op := None\<rparr>)"

definition pipe_stage_mem ::
  "'rp rp_ops \<Rightarrow> 'm lower \<Rightarrow> 'rp PipelineProcessor \<Rightarrow> 'm \<Rightarrow> cells \<Rightarrow>
   ('rp PipelineProcessor \<times> 'm \<times> cells) res" where
  "pipe_stage_mem R mtry p m h =
     (case p_mem_op p of
        None \<Rightarrow> Inr (p, m, h)
      | Some op \<Rightarrow>
          bindR (memory_access op) (\<lambda>acc.
          case acc of
            None \<Rightarrow> Inr (mem_finish None op p, m, h)
          | Some access \<Rightarrow>
              bindR (mt_progress (cached_try_reg R (cached_try_reg R mtry)) (p_mem_transaction p) access
                       (p_dcache p, p_l2_cache p, m) h)
                (\<lambda>(status, t, (dc, l2, m1), h1).
                 let p1 = p\<lparr>p_mem_transaction := t, p_dcache := dc, p_l2_cache := l2\<rparr> in
                 case status of
                   StPending \<Rightarrow> Inr (p1, m1, h1)
                 | StComplete load_value \<Rightarrow> Inr (mem_finish load_value op p1, m1, h1))))"

subsection \<open>Write-back\<close>

definition ecall_halts :: "PreDecodeMicroOp \<Rightarrow> u32 list \<Rightarrow> bool" where
  "ecall_halts op regs \<longleftrightarrow> is_ecall (op_inst op) \<and> regs ! 10 = 0"

definition write_register :: "(u8 \<times> u32) option \<Rightarrow> u32 list \<Rightarrow> u32 list res" where
  "write_register wb regs =
     (case wb of
        Some (rd_index, rd_write_value) \<Rightarrow>
          (if rd_index \<noteq> 0 then upd regs (unat rd_index) rd_write_value else Inr regs)
      | None \<Rightarrow> Inr regs)"

definition pipe_stage_wb :: "'rp PipelineProcessor \<Rightarrow> 'rp PipelineProcessor res" where
  "pipe_stage_wb p =
     (case p_wb_op p of
        None \<Rightarrow> Inr p
      | Some op \<Rightarrow>
          bindR (write_register (writeback op) (p_id_regs p)) (\<lambda>regs.
          Inr (p\<lparr>p_halt := (p_halt p \<or> ecall_halts op (p_id_regs p)), p_wb_op := None,
                 p_id_regs := regs,
                 p_hpm := (if is_placeholder op then p_hpm p else inst_ret (p_hpm p))\<rparr>)))"

subsection \<open>Hazards\<close>

fun forward_value :: "(u8 \<times> u32) option \<Rightarrow> (u8 \<times> u32) option \<Rightarrow> (u8 \<times> u32) option" where
  "forward_value (Some (i, v)) (Some (rd_idx, rd_write_value)) =
     Some (i, if i \<noteq> 0 \<and> i = rd_idx then rd_write_value else v)"
| "forward_value rs _ = rs"

definition forward_from :: "PreDecodeMicroOp \<Rightarrow> PreDecodeMicroOp \<Rightarrow> PreDecodeMicroOp" where
  "forward_from src op =
     op\<lparr>op_rs1 := forward_value (op_rs1 op) (writeback src),
        op_rs2 := forward_value (op_rs2 op) (writeback src)\<rparr>"

definition pipe_normal_data_hazard_resolve :: "'rp PipelineProcessor \<Rightarrow> 'rp PipelineProcessor" where
  "pipe_normal_data_hazard_resolve p =
     (case p_exe_op p of
        None \<Rightarrow> p
      | Some exe \<Rightarrow>
          (let e1 = (case p_wb_op p of Some wb \<Rightarrow> forward_from wb exe | None \<Rightarrow> exe);
               e2 = (case p_mem_op p of Some mem \<Rightarrow> forward_from mem e1 | None \<Rightarrow> e1)
           in p\<lparr>p_exe_op := Some e2\<rparr>))"

definition reads_registers :: "OpcodeMap \<Rightarrow> bool" where
  "reads_registers oc =
     (oc \<notin> {OpcodeMap.Jal, OpcodeMap.Lui, OpcodeMap.Auipc, OpcodeMap.MiscMem, OpcodeMap.System})"

definition pipe_load_use_hazard_handle :: "'rp PipelineProcessor \<Rightarrow> bool res" where
  "pipe_load_use_hazard_handle p =
     (case (p_id_op p, p_exe_op p, p_mem_op p) of
        (Some id_op, None, Some as_exe_op) \<Rightarrow>
          bindR (op_is_load as_exe_op) (\<lambda>is_load.
          case destination_register as_exe_op of
            Some destination \<Rightarrow>
              (if is_load \<and> destination \<noteq> 0 then
                 bindR (unwrapR IllegalOpcode (OpcodeMap_try_from (ucast (op_raw_inst id_op AND 0x7f))))
                   (\<lambda>id_opcode.
                    if reads_registers id_opcode then
                      let id_rs1 = ucast (drop_bit 15 (op_raw_inst id_op) AND 0x1f) :: u8;
                          id_rs2 = ucast (drop_bit 20 (op_raw_inst id_op) AND 0x1f) :: u8
                      in Inr (id_rs1 \<noteq> 0 \<and> id_rs1 = destination \<or> id_rs2 \<noteq> 0 \<and> id_rs2 = destination)
                    else Inr False)
               else Inr False)
          | None \<Rightarrow> Inr False)
      | _ \<Rightarrow> Inr False)"

subsection \<open>Branch recovery\<close>

definition flush_stages :: "'rp PipelineProcessor \<Rightarrow> 'rp PipelineProcessor" where
  "flush_stages p =
     (let n = p_branch_flushes p;
          p1 = (if n \<ge> 2 then p\<lparr>p_hpm := inst_flush (p_id_op p \<noteq> None) (p_hpm p), p_id_op := None\<rparr>
                else p);
          p2 = (if n \<ge> 3 then p1\<lparr>p_hpm := inst_flush (p_exe_op p1 \<noteq> None) (p_hpm p1), p_exe_op := None\<rparr>
                else p1);
          p3 = (if n \<ge> 4 then p2\<lparr>p_hpm := inst_flush (p_mem_op p2 \<noteq> None) (p_hpm p2), p_mem_op := None,
                                 p_mem_transaction := mt_reset (p_mem_transaction p2)\<rparr>
                else p2)
      in if n \<ge> 5 then p3\<lparr>p_hpm := inst_flush (p_wb_op p3 \<noteq> None) (p_hpm p3), p_wb_op := None\<rparr>
         else p3)"

definition pipe_branch_recovery :: "'rp PipelineProcessor \<Rightarrow> 'rp PipelineProcessor res" where
  "pipe_branch_recovery p =
     (if p_branch_recover p then
        let p1 = flush_stages (p\<lparr>p_if_pc := p_branch_destination p, p_if_fsm := IfIdle,
                                 p_if_raw_inst_buffer := None\<rparr>)
        in bindR (unwrapR UnwrapNone (p_mem_op p1)) (\<lambda>mem.
           Inr (p1\<lparr>p_branch_predictor := mispredict_recovery (p_branch_predictor p1)
                      (p_branch_correct_direction p1) (op_pc mem) (p_branch_destination p1),
                   p_branch_recover := False\<rparr>))
      else Inr p)"

subsection \<open>One cycle\<close>

definition insert_bubble :: "bool \<Rightarrow> 'rp PipelineProcessor \<Rightarrow> 'rp PipelineProcessor res" where
  "insert_bubble stall p =
     (if stall then
        bindR (assertR (p_exe_op p = None) NopInsertOccupied) (\<lambda>_.
        Inr (p\<lparr>p_exe_op := Some placeholder_nop\<rparr>))
      else Inr p)"

definition tick_icache ::
  "'rp rp_ops \<Rightarrow> 'm lower \<Rightarrow> 'rp PipelineProcessor \<Rightarrow> 'm \<Rightarrow> cells \<Rightarrow> ('rp PipelineProcessor \<times> 'm \<times> cells) res" where
  "tick_icache R mtry p m h =
     bindR (GeneralCache_tick R (cached_try_reg R mtry) (p_icache p) (p_l2_cache p, m) h)
       (\<lambda>(ic, (l2, m1), h1). Inr (p\<lparr>p_icache := ic, p_l2_cache := l2\<rparr>, m1, h1))"

definition tick_dcache ::
  "'rp rp_ops \<Rightarrow> 'm lower \<Rightarrow> 'rp PipelineProcessor \<Rightarrow> 'm \<Rightarrow> cells \<Rightarrow> ('rp PipelineProcessor \<times> 'm \<times> cells) res" where
  "tick_dcache R mtry p m h =
     bindR (GeneralCache_tick R (cached_try_reg R mtry) (p_dcache p) (p_l2_cache p, m) h)
       (\<lambda>(dc, (l2, m1), h1). Inr (p\<lparr>p_dcache := dc, p_l2_cache := l2\<rparr>, m1, h1))"

definition tick_l2_cache ::
  "'rp rp_ops \<Rightarrow> 'm lower \<Rightarrow> 'rp PipelineProcessor \<Rightarrow> 'm \<Rightarrow> cells \<Rightarrow> ('rp PipelineProcessor \<times> 'm \<times> cells) res" where
  "tick_l2_cache R mtry p m h =
     bindR (GeneralCache_tick R mtry (p_l2_cache p) m h)
       (\<lambda>(l2, m1, h1). Inr (p\<lparr>p_l2_cache := l2\<rparr>, m1, h1))"

text \<open>The stages of one cycle, then the clocks of the caches.\<close>

definition pipe_stages ::
  "'rp rp_ops \<Rightarrow> 'm lower \<Rightarrow> 'rp PipelineProcessor \<Rightarrow> 'm \<Rightarrow> cells \<Rightarrow> ('rp PipelineProcessor \<times> 'm \<times> cells) res" where
  "pipe_stages R mtry p m h =
     bindR (pipe_branch_recovery (p\<lparr>p_hpm := stat_tick (p_hpm p)\<rparr>)) (\<lambda>p1.
     bindR (pipe_stage_wb (pipe_normal_data_hazard_resolve p1)) (\<lambda>p2.
     bindR (pipe_stage_mem R mtry p2 m h) (\<lambda>(p3, m1, h1).
     bindR (pipe_stage_exe p3) (\<lambda>p4.
     bindR (pipe_load_use_hazard_handle p4) (\<lambda>stall.
     bindR (pipe_stage_decode stall p4) (\<lambda>p5.
     bindR (pipe_stage_fetch R mtry p5 m1 h1) (\<lambda>(p6, m2, h2).
     bindR (insert_bubble stall p6) (\<lambda>p7. Inr (p7, m2, h2)))))))))"

definition pipe_tick ::
  "'rp rp_ops \<Rightarrow> 'm lower \<Rightarrow> 'rp PipelineProcessor \<Rightarrow> 'm \<Rightarrow> cells \<Rightarrow> ('rp PipelineProcessor \<times> 'm \<times> cells) res" where
  "pipe_tick R mtry p m h =
     bindR (pipe_stages R mtry p m h) (\<lambda>(p1, m1, h1).
     bindR (tick_icache R mtry p1 m1 h1) (\<lambda>(p2, m2, h2).
     bindR (tick_dcache R mtry p2 m2 h2) (\<lambda>(p3, m3, h3).
     tick_l2_cache R mtry p3 m3 h3)))"

definition get_statistic_info :: "'rp PipelineProcessor \<Rightarrow> StatisticInfo" where
  "get_statistic_info p = StatisticInfo_finalize_rates (p_hpm p)"

end
