(* ===== verification/Cache_Client.thy ===== *)
theory Cache_Client
  imports Hierarchy
begin

text \<open>
  A cache as one of several clients of the next level.  The two first-level caches of the processor
  share the second-level cache, so a transaction of one of them may be refused while the other is
  served.  The steps of a cache that do not depend on the answer of the next level are obtained from
  the transparency proof over an ideal next level that answers at once; a transaction in flight is
  seen as one not yet sent.
\<close>

subsection \<open>An ideal next level\<close>

text \<open>The state is the largest access and the bytes; a request is completed when it is registered.\<close>

type_synonym ideal = "nat \<times> u8 list"

definition ideal_try :: "ideal lower" where
  "ideal_try r m h =
     Inr (True, (fst m, apply_req r (snd m)),
          h[req_cell_id r := completed_cell r (snd m) (h ! req_cell_id r)])"

definition ideal_tick :: "ideal \<Rightarrow> cells \<Rightarrow> (ideal \<times> cells) res" where
  "ideal_tick m h = Inr (m, h)"

interpretation ideal: memory_device ideal_try ideal_tick "\<lambda>_ _. True" "\<lambda>_. None" snd "\<lambda>_. {}"
  "\<lambda>_. 0" "\<lambda>_. 0" fst
  by unfold_locales (auto simp: ideal_try_def ideal_tick_def serves_def frame_refl dest: fresh_reqD)

subsection \<open>The client's invariant\<close>

text \<open>A transaction that waits for its answer counts as not yet sent.\<close>

definition settle :: "cells \<Rightarrow> 'rp GeneralCache \<Rightarrow> 'rp GeneralCache" where
  "settle h c =
     (case tx_of (fsm c) of
        Some (Waiting q) \<Rightarrow> if is_done q h then c else c\<lparr>fsm := with_tx (fsm c) (Sending q)\<rparr>
      | _ \<Rightarrow> c)"

definition in_flight :: "cells \<Rightarrow> 'rp GeneralCache \<Rightarrow> bool" where
  "in_flight h c \<longleftrightarrow> (\<exists>q. tx_of (fsm c) = Some (Waiting q) \<and> \<not> is_done q h)"

definition sending :: "'rp GeneralCache \<Rightarrow> bool" where
  "sending c \<longleftrightarrow> (\<exists>q. tx_of (fsm c) = Some (Sending q))"

lemma settle_id: "\<not> in_flight h c \<Longrightarrow> settle h c = c"
  by (auto simp: settle_def in_flight_def split: option.splits LowerMemoryTransaction.splits)

lemma settle_fields [simp]:
  "caller (settle h c) = caller c" "view (settle h c) X = view c X" "blk_bytes (settle h c) = blk_bytes c"
  "miss_penalty (settle h c) = miss_penalty c"
  by (cases "fsm c"; auto simp: settle_def caller_def split: LowerMemoryTransaction.splits)+

lemma settle_tx:
  "tx_of (fsm (settle h c)) =
     map_option (\<lambda>tx. case tx of Sending q \<Rightarrow> Sending q
                       | Waiting q \<Rightarrow> if is_done q h then Waiting q else Sending q) (tx_of (fsm c))"
  by (cases "fsm c") (auto simp: settle_def split: LowerMemoryTransaction.splits)

lemma with_tx_same: "tx_of (fsm c) = Some tx \<Longrightarrow> with_tx (fsm c) tx = fsm c"
  by (cases "fsm c") auto

lemma with_tx_twice [simp]: "with_tx (with_tx f a) b = with_tx f b"
  by (cases f) auto

lemma tx_of_with_tx: "tx_of f \<noteq> None \<Longrightarrow> tx_of (with_tx f tx) = Some tx"
  by (cases f) auto

lemma caller_with_tx [simp]: "caller (c\<lparr>fsm := with_tx (fsm c) tx\<rparr>) = caller c"
  by (cases "fsm c") (auto simp: caller_def)

lemma settle_fsm:
  assumes "tx_of (fsm c) = Some tx"
  obtains tx' where "fsm (settle h c) = with_tx (fsm c) tx'" "transaction_req tx' = transaction_req tx"
proof (cases "settle h c = c")
  case True
  with that [of tx] with_tx_same [OF assms] show ?thesis by simp
next
  case False
  with assms obtain q where "tx = Waiting q" "settle h c = c\<lparr>fsm := with_tx (fsm c) (Sending q)\<rparr>"
    by (auto simp: settle_def split: LowerMemoryTransaction.splits if_splits)
  with that [of "Sending q"] show ?thesis by simp
qed

text \<open>Ticks and registrations that do not ask the next level do not depend on it.\<close>

lemma tick_independent:
  fixes try1 :: "'y lower" and try2 :: "'z lower"
  assumes "\<not> sending c" "GeneralCache_tick R try1 c m1 h = Inr (c', m1', h')"
  shows "m1' = m1" "GeneralCache_tick R try2 c m2 h = Inr (c', m2, h')"
proof -
  have p: "tx_of (fsm c) = Some tx \<Longrightarrow> progress t tx m h = Inr (is_done (transaction_req tx) h, tx, m, h)"
    for t :: "'z lower" and m tx
    using assms(1) by (cases tx) (auto simp: sending_def)
  have q: "tx_of (fsm c) = Some tx \<Longrightarrow> progress t tx m h = Inr (is_done (transaction_req tx) h, tx, m, h)"
    for t :: "'y lower" and m tx
    using assms(1) by (cases tx) (auto simp: sending_def)
  note d = GeneralCache_tick_def tick_write_back_def tick_allocate_def tick_propagate_def bindR_def Let_def
  have "m1' = m1 \<and> GeneralCache_tick R try2 c m2 h = Inr (c', m2, h')"
  proof (cases "fsm c")
    case (WriteBack tx w)
    then show ?thesis using assms(2) p [of tx] q [of tx]
      by (auto simp: d split: sum.splits prod.splits if_splits)
  next
    case (Allocate tx w)
    then show ?thesis using assms(2) p [of tx] q [of tx]
      by (auto simp: d split: sum.splits prod.splits if_splits)
  next
    case (WriteThroughCommit tx r)
    then show ?thesis using assms(2) p [of tx] q [of tx]
      by (auto simp: d split: sum.splits prod.splits if_splits)
  next
    case (WriteAround tx r)
    then show ?thesis using assms(2) p [of tx] q [of tx]
      by (auto simp: d split: sum.splits prod.splits if_splits)
  qed (use assms(2) in \<open>auto simp: d split: sum.splits prod.splits\<close>)
  then show "m1' = m1" "GeneralCache_tick R try2 c m2 h = Inr (c', m2, h')" by auto
qed

lemma tick_sending:
  assumes "tx_of (fsm c) = Some (Sending q)" "ltry q m h = Inr (ok, m', h')"
  shows "GeneralCache_tick R ltry c m h =
    Inr (c\<lparr>fsm := with_tx (fsm c) (if ok then Waiting q else Sending q)\<rparr>, m', h')"
  using assms
  by (cases "fsm c") (auto simp: GeneralCache_tick_def tick_write_back_def tick_allocate_def tick_propagate_def)

lemma tick_in_flight_same:
  assumes "in_flight h c"
  shows "GeneralCache_tick R ltry c m h = Inr (c, m, h)"
  using assms
  by (cases "fsm c") (auto simp: in_flight_def GeneralCache_tick_def tick_write_back_def tick_allocate_def
      tick_propagate_def)


definition client_ok ::
  "(nat \<Rightarrow> 'rp \<Rightarrow> bool) \<Rightarrow> ('rp \<Rightarrow> nat \<Rightarrow> bool) \<Rightarrow> nat \<Rightarrow> u8 list \<Rightarrow> 'rp GeneralCache \<Rightarrow> cells \<Rightarrow> bool" where
  "client_ok rp_inv rp_valid ml X c h \<longleftrightarrow>
     cached_inv (\<lambda>_ _. True) (\<lambda>_. None) snd (\<lambda>_. {}) fst rp_inv rp_valid (settle h c, (ml, X)) h"

definition tx_cells :: "'rp GeneralCache \<Rightarrow> nat set" where
  "tx_cells c = (case tx_of (fsm c) of None \<Rightarrow> {} | Some tx \<Rightarrow> {req_cell_id (transaction_req tx)})"

lemma tx_cells_owned [simp]: "cached_owns (\<lambda>_. {}) (c, m) = tx_cells c"
  by (simp add: cached_owns_def tx_cells_def)

lemma tx_cells_settle [simp]: "tx_cells (settle h c) = tx_cells c"
  by (auto simp: tx_cells_def settle_tx split: option.splits LowerMemoryTransaction.splits)

text \<open>
  A step of the cache on behalf of the request \<open>r\<close>: either the request is completed from the view
  before, or it stays and the view changes at most by it.
\<close>

definition client_step ::
  "MemoryReqType \<Rightarrow> 'rp GeneralCache \<Rightarrow> u8 list \<Rightarrow> cells \<Rightarrow> 'rp GeneralCache \<Rightarrow> u8 list \<Rightarrow> cells \<Rightarrow> bool" where
  "client_step r c X h c' X' h' \<longleftrightarrow>
     frame (insert (req_cell_id r) (tx_cells c)) h h' \<and>
     tx_cells c' \<subseteq> tx_cells c \<union> {length h..<length h'} \<and>
     (caller c' = None \<and> view c' X' = apply_req r (view c X) \<and>
        h' ! req_cell_id r = completed_cell r (view c X) (h ! req_cell_id r)
      \<or> caller c' = Some r \<and> h' ! req_cell_id r = h ! req_cell_id r \<and>
        (view c' X' = view c X \<or> view c' X' = apply_req r (view c X)))"

lemma client_step_serves:
  "serves cached_pending (cached_contents snd) (cached_owns (\<lambda>_. {})) r (c, l, X) h (c', l', X') h' \<longleftrightarrow>
   client_step r c X h c' X' h'"
  by (simp add: serves_def client_step_def cached_pending_def cached_contents_def)

locale cache_client = pol: replacement_policy R ways_ok rp_inv rp_valid
  for R :: "'rp rp_ops" and ways_ok :: "nat \<Rightarrow> bool" and rp_inv :: "nat \<Rightarrow> 'rp \<Rightarrow> bool"
    and rp_valid :: "'rp \<Rightarrow> nat \<Rightarrow> bool"
begin

abbreviation ok :: "nat \<Rightarrow> u8 list \<Rightarrow> 'rp GeneralCache \<Rightarrow> cells \<Rightarrow> bool" where
  "ok ml X c h \<equiv> client_ok rp_inv rp_valid ml X c h"

end

sublocale cache_client \<subseteq> alone: cache_over ideal_try ideal_tick "\<lambda>_ _. True" "\<lambda>_. None" snd "\<lambda>_. {}"
  "\<lambda>_. 0" "\<lambda>_. 0" fst R ways_ok rp_inv rp_valid ..

context cache_client
begin

lemma settled:
  assumes "alone.cinv c (ml, X) h"
  shows "settle h c = c" "\<not> in_flight h c"
  using alone.cinvD(7) [OF assms]
  by (auto simp: settle_def in_flight_def tx_ok_def Let_def dest: completed_done
      split: option.splits LowerMemoryTransaction.splits)

lemma ok_settled: "alone.cinv c (ml, X) h \<Longrightarrow> ok ml X c h"
  using settled(1) [of c ml X h] by (simp add: client_ok_def)

lemma ok_callerD:
  assumes "ok ml X c h" "caller c = Some r"
  shows "fresh_req r h" "admissible (blk_bytes c) (length X) r" "req_cell_id r \<notin> tx_cells c"
proof -
  have i: "alone.cinv (settle h c) (ml, X) h" using assms(1) by (simp add: client_ok_def)
  have "caller (settle h c) = Some r" using assms(2) by simp
  from alone.caller_not_owned [OF i this]
  show "fresh_req r h" "admissible (blk_bytes c) (length X) r" "req_cell_id r \<notin> tx_cells c"
    by auto
qed

lemma ok_coreD:
  assumes "ok ml X c h"
  shows "core rp_inv (ways c) c (length X)" "blk_bytes c \<le> ml"
    "state_ok rp_valid (settle h c) X"
proof -
  have i: "alone.cinv (settle h c) (ml, X) h" using assms(1) by (simp add: client_ok_def)
  have "core rp_inv (ways (settle h c)) (settle h c) (length X)" using alone.cinvD(2) [OF i] by simp
  then show "core rp_inv (ways c) c (length X)"
    by (cases "tx_of (fsm c)") (auto simp: settle_def split: LowerMemoryTransaction.splits if_splits)
  show "blk_bytes c \<le> ml" "state_ok rp_valid (settle h c) X"
    using alone.cinvD(3,4) [OF i] by simp_all
qed

lemma ok_txD:
  assumes "ok ml X c h" "tx_of (fsm c) = Some tx"
  defines "q \<equiv> transaction_req tx"
  shows "req_cell_id q < length h" "admissible ml (length X) q" "\<exists>r. caller c = Some r"
    "sending c \<or> in_flight h c \<Longrightarrow> fresh_req q h"
    "\<not> sending c \<Longrightarrow> \<not> in_flight h c \<Longrightarrow> completed q X (h ! req_cell_id q)"
proof -
  have i: "alone.cinv (settle h c) (ml, X) h" using assms(1) by (simp add: client_ok_def)
  have tx: "\<exists>tx'. tx_of (fsm (settle h c)) = Some tx' \<and> transaction_req tx' = q \<and>
      (sending c \<or> in_flight h c \<longrightarrow> tx' = Sending q) \<and> (\<not> sending c \<longrightarrow> \<not> in_flight h c \<longrightarrow> tx' = Waiting q)"
    using assms(2) by (auto simp: settle_tx q_def sending_def in_flight_def split: LowerMemoryTransaction.splits)
  then show "req_cell_id q < length h" "admissible ml (length X) q" "\<exists>r. caller c = Some r"
    "sending c \<or> in_flight h c \<Longrightarrow> fresh_req q h"
    "\<not> sending c \<Longrightarrow> \<not> in_flight h c \<Longrightarrow> completed q X (h ! req_cell_id q)"
    using alone.cinvD(7) [OF i] by (auto simp: tx_ok_def Let_def)
qed

lemma ok_idle: "ok ml X c h \<Longrightarrow> caller c = None \<Longrightarrow> fsm c = Idle"
  using ok_coreD(3) [of ml X c h]
  by (cases "fsm c") (auto simp: caller_def state_ok_def settle_def split: LowerMemoryTransaction.splits if_splits)

text \<open>Steps that do not ask the next level.\<close>

lemma client_register:
  assumes "ok ml X c h" "caller c = None" "admissible (blk_bytes c) (length X) r" "fresh_req r h"
  shows "\<exists>c' h'. GeneralCache_try_register_req R ltry r c m h = Inr (True, c', m, h') \<and> ok ml X c' h' \<and>
    client_step r c X h c' X h' \<and> \<not> in_flight h' c' \<and> blk_bytes c' = blk_bytes c \<and>
    miss_penalty c' = miss_penalty c"
proof -
  have idle: "fsm c = Idle" by (rule ok_idle [OF assms(1,2)])
  have i: "alone.cinv c (ml, X) h" using assms(1) idle by (simp add: client_ok_def settle_def)
  have "req_cell_id r \<notin> cached_owns (\<lambda>_. {}) (c, ml, X)" using idle by (simp add: tx_cells_def)
  with alone.register_free [OF i assms(2) _ assms(4)] assms(3) obtain c' h' where
    t: "GeneralCache_try_register_req R ideal_try r c (ml, X) h = Inr (True, c', (ml, X), h')"
      "alone.cinv c' (ml, X) h'" "alone.cserves r c (ml, X) h c' (ml, X) h'" "alone.static c (ml, X) c' (ml, X)"
    by auto
  have al: "alignment_check c r = Inr True"
    using alone.alignment_ok [OF alone.cinvD(2) [OF i]] assms(3) by simp
  have "\<not> sending (c\<lparr>pending_req := Some r\<rparr>)" using idle by (simp add: sending_def)
  have rt: "GeneralCache_tick R t (c\<lparr>pending_req := Some r\<rparr>) m h = Inr (c\<lparr>fsm := Lookup r\<rparr>, m, h)" for t :: "'z lower" and m
    using idle alone.pending_None [OF i] by (cases c) (simp add: GeneralCache_tick_def tick_idle_def)
  have rt': "GeneralCache_tick R ideal_try (c\<lparr>pending_req := Some r\<rparr>) (ml, X) h = Inr (c\<lparr>fsm := Lookup r\<rparr>, (ml, X), h)"
    by (rule alone.register_tick [OF i idle])
  have "GeneralCache_tick R ideal_try (c\<lparr>fsm := Lookup r\<rparr>) (ml, X) h = Inr (c', (ml, X), h')"
    using t(1) al idle alone.pending_None [OF i] rt'
    by (auto simp: GeneralCache_try_register_req_def bindR_def split: sum.splits prod.splits)
  from tick_independent(2) [OF _ this, of ltry m]
  have "GeneralCache_tick R ltry (c\<lparr>fsm := Lookup r\<rparr>) m h = Inr (c', m, h')" by (simp add: sending_def)
  then have "GeneralCache_try_register_req R ltry r c m h = Inr (True, c', m, h')"
    using al idle alone.pending_None [OF i] rt [of ltry m] by (simp add: GeneralCache_try_register_req_def)
  with t ok_settled [OF t(2)] settled(2) [OF t(2)] show ?thesis
    by (auto simp: client_step_serves alone.static_def)
qed

lemma client_busy:
  assumes "ok ml X c h" "caller c \<noteq> None" "admissible (blk_bytes c) (length X) r"
  shows "GeneralCache_try_register_req R ltry r c m h = Inr (False, c, m, h)"
proof -
  have "fsm c \<noteq> Idle" using assms(2) by (auto simp: caller_def)
  moreover have "alignment_check c r = Inr True"
    by (rule alone.alignment_ok [OF ok_coreD(1) [OF assms(1)] assms(3)])
  ultimately show ?thesis by (simp add: GeneralCache_try_register_req_def)
qed

lemma client_idle_tick:
  assumes "ok ml X c h" "caller c = None"
  shows "GeneralCache_tick R ltry c m h = Inr (c, m, h)"
  using ok_idle [OF assms] ok_coreD(1) [OF assms(1)]
  by (simp add: GeneralCache_tick_def tick_idle_def core_def)

lemma client_tick:
  assumes "ok ml X c h" "caller c = Some r" "\<not> sending c" "\<not> in_flight h c"
  shows "\<exists>c' h'. GeneralCache_tick R ltry c m h = Inr (c', m, h') \<and> ok ml X c' h' \<and>
    client_step r c X h c' X h' \<and> \<not> in_flight h' c' \<and> blk_bytes c' = blk_bytes c \<and>
    miss_penalty c' = miss_penalty c \<and>
    (caller c' = Some r \<longrightarrow> alone.cwait c' (ml, X) < alone.cwait c (ml, X))"
proof -
  have i: "alone.cinv c (ml, X) h" using assms(1) settle_id [OF assms(4)] by (simp add: client_ok_def)
  from alone.tick_busy_result [OF i assms(2)] obtain c' m' h' where
    t: "GeneralCache_tick R ideal_try c (ml, X) h = Inr (c', m', h')" "alone.cinv c' m' h'"
      "alone.cserves r c (ml, X) h c' m' h'" "alone.static c (ml, X) c' m'"
      "caller c' = Some r \<longrightarrow> alone.cwait c' m' < alone.cwait c (ml, X)"
    by (auto simp: alone.tick_result_def)
  note ti = tick_independent(1) [OF assms(3) t(1)] tick_independent(2) [OF assms(3) t(1), of ltry m]
  then have "alone.cinv c' (ml, X) h'" using t(2) by simp
  with ti t(3-5) ok_settled [of c' ml X h'] settled(2) [of c' ml X h'] show ?thesis
    by (intro exI [of _ c'] exI [of _ h']) (auto simp: client_step_serves alone.static_def)
qed

text \<open>Cells that the cache does not use may change.\<close>

lemma client_frame:
  assumes "ok ml X c h" "length h \<le> length h'" "\<And>i. i \<in> tx_cells c \<Longrightarrow> h' ! i = h ! i"
    "\<And>r. caller c = Some r \<Longrightarrow> h' ! req_cell_id r = h ! req_cell_id r"
  shows "ok ml X c h'" "in_flight h' c = in_flight h c"
proof -
  have d: "is_done q h' = is_done q h" if "tx_of (fsm c) = Some (Waiting q)" for q
    using assms(3) [of "req_cell_id q"] that by (simp add: is_done_cell tx_cells_def)
  then have s: "settle h' c = settle h c"
    by (auto simp: settle_def split: option.splits LowerMemoryTransaction.splits)
  have i: "alone.cinv (settle h c) (ml, X) h" using assms(1) by (simp add: client_ok_def)
  have "alone.cinv (settle h c) (ml, X) h'"
    by (rule alone.cinv_frame [OF i assms(2)]) (use assms(3,4) in auto)
  then show "ok ml X c h'" using s by (simp add: client_ok_def)
  show "in_flight h' c = in_flight h c" using d by (auto simp: in_flight_def)
qed

text \<open>The transaction is accepted, and later answered, by the next level.\<close>

lemma client_accepted:
  assumes "ok ml X c h" "tx_of (fsm c) = Some (Sending q)"
  defines "c' \<equiv> c\<lparr>fsm := with_tx (fsm c) (Waiting q)\<rparr>"
  shows "ok ml X c' h" "in_flight h c'" "\<not> sending c'" "tx_cells c' = tx_cells c" "view c' X = view c X"
    "tx_of (fsm c') = Some (Waiting q)" "caller c' = caller c"
proof -
  have fq: "fresh_req q h" using ok_txD(4) [OF assms(1,2)] assms(2) by (auto simp: sending_def)
  have tx: "tx_of (fsm c') = Some (Waiting q)" unfolding c'_def using assms(2) by (simp add: tx_of_with_tx)
  have "settle h c' = c"
    using tx fresh_req_not_done [OF fq] with_tx_same [OF assms(2)] by (simp add: settle_def c'_def)
  moreover have "settle h c = c" using assms(2) by (simp add: settle_def)
  ultimately show "ok ml X c' h" using assms(1) by (simp add: client_ok_def)
  show "in_flight h c'" "\<not> sending c'" "tx_cells c' = tx_cells c" "view c' X = view c X"
    using tx fresh_req_not_done [OF fq] assms(2) by (auto simp: in_flight_def sending_def tx_cells_def c'_def)
  show "tx_of (fsm c') = Some (Waiting q)" by (fact tx)
  show "caller c' = caller c" by (simp add: c'_def)
qed

lemma client_answered:
  assumes "ok ml X c h" "tx_of (fsm c) = Some (Waiting q)" "in_flight h c" "caller c = Some r"
    and "length h \<le> length h'" "h' ! req_cell_id q = completed_cell q X (h ! req_cell_id q)"
      "h' ! req_cell_id r = h ! req_cell_id r"
  shows "ok ml (apply_req q X) c h'" "\<not> in_flight h' c" "length (apply_req q X) = length X"
    "view c (apply_req q X) = view c X \<or> view c (apply_req q X) = apply_req r (view c X)"
proof -
  let ?s = "settle h c" and ?Y = "apply_req q X"
  let ?h = "h[req_cell_id q := completed_cell q X (h ! req_cell_id q)]"
  have i: "alone.cinv ?s (ml, X) h" using assms(1) by (simp add: client_ok_def)
  have q: "fresh_req q h" "req_cell_id q < length h" "admissible ml (length X) q"
    using ok_txD(1,2,4) [OF assms(1,2)] assms(3) by auto
  have tx: "tx_of (fsm ?s) = Some (Sending q)"
    using assms(2,3) by (auto simp: settle_tx in_flight_def)
  have sv: "serves (\<lambda>_. None) snd (\<lambda>_. {}) q (ml, X) h (ml, ?Y) ?h"
    using q(2) by (simp add: serves_def)
  have cl: "caller ?s = Some r" using assms(4) by simp
  have same: "?s\<lparr>fsm := with_tx (fsm ?s) (Waiting q)\<rparr> = c"
    using assms(2,3) with_tx_same [OF assms(2)]
    by (cases c) (auto simp: settle_def in_flight_def)
  have "transaction_req (Sending q) = q" by simp
  from alone.lower_progress(1,2) [OF i tx cl this [symmetric] q(1) sv] same
  have c: "alone.cinv c (ml, ?Y) ?h" "alone.cserves r ?s (ml, X) h c (ml, ?Y) ?h" by simp_all
  have "alone.cinv c (ml, ?Y) h'"
  proof (rule alone.cinv_frame [OF c(1)])
    show "length ?h \<le> length h'" using assms(5) by simp
    show "h' ! i = ?h ! i" if "i \<in> cached_owns (\<lambda>_. {}) (c, ml, ?Y)" for i
      using that assms(2,6) q(2) by (simp add: tx_cells_def)
    show "h' ! req_cell_id p = ?h ! req_cell_id p" if "caller c = Some p" for p
    proof -
      have "p = r" using that assms(4) by simp
      with ok_callerD(3) [OF assms(1,4)] assms(2,7) show ?thesis by (simp add: tx_cells_def)
    qed
  qed
  then show "ok ml ?Y c h'" "\<not> in_flight h' c" using ok_settled settled(2) by blast+
  show "length ?Y = length X" by (rule apply_req_length [OF q(1,3)])
  show "view c ?Y = view c X \<or> view c ?Y = apply_req r (view c X)"
    using c(2) assms(4) by (auto simp: client_step_serves client_step_def)
qed

text \<open>The next level may show a store before it answers.\<close>

lemma client_applied:
  assumes "ok ml X c h" "tx_of (fsm c) = Some tx" "sending c \<or> in_flight h c" "caller c = Some r"
  defines "Y \<equiv> apply_req (transaction_req tx) X"
  shows "ok ml Y c h" "length Y = length X"
    "view c Y = view c X \<or> view c Y = apply_req r (view c X)"
proof -
  let ?s = "settle h c"
  have i: "alone.cinv ?s (ml, X) h" using assms(1) by (simp add: client_ok_def)
  obtain q where q: "transaction_req tx = q" "tx_of (fsm ?s) = Some (Sending q)"
    using assms(2,3) by (auto simp: settle_tx in_flight_def sending_def)
  have cl: "caller ?s = Some r" using assms(4) by simp
  have co: "core rp_inv (ways ?s) ?s (length X)" "state_ok rp_valid ?s X"
    using alone.cinvD(2,3) [OF i] by simp_all
  have r: "fresh_req r h" "admissible (blk_bytes ?s) (length X) r"
    using alone.cinvD(5) [OF i cl] by (simp_all add: caller_ok_def)
  note e = tx_effect [OF co cl r q(2)]
  have Y: "Y = apply_req (transaction_req (Sending q)) X" using q(1) by (simp add: Y_def)
  show len: "length Y = length X" using e(2) by (simp add: Y)
  show "view c Y = view c X \<or> view c Y = apply_req r (view c X)" using e(3) by (simp add: Y)
  have "alone.cinv ?s (ml, Y) h"
    using i e(1) len by (auto simp: cached_inv_def Let_def Y caller_ok_def tx_ok_def q(2) split: LowerMemoryTransaction.splits)
  then show "ok ml Y c h" by (simp add: client_ok_def)
qed

text \<open>The bytes a transaction writes are bytes of the view, or those of the caller's store.\<close>

lemma client_tx_bytes:
  assumes "ok ml X c h" "tx_of (fsm c) = Some tx" "caller c = Some r" "a < length X"
  shows "apply_req (transaction_req tx) X ! a \<in> {X ! a, view c X ! a, apply_req r X ! a}"
proof -
  let ?q = "transaction_req tx"
  note co = ok_coreD(1) [OF assms(1)]
  have same: "apply_req ?q X = apply_req r X"
    if "is_store r" "get_addr ?q = get_addr r" "store_data ?q = store_data r"
    using is_store_data [OF that(1)] apply_store [of ?q] apply_store [of r] that by auto
  show ?thesis
  proof (cases "fsm c")
    case (WriteBack t w)
    with assms(2) have t: "t = tx" by simp
    obtain t' where s: "fsm (settle h c) = WriteBack t' w" "transaction_req t' = ?q"
      using settle_fsm [OF assms(2), of h] WriteBack by auto
    have b: "backup_req (settle h c) = Some r" "cset (settle h c) = cset c" "block_index (settle h c) = block_index c"
      "held_block (settle h c) = held_block c" "rblk (settle h c) = rblk c"
      using assms(3) WriteBack
      by (auto simp: settle_def caller_def fun_eq_iff split: option.splits LowerMemoryTransaction.splits)
    let ?ix = "block_index c (rblk c r)"
    from ok_coreD(3) [OF assms(1)] s b have w: "holds (cset c ?ix) w"
      "unat (get_addr ?q) = held_block c ?ix w * blk_bytes c"
      "store_data ?q = Inr (block_of (cset c ?ix) w)"
      by (auto simp: state_ok_def Let_def)
    let ?k = "held_block c ?ix w" and ?d = "block_of (cset c ?ix) w"
    have l: "length ?d = blk_bytes c"
      using length_block_of [OF lines_okD(1) [OF coreD(1) [OF co] block_index_less]
          holds_less [OF lines_okD(1) [OF coreD(1) [OF co] block_index_less] w(1)]] .
    have k: "(?k + 1) * blk_bytes c \<le> length X" by (rule coreD(4) [OF co block_index_less w(1)])
    have cl: "cline c ?k = Some ?d" by (rule cline_held [OF coreD(1) [OF co] block_index_less w(1)])
    show ?thesis
    proof (cases "?k * blk_bytes c \<le> a \<and> a < ?k * blk_bytes c + blk_bytes c")
      case True
      with in_block_iff [of 0 "blk_bytes c" "blk_bytes c" ?k a]
      have "a div blk_bytes c = ?k" "a mod blk_bytes c = a - ?k * blk_bytes c" by auto
      with True l k apply_store [OF w(3)] w(2) cl assms(4) show ?thesis
        by (simp add: nth_put_seg view_def nth_overlay)
    next
      case False
      with l k apply_store [OF w(3)] w(2) assms(4) show ?thesis by (auto simp: nth_put_seg)
    qed
  next
    case (Allocate t w)
    with assms(2) have t: "t = tx" by simp
    obtain t' where s: "fsm (settle h c) = Allocate t' w" "transaction_req t' = ?q"
      using settle_fsm [OF assms(2), of h] Allocate by auto
    with ok_coreD(3) [OF assms(1)] have "\<not> is_store ?q" by (auto simp: state_ok_def Let_def)
    then show ?thesis by (simp add: apply_load)
  next
    case (WriteThroughCommit t r')
    with assms(2,3) have t: "t = tx" "r' = r" by (auto simp: caller_def)
    obtain t' where s: "fsm (settle h c) = WriteThroughCommit t' r" "transaction_req t' = ?q"
      using settle_fsm [OF assms(2), of h] WriteThroughCommit t by (metis with_tx.simps(3))
    with ok_coreD(3) [OF assms(1)] have "apply_req ?q X = apply_req r X"
      by (intro same) (auto simp: state_ok_def)
    then show ?thesis by simp
  next
    case (WriteAround t r')
    with assms(2,3) have t: "t = tx" "r' = r" by (auto simp: caller_def)
    obtain t' where s: "fsm (settle h c) = WriteAround t' r" "transaction_req t' = ?q"
      using settle_fsm [OF assms(2), of h] WriteAround t by (metis with_tx.simps(4))
    with ok_coreD(3) [OF assms(1)] have "apply_req ?q X = apply_req r X"
      by (intro same) (auto simp: state_ok_def)
    then show ?thesis by simp
  qed (use assms(2) in auto)
qed

end

end
