(* ===== verification/Read_Only_Cache.thy ===== *)
theory Read_Only_Cache
  imports Cache_Client
begin

text \<open>
  A cache that only serves loads, as the instruction cache does: it never holds a dirty line, its
  only transactions are refills, and it stays correct for any bytes whose refills are answered
  consistently, even when other bytes of the next level change behind its back.
\<close>

definition clean :: "'rp GeneralCache \<Rightarrow> bool" where
  "clean c \<longleftrightarrow> (\<forall>s\<in>set (cache_set c). True \<notin> set (dirty_array s))"

definition serves_loads :: "'rp GeneralCache \<Rightarrow> bool" where
  "serves_loads c \<longleftrightarrow> clean c \<and> (\<forall>r. caller c = Some r \<longrightarrow> \<not> is_store r)"

lemma clean_fields [simp]:
  "clean (c\<lparr>fsm := x\<rparr>) = clean c" "clean (c\<lparr>backup_req := y\<rparr>) = clean c" "clean (c\<lparr>pending_req := y\<rparr>) = clean c"
  "clean (c\<lparr>hpm := z\<rparr>) = clean c" "clean (c\<lparr>prefetch_in_flight := b\<rparr>) = clean c"
  "clean (c\<lparr>prefetch_queue := l\<rparr>) = clean c" "clean (count_load p b c) = clean c" "clean (count_store p b c) = clean c"
  by (simp_all add: clean_def count_load_def count_store_def)

lemma clean_update_set: "clean c \<Longrightarrow> True \<notin> set (dirty_array s) \<Longrightarrow> clean (update_set ix s c)"
  using set_update_subset_insert [of "cache_set c" ix s] by (auto simp: clean_def update_set_def)

lemma promote_way_dirty: "promote_way R w s = Inr s1 \<Longrightarrow> dirty_array s1 = dirty_array s"
  by (auto simp: promote_way_def bindR_def split: sum.splits)

lemma read_block_dirty: "read_block R w s = Inr (d, s1) \<Longrightarrow> dirty_array s1 = dirty_array s"
  by (auto simp: read_block_def bindR_def Let_def dest: promote_way_dirty split: sum.splits)

lemma tag_compare_dirty: "tag_compare R t s = Inr (res, s1) \<Longrightarrow> dirty_array s1 = dirty_array s"
  by (auto simp: tag_compare_def bindR_def Let_def split: sum.splits option.splits prod.splits if_splits)

lemma insert_block_dirty:
  assumes "insert_block R w t d s = Inr s1" "True \<notin> set (dirty_array s)"
  shows "True \<notin> set (dirty_array s1)"
proof -
  obtain D where "upd (dirty_array s) w False = Inr D" "dirty_array s1 = D"
    using assms(1) by (auto simp: insert_block_def bindR_def Let_def split: sum.splits)
  with assms(2) set_update_subset_insert [of "dirty_array s" w False] show ?thesis
    by (auto simp: upd_def split: if_splits)
qed

lemma clean_idx: "clean c \<Longrightarrow> idx (cache_set c) ix = Inr s \<Longrightarrow> True \<notin> set (dirty_array s)"
  by (auto simp: clean_def idx_def split: if_splits)

lemma lookup_post_clean [simp]: "clean (lookup_post a s p b c) = clean c"
  by (simp add: lookup_post_def)

lemma lookup_hit_clean:
  assumes "lookup_hit R r ix off w p s c h = Inr (c', h')" "clean c" "True \<notin> set (dirty_array s)" "\<not> is_store r"
  shows "clean c'"
  using assms read_block_dirty [of R w s]
  by (cases r) (auto simp: lookup_hit_def bindR_def intro!: clean_update_set split: sum.splits prod.splits)

lemma lookup_miss_clean:
  assumes "lookup_miss R r t ix wb w p s c h = Inr (c', h')" "clean c" "True \<notin> set (dirty_array s)" "\<not> is_store r"
  shows "clean c'"
  using assms read_block_dirty [of R w s]
  by (auto simp: lookup_miss_def bindR_def Let_def intro!: clean_update_set split: sum.splits prod.splits if_splits)

lemma tick_lookup_clean:
  assumes "tick_lookup R r c h = Inr (c', h')" "clean c" "\<not> is_store r"
  shows "clean c'"
  using assms tag_compare_dirty [of R] clean_idx [OF assms(2)] lookup_hit_clean [OF _ assms(2) _ assms(3)]
    lookup_miss_clean [OF _ assms(2) _ assms(3)]
  by (auto simp: tick_lookup_def bindR_def Let_def split: sum.splits prod.splits TagCompareResult.splits)

lemma tick_allocate_clean:
  assumes "tick_allocate R ltry tx w c m h = Inr (c', m', h')" "clean c"
  shows "clean c'"
  using assms clean_idx [OF assms(2)] insert_block_dirty [of R w]
  by (auto simp: tick_allocate_def bindR_def Let_def intro!: clean_update_set split: sum.splits prod.splits if_splits)

text \<open>Serving loads keeps all lines clean.\<close>

lemma tick_clean:
  assumes "GeneralCache_tick R ltry c m h = Inr (c', m', h')" "serves_loads c" "prefetch_queue c = []"
  shows "clean c'"
proof (cases "fsm c")
  case (Lookup r)
  with assms show ?thesis
    by (auto simp: GeneralCache_tick_def serves_loads_def caller_def bindR_def
        intro: tick_lookup_clean split: sum.splits prod.splits)
next
  case (Allocate tx w)
  with assms show ?thesis
    by (auto simp: GeneralCache_tick_def serves_loads_def intro: tick_allocate_clean)
next
  case Idle
  with assms show ?thesis
    by (auto simp: GeneralCache_tick_def tick_idle_def serves_loads_def split: option.splits if_splits)
qed (use assms in \<open>auto simp: GeneralCache_tick_def tick_write_back_def tick_miss_penalty_def
      tick_propagate_def serves_loads_def bindR_def Let_def split: sum.splits prod.splits if_splits\<close>)

context cache_client
begin

text \<open>The only transaction of a cache that serves loads is a refill of the block of its caller.\<close>

lemma refill_only:
  assumes "ok ml X c h" "serves_loads c" "tx_of (fsm c) = Some tx"
  defines "q \<equiv> transaction_req tx"
  obtains w r where "fsm c = Allocate tx w" "caller c = Some r" "\<not> is_store q"
    "unat (get_addr q) = rblk c r * blk_bytes c" "get_len q = blk_bytes c" "cline c (rblk c r) = None"
    "(rblk c r + 1) * blk_bytes c \<le> length X" "backup_req c = Some r"
proof -
  from ok_txD(3) [OF assms(1,3)] obtain r where r: "caller c = Some r" by blast
  have ld: "\<not> is_store r" using assms(2) r by (simp add: serves_loads_def)
  note st = ok_coreD(3) [OF assms(1)] and co = ok_coreD(1) [OF assms(1)]
  from settle_fsm [OF assms(3), of h] obtain tx' where
    tx': "fsm (settle h c) = with_tx (fsm c) tx'" "transaction_req tx' = q" by (auto simp: q_def)
  have same: "cset (settle h c) = cset c" "block_index (settle h c) = block_index c"
    "rblk (settle h c) = rblk c" "cline (settle h c) = cline c" "backup_req (settle h c) = backup_req c"
    by (auto simp: settle_def fun_eq_iff split: option.splits LowerMemoryTransaction.splits)
  have adm: "(rblk c r + 1) * blk_bytes c \<le> length X"
    using admissible_block(3) [OF ok_callerD(2) [OF assms(1) r] coreD(3) [OF co]] .
  show ?thesis
  proof (cases "fsm c")
    case (Allocate t w)
    with st tx' same r assms(3) have "\<not> is_store q" "unat (get_addr q) = rblk c r * blk_bytes c"
      "get_len q = blk_bytes c" "cline c (rblk c r) = None" "backup_req c = Some r"
      by (auto simp: state_ok_def Let_def victim_ok_def caller_def)
    with that Allocate r adm assms(3) show ?thesis by auto
  next
    case (WriteBack t w)
    let ?ix = "block_index c (rblk c r)"
    from WriteBack st tx' same r have w: "holds (cset c ?ix) w" "dirty_array (cset c ?ix) ! w"
      by (auto simp: state_ok_def Let_def caller_def)
    note sh = lines_okD [OF coreD(1) [OF co] block_index_less]
    have "True \<in> set (dirty_array (cset c ?ix))"
      using w holds_less [OF sh(1) w(1)] sh(1) by (auto simp: set_shape_def in_set_conv_nth)
    moreover have "cset c ?ix \<in> set (cache_set c)" using sh(3) by (simp add: cset_def)
    ultimately show ?thesis using assms(2) by (auto simp: serves_loads_def clean_def)
  next
    case (WriteThroughCommit t r')
    with st tx' r ld show ?thesis by (auto simp: state_ok_def caller_def)
  next
    case (WriteAround t r')
    with st tx' r ld show ?thesis by (auto simp: state_ok_def caller_def)
  qed (use assms(3) in auto)
qed

text \<open>
  Until a refill is answered, the bytes it asks for may change: the block is held by no line.
\<close>

lemma refresh:
  assumes "ok ml X c h" "serves_loads c" "tx_of (fsm c) = Some tx" "sending c \<or> in_flight h c"
    and "length D = get_len (transaction_req tx)"
  defines "Y \<equiv> put_seg (unat (get_addr (transaction_req tx))) D X"
  shows "ok ml Y c h" "length Y = length X"
    "view c Y = put_seg (unat (get_addr (transaction_req tx))) D (view c X)"
proof -
  let ?q = "transaction_req tx" and ?s = "settle h c"
  from refill_only [OF assms(1-3)] obtain w r where
    f: "fsm c = Allocate tx w" "caller c = Some r" "\<not> is_store ?q"
      "unat (get_addr ?q) = rblk c r * blk_bytes c" "get_len ?q = blk_bytes c" "cline c (rblk c r) = None"
      "(rblk c r + 1) * blk_bytes c \<le> length X" "backup_req c = Some r" by metis
  let ?b = "blk_bytes c" and ?k = "rblk c r"
  have Y: "Y = put_seg (?k * ?b + 0) D X" using f(4) by (simp add: Y_def)
  have l: "0 + length D \<le> ?b" using f(5) assms(5) by simp
  show len: "length Y = length X" using f(7) l by (simp add: Y)
  show "view c Y = put_seg (unat (get_addr ?q)) D (view c X)"
    using overlay_around [of "cline c" ?k ?b X 0 D] f(4,6,7) l by (simp add: view_def Y)
  have i: "alone.cinv ?s (ml, X) h" using assms(1) by (simp add: client_ok_def)
  from settle_fsm [OF assms(3), of h] f(1) obtain tx' where
    tx': "fsm ?s = Allocate tx' w" "transaction_req tx' = ?q" by auto
  have send: "\<exists>q'. tx' = Sending q'"
    using assms(3,4) tx'(1) settle_tx [of h c] by (auto simp: sending_def in_flight_def)
  have same: "cset ?s = cset c" "block_index ?s = block_index c" "n_sets ?s = n_sets c"
    "rblk ?s = rblk c" "cline ?s = cline c" "backup_req ?s = backup_req c" "held_block ?s = held_block c"
    by (auto simp: settle_def fun_eq_iff split: option.splits LowerMemoryTransaction.splits)
  note co = ok_coreD(1) [OF assms(1)]
  have other: "held_block c ix v \<noteq> ?k" if "ix < n_sets c" "holds (cset c ix) v" for ix v
    using clean_not_missing [OF co f(6) that] .
  have st: "agrees ?s X" using ok_coreD(3) [OF assms(1)] tx' by (simp add: state_ok_def)
  have ag: "agrees ?s Y"
    unfolding Y using agrees_put [OF st, of ?k 0 D] f(7) l other same by simp
  have "seg (held_block c ix v * ?b) ?b Y = seg (held_block c ix v * ?b) ?b X"
    if "ix < n_sets c" "holds (cset c ix) v" for ix v
    unfolding Y by (rule seg_other_block [OF other [OF that] f(7) l])
  then have "state_ok rp_valid ?s Y"
    using ok_coreD(3) [OF assms(1)] tx' ag same by (auto simp: state_ok_def Let_def)
  moreover have "tx_ok (\<lambda>_. None) (\<lambda>_. {}) fst tx' r (ml, Y) Y h"
    if "tx_ok (\<lambda>_. None) (\<lambda>_. {}) fst tx' r (ml, X) X h" for r
    using that send len by (auto simp: tx_ok_def Let_def)
  ultimately have "alone.cinv ?s (ml, Y) h"
    using i len tx'(1) by (auto simp: cached_inv_def Let_def caller_ok_def)
  then show "ok ml Y c h" by (simp add: client_ok_def)
qed

lemma tick_serves_loads:
  assumes "ok ml X c h" "serves_loads c" "GeneralCache_tick R ltry c m h = Inr (c', m', h')"
    "caller c' = None \<or> caller c' = caller c"
  shows "serves_loads c'"
proof -
  have "prefetch_queue c = []" using ok_coreD(1) [OF assms(1)] by (simp add: core_def)
  from tick_clean [OF assms(3,2) this] assms(2,4) show ?thesis by (auto simp: serves_loads_def)
qed

lemma register_serves_loads:
  assumes "ok ml X c h" "serves_loads c" "caller c = None" "\<not> is_store r"
    "GeneralCache_try_register_req R ltry r c m h = Inr (True, c', m', h')"
    "caller c' = None \<or> caller c' = Some r"
  shows "serves_loads c'"
proof -
  have idle: "fsm c = Idle" by (rule ok_idle [OF assms(1,3)])
  have pn: "pending_req c = None" using ok_coreD(1) [OF assms(1)] by (simp add: core_def)
  have t1: "GeneralCache_tick R ltry (c\<lparr>pending_req := Some r\<rparr>) m h = Inr (c\<lparr>fsm := Lookup r\<rparr>, m, h)"
    using idle pn by (cases c) (simp add: GeneralCache_tick_def tick_idle_def)
  with assms(5) idle pn have t: "GeneralCache_tick R ltry (c\<lparr>fsm := Lookup r\<rparr>) m h = Inr (c', m', h')"
    by (auto simp: GeneralCache_try_register_req_def bindR_def split: sum.splits prod.splits)
  have "serves_loads (c\<lparr>fsm := Lookup r\<rparr>)" using assms(2,4) by (simp add: serves_loads_def caller_def)
  from tick_clean [OF t this] ok_coreD(1) [OF assms(1)] assms(4,6) show ?thesis
    by (auto simp: serves_loads_def core_def)
qed

end

end
