(* ===== verification/Split_Caches.thy ===== *)
theory Split_Caches
  imports Read_Only_Cache
begin

text \<open>
  The instruction cache and the data cache over the shared next level, as the pipeline drives them:
  the data port serves one request of the memory stage at a time, the instruction port one fetch at a
  time (an abandoned fetch may still be in progress).  The invariant \<open>sys\<close> says what both ports show:
  the data port a flat memory \<open>B\<close> with at most one access pending, the instruction port the bytes of
  a region \<open>K\<close> that no store touches.
\<close>

definition keeps_code :: "nat set \<Rightarrow> u8 list \<Rightarrow> u8 list \<Rightarrow> bool" where
  "keeps_code K img W \<longleftrightarrow> length W = length img \<and> (\<forall>a\<in>K. W ! a = img ! a)"

text \<open>A request that stores nothing into the region.\<close>

definition off_code :: "nat set \<Rightarrow> MemoryReqType \<Rightarrow> bool" where
  "off_code K r \<longleftrightarrow> (is_store r \<longrightarrow> K \<inter> {unat (get_addr r)..<unat (get_addr r) + get_len r} = {})"

lemma off_code_apply:
  assumes "off_code K r" "fresh_req r h" "admissible ml (length W) r" "keeps_code K img W" "K \<subseteq> {..<length img}"
  shows "keeps_code K img (apply_req r W)"
proof -
  have "apply_req r W ! a = W ! a" if "a \<in> K" for a
  proof (cases "is_store r")
    case True
    then obtain d where d: "store_data r = Inr d" using is_store_data by blast
    with store_lenD [OF assms(2) True] have "length d = get_len r" by simp
    moreover have "a \<notin> {unat (get_addr r)..<unat (get_addr r) + get_len r}" "a < length W"
      using that assms(1,4,5) True by (auto simp: off_code_def keeps_code_def)
    ultimately show ?thesis
      using assms(3) apply_store [OF d] by (auto simp: admissible_def nth_put_seg)
  qed (simp add: apply_load)
  with assms(4) apply_req_length [OF assms(2,3)] show ?thesis by (simp add: keeps_code_def)
qed

definition port_cells :: "'rp GeneralCache \<Rightarrow> nat set" where
  "port_cells c = tx_cells c \<union> (case caller c of None \<Rightarrow> {} | Some r \<Rightarrow> {req_cell_id r})"

lemma port_cells_tx: "tx_cells c \<subseteq> port_cells c"
  by (auto simp: port_cells_def)

lemma port_cells_caller: "caller c = Some r \<Longrightarrow> req_cell_id r \<in> port_cells c"
  by (simp add: port_cells_def)

lemma client_step_cells:
  assumes "client_step r c X h c' X' h'" "caller c = None \<or> caller c = Some r"
  shows "port_cells c' \<subseteq> insert (req_cell_id r) (port_cells c) \<union> {length h..<length h'}"
    "frame (insert (req_cell_id r) (port_cells c)) h h'"
  using assms by (auto simp: client_step_def port_cells_def elim!: frame_mono)

text \<open>
  The state of the instruction port: nothing of interest (an abandoned fetch may be in progress), free,
  a request not yet taken, or one taken.
\<close>

datatype fetch_port = NoFetch | Free | Unsent MemoryReqType | Sent MemoryReqType

locale split_caches = cache_client R ways_ok rp_inv rp_valid +
  shared: memory_device stry stick sinv spending scontents sowns swait smax_wait smax_len
  for R :: "'rp rp_ops" and ways_ok :: "nat \<Rightarrow> bool" and rp_inv :: "nat \<Rightarrow> 'rp \<Rightarrow> bool"
    and rp_valid :: "'rp \<Rightarrow> nat \<Rightarrow> bool"
    and stry :: "'s lower" and stick :: "'s \<Rightarrow> cells \<Rightarrow> ('s \<times> cells) res"
    and sinv :: "'s \<Rightarrow> cells \<Rightarrow> bool" and spending :: "'s \<Rightarrow> MemoryReqType option"
    and scontents :: "'s \<Rightarrow> u8 list" and sowns :: "'s \<Rightarrow> nat set" and swait :: "'s \<Rightarrow> nat"
    and smax_wait :: "'s \<Rightarrow> nat" and smax_len :: "'s \<Rightarrow> nat"
begin

definition owned :: "'rp GeneralCache \<Rightarrow> 'rp GeneralCache \<Rightarrow> 's \<Rightarrow> nat set" where
  "owned ic dc s = sowns s \<union> port_cells ic \<union> port_cells dc"

definition apart :: "'rp GeneralCache \<Rightarrow> 'rp GeneralCache \<Rightarrow> 's \<Rightarrow> bool" where
  "apart ic dc s \<longleftrightarrow> port_cells ic \<inter> port_cells dc = {} \<and> sowns s \<inter> (port_cells ic \<union> port_cells dc) = {}"

text \<open>The next level serves a transaction that one of the two caches waits for.\<close>

definition linked :: "'rp GeneralCache \<Rightarrow> 'rp GeneralCache \<Rightarrow> 's \<Rightarrow> cells \<Rightarrow> bool" where
  "linked ic dc s h \<longleftrightarrow>
     (\<forall>q. spending s = Some q \<longrightarrow> tx_of (fsm ic) = Some (Waiting q) \<or> tx_of (fsm dc) = Some (Waiting q)) \<and>
     (\<forall>q. tx_of (fsm ic) = Some (Waiting q) \<longrightarrow> \<not> is_done q h \<longrightarrow> spending s = Some q) \<and>
     (\<forall>q. tx_of (fsm dc) = Some (Waiting q) \<longrightarrow> \<not> is_done q h \<longrightarrow> spending s = Some q)"

definition base :: "nat set \<Rightarrow> u8 list \<Rightarrow> 'rp GeneralCache \<Rightarrow> 'rp GeneralCache \<Rightarrow> 's \<Rightarrow> cells \<Rightarrow> bool" where
  "base K img ic dc s h \<longleftrightarrow>
     sinv s h \<and> K \<subseteq> {..<length img} \<and> keeps_code K img (scontents s) \<and> keeps_code K img (view dc (scontents s)) \<and>
     ok (smax_len s) (scontents s) dc h \<and>
     (\<exists>X. ok (smax_len s) X ic h \<and> keeps_code K img (view ic X)) \<and> serves_loads ic \<and>
     (\<forall>r. caller dc = Some r \<longrightarrow> off_code K r) \<and> apart ic dc s"

text \<open>The data port shows \<open>B\<close>, with the request \<open>dr\<close> in progress or answered.\<close>

definition dport ::
  "u8 list \<Rightarrow> MemoryReqType option \<Rightarrow> 'rp GeneralCache \<Rightarrow> 'rp GeneralCache \<Rightarrow> 's \<Rightarrow> cells \<Rightarrow> bool" where
  "dport B dr ic dc s h \<longleftrightarrow>
     (case dr of
        None \<Rightarrow> caller dc = None \<and> view dc (scontents s) = B
      | Some r \<Rightarrow>
          caller dc = Some r \<and> (view dc (scontents s) = B \<or> view dc (scontents s) = apply_req r B) \<and>
            apply_req r (apply_req r B) = apply_req r B
          \<or> caller dc = None \<and> view dc (scontents s) = apply_req r B \<and>
            (\<exists>c. h ! req_cell_id r = completed_cell r B c) \<and> req_cell_id r < length h \<and>
            req_cell_id r \<notin> owned ic dc s)"

definition iport ::
  "nat set \<Rightarrow> u8 list \<Rightarrow> fetch_port \<Rightarrow> 'rp GeneralCache \<Rightarrow> 'rp GeneralCache \<Rightarrow> 's \<Rightarrow> cells \<Rightarrow> bool" where
  "iport K img ir ic dc s h \<longleftrightarrow>
     (case ir of
        NoFetch \<Rightarrow> True
      | Free \<Rightarrow> caller ic = None
      | Unsent r \<Rightarrow> fresh_req r h \<and> req_cell_id r \<notin> owned ic dc s
      | Sent r \<Rightarrow>
          caller ic = Some r
          \<or> caller ic = None \<and> (\<exists>W c. keeps_code K img W \<and> h ! req_cell_id r = completed_cell r W c) \<and>
            req_cell_id r < length h \<and> req_cell_id r \<notin> owned ic dc s)"

definition sys ::
  "nat set \<Rightarrow> u8 list \<Rightarrow> u8 list \<Rightarrow> MemoryReqType option \<Rightarrow> fetch_port \<Rightarrow>
   'rp GeneralCache \<Rightarrow> 'rp GeneralCache \<Rightarrow> 's \<Rightarrow> cells \<Rightarrow> bool" where
  "sys K img B dr ir ic dc s h \<longleftrightarrow>
     base K img ic dc s h \<and> linked ic dc s h \<and> dport B dr ic dc s h \<and> iport K img ir ic dc s h"

lemma sysD:
  assumes "sys K img B dr ir ic dc s h"
  shows "base K img ic dc s h" "linked ic dc s h" "dport B dr ic dc s h" "iport K img ir ic dc s h"
  using assms by (auto simp: sys_def)

lemma baseD:
  assumes "base K img ic dc s h"
  shows "sinv s h" "K \<subseteq> {..<length img}" "keeps_code K img (scontents s)" "keeps_code K img (view dc (scontents s))"
    "ok (smax_len s) (scontents s) dc h" "\<exists>X. ok (smax_len s) X ic h \<and> keeps_code K img (view ic X)"
    "serves_loads ic" "caller dc = Some r \<Longrightarrow> off_code K r" "apart ic dc s"
  using assms by (auto simp: base_def)

text \<open>All cells in use are allocated.\<close>

lemma ok_cells: "ok ml X c h \<Longrightarrow> port_cells c \<subseteq> {..<length h}"
  using ok_txD(1) [of ml X c h] ok_callerD(1) [of ml X c h]
  by (auto simp: port_cells_def tx_cells_def split: option.splits dest: fresh_reqD)

lemma owned_bounded: "base K img ic dc s h \<Longrightarrow> owned ic dc s \<subseteq> {..<length h}"
  using shared.inv_owns [of s h] ok_cells baseD(1,5,6) [of K img ic dc s h] unfolding owned_def by blast

subsection \<open>Requests of the user across a step\<close>

lemma dport_step:
  assumes "dport B dr ic dc s h" "frame Z h h'" "owned ic' dc' s' \<subseteq> Z \<union> {length h..<length h'}"
    "\<And>i. i \<in> Z \<Longrightarrow> i \<in> owned ic dc s \<or> \<not> cell_done (h ! i)"
    "caller dc' = caller dc" "view dc' (scontents s') = view dc (scontents s)"
  shows "dport B dr ic' dc' s' h'"
proof (cases dr)
  case None
  with assms show ?thesis by (simp add: dport_def)
next
  case (Some r)
  have "h' ! req_cell_id r = h ! req_cell_id r \<and> req_cell_id r < length h' \<and> req_cell_id r \<notin> owned ic' dc' s'"
    if "req_cell_id r < length h" "req_cell_id r \<notin> owned ic dc s" "h ! req_cell_id r = completed_cell r B c" for c
  proof -
    have "req_cell_id r \<notin> Z" using assms(4) [of "req_cell_id r"] that(2,3) by auto
    with that frame_nth [OF assms(2)] frame_length [OF assms(2)] assms(3) show ?thesis by auto
  qed
  with assms(1,5,6) Some show ?thesis by (auto simp: dport_def)
qed

lemma iport_step:
  assumes "iport K img ir ic dc s h" "frame Z h h'" "owned ic' dc' s' \<subseteq> Z \<union> {length h..<length h'}"
    "\<And>i. i \<in> Z \<Longrightarrow> i \<in> owned ic dc s \<or> \<not> cell_done (h ! i)"
    "caller ic' = caller ic" "\<And>r. ir = Unsent r \<Longrightarrow> req_cell_id r \<notin> Z"
  shows "iport K img ir ic' dc' s' h'"
proof (cases ir)
  case (Unsent r)
  with assms(1) have r: "fresh_req r h" "req_cell_id r \<notin> owned ic dc s" by (auto simp: iport_def)
  note l = fresh_reqD [OF r(1)]
  have "h' ! req_cell_id r = h ! req_cell_id r" using frame_nth [OF assms(2) l] assms(6) [OF Unsent] by simp
  with fresh_req_frame [OF r(1) frame_length [OF assms(2)]] Unsent assms(3) assms(6) [OF Unsent] l show ?thesis
    by (auto simp: iport_def)
next
  case (Sent r)
  have "h' ! req_cell_id r = h ! req_cell_id r \<and> req_cell_id r < length h' \<and> req_cell_id r \<notin> owned ic' dc' s'"
    if "req_cell_id r < length h" "req_cell_id r \<notin> owned ic dc s" "h ! req_cell_id r = completed_cell r W c" for W c
  proof -
    have "req_cell_id r \<notin> Z" using assms(4) [of "req_cell_id r"] that(2,3) by auto
    with that frame_nth [OF assms(2)] frame_length [OF assms(2)] assms(3) show ?thesis by auto
  qed
  with assms(1,5) Sent show ?thesis by (fastforce simp: iport_def)
qed (use assms(1,5) in \<open>simp_all add: iport_def\<close>)

subsection \<open>Steps of one cache alone\<close>

lemma linkedI:
  assumes "\<And>q. spending s = Some q \<Longrightarrow> tx_of (fsm ic) = Some (Waiting q) \<or> tx_of (fsm dc) = Some (Waiting q)"
    "\<And>q. tx_of (fsm ic) = Some (Waiting q) \<Longrightarrow> \<not> is_done q h \<Longrightarrow> spending s = Some q"
    "\<And>q. tx_of (fsm dc) = Some (Waiting q) \<Longrightarrow> \<not> is_done q h \<Longrightarrow> spending s = Some q"
  shows "linked ic dc s h"
  using assms by (simp add: linked_def)

lemma linkedD:
  assumes "linked ic dc s h"
  shows "tx_of (fsm ic) = Some (Waiting q) \<Longrightarrow> \<not> is_done q h \<Longrightarrow> spending s = Some q"
    "tx_of (fsm dc) = Some (Waiting q) \<Longrightarrow> \<not> is_done q h \<Longrightarrow> spending s = Some q"
    "spending s = Some q \<Longrightarrow> tx_of (fsm ic) = Some (Waiting q) \<or> tx_of (fsm dc) = Some (Waiting q)"
  using assms by (simp_all add: linked_def)

text \<open>Whom the next level serves.\<close>

lemma pending_data:
  assumes "base K img ic dc s h" "linked ic dc s h" "\<not> in_flight h ic" "spending s = Some q"
  shows "tx_of (fsm dc) = Some (Waiting q)" "in_flight h dc"
proof -
  have "\<not> is_done q h" using shared.inv_pending [OF baseD(1) [OF assms(1)] assms(4)] fresh_req_not_done by blast
  with assms(2-4) show "tx_of (fsm dc) = Some (Waiting q)" "in_flight h dc"
    by (auto simp: linked_def in_flight_def)
qed

lemma pending_fetch:
  assumes "base K img ic dc s h" "linked ic dc s h" "\<not> in_flight h dc" "spending s = Some q"
  shows "tx_of (fsm ic) = Some (Waiting q)" "in_flight h ic"
proof -
  have "\<not> is_done q h" using shared.inv_pending [OF baseD(1) [OF assms(1)] assms(4)] fresh_req_not_done by blast
  with assms(2-4) show "tx_of (fsm ic) = Some (Waiting q)" "in_flight h ic"
    by (auto simp: linked_def in_flight_def)
qed

lemma tx_cells_Waiting: "tx_of (fsm c) = Some (Waiting q) \<Longrightarrow> req_cell_id q \<in> port_cells c"
  by (simp add: port_cells_def tx_cells_def)

lemma sinv_other:
  assumes "base K img ic dc s h" "frame Z h h'" "Z \<inter> sowns s = {}"
    "\<And>q. spending s = Some q \<Longrightarrow> req_cell_id q \<notin> Z"
  shows "sinv s h'"
proof (rule shared.inv_frame [OF baseD(1) [OF assms(1)] frame_length [OF assms(2)]])
  show "h' ! i = h ! i" if "i \<in> sowns s" for i
    using that shared.inv_owns [OF baseD(1) [OF assms(1)]] assms(3) by (intro frame_nth [OF assms(2)]) auto
  show "h' ! req_cell_id q = h ! req_cell_id q" if "spending s = Some q" for q
    using that assms(4) shared.inv_pending [OF baseD(1) [OF assms(1)] that]
    by (intro frame_nth [OF assms(2)]) (auto dest: fresh_reqD)
qed

lemma ok_other:
  assumes "ok ml X c h" "frame Z h h'" "Z \<inter> port_cells c = {}"
  shows "ok ml X c h'" "in_flight h' c = in_flight h c"
    "tx_of (fsm c) = Some (Waiting q) \<Longrightarrow> is_done q h' = is_done q h"
    "caller c = Some r \<Longrightarrow> h' ! req_cell_id r = h ! req_cell_id r"
proof -
  have e: "h' ! i = h ! i" if "i \<in> port_cells c" for i
    using that assms(3) ok_cells [OF assms(1)] by (intro frame_nth [OF assms(2)]) auto
  show "ok ml X c h'" "in_flight h' c = in_flight h c"
    by (rule client_frame [OF assms(1) frame_length [OF assms(2)]]; use e port_cells_tx port_cells_caller in blast)+
  show "is_done q h' = is_done q h" if "tx_of (fsm c) = Some (Waiting q)"
    using e [OF tx_cells_Waiting [OF that]] by (simp add: is_done_cell)
  show "h' ! req_cell_id r = h ! req_cell_id r" if "caller c = Some r"
    by (rule e [OF port_cells_caller [OF that]])
qed

text \<open>A step of the instruction cache on behalf of the fetch \<open>r\<close>.\<close>

lemma i_step:
  assumes b: "base K img ic dc s h" and l: "linked ic dc s h"
    and X: "ok (smax_len s) X ic h" "keeps_code K img (view ic X)"
    and st: "client_step r ic X h ic' X h'" "ok (smax_len s) X ic' h'" "serves_loads ic'"
    and r: "caller ic = None \<or> caller ic = Some r" "\<not> is_store r" "req_cell_id r \<notin> sowns s \<union> port_cells dc"
      "req_cell_id r < length h"
    and f: "\<not> in_flight h ic" "\<not> in_flight h' ic'"
  defines "Z \<equiv> insert (req_cell_id r) (port_cells ic)"
  shows "base K img ic' dc s h'" "linked ic' dc s h'" "frame Z h h'"
    "owned ic' dc s \<subseteq> insert (req_cell_id r) (owned ic dc s) \<union> {length h..<length h'}"
proof -
  note c = client_step_cells [OF st(1) r(1), folded Z_def]
  show fr: "frame Z h h'" by (fact c(2))
  show "owned ic' dc s \<subseteq> insert (req_cell_id r) (owned ic dc s) \<union> {length h..<length h'}"
    using c(1) by (auto simp: owned_def Z_def)
  have ap: "port_cells ic \<inter> port_cells dc = {}" "sowns s \<inter> (port_cells ic \<union> port_cells dc) = {}"
    using baseD(9) [OF b] by (auto simp: apart_def)
  have Zd: "Z \<inter> port_cells dc = {}" "Z \<inter> sowns s = {}" using ap r(3) by (auto simp: Z_def)
  have Zq: "req_cell_id q \<notin> Z" if "spending s = Some q" for q
    using tx_cells_Waiting [OF pending_data(1) [OF b l f(1) that]] Zd by auto
  have "view ic' X = view ic X"
    using st(1) r(2) by (auto simp: client_step_def apply_load)
  moreover have "apart ic' dc s"
  proof -
    have "{length h..<length h'} \<inter> (port_cells dc \<union> sowns s) = {}"
      using ok_cells [OF baseD(5) [OF b]] shared.inv_owns [OF baseD(1) [OF b]] by fastforce
    with c(1) Zd ap show ?thesis unfolding apart_def Z_def by blast
  qed
  ultimately show "base K img ic' dc s h'"
    using b X(2) st(2,3) sinv_other [OF b fr Zd(2) Zq] ok_other(1) [OF baseD(5) [OF b] fr Zd(1)]
    by (auto simp: base_def)
  have n: "tx_of (fsm ic') = Some (Waiting q) \<Longrightarrow> is_done q h'" for q
    using f(2) by (auto simp: in_flight_def)
  note d = ok_other(3) [OF baseD(5) [OF b] fr Zd(1)]
  show "linked ic' dc s h'"
    by (rule linkedI) (use pending_data(1) [OF b l f(1)] n d linkedD(2) [OF l] in blast)+
qed

text \<open>A step of the data cache on behalf of the access \<open>r\<close>.\<close>

lemma d_step:
  assumes b: "base K img ic dc s h" and l: "linked ic dc s h"
    and st: "client_step r dc (scontents s) h dc' (scontents s) h'" "ok (smax_len s) (scontents s) dc' h'"
    and r: "caller dc = None \<or> caller dc = Some r" "off_code K r" "fresh_req r h"
      "admissible ml (length img) r" "req_cell_id r \<notin> sowns s \<union> port_cells ic"
    and f: "\<not> in_flight h dc" "\<not> in_flight h' dc'"
  defines "Z \<equiv> insert (req_cell_id r) (port_cells dc)"
  shows "base K img ic dc' s h'" "linked ic dc' s h'" "frame Z h h'"
    "owned ic dc' s \<subseteq> insert (req_cell_id r) (owned ic dc s) \<union> {length h..<length h'}"
proof -
  note c = client_step_cells [OF st(1) r(1), folded Z_def]
  from baseD(6) [OF b] obtain X where X: "ok (smax_len s) X ic h" "keeps_code K img (view ic X)" by blast
  show fr: "frame Z h h'" by (fact c(2))
  show "owned ic dc' s \<subseteq> insert (req_cell_id r) (owned ic dc s) \<union> {length h..<length h'}"
    using c(1) by (auto simp: owned_def Z_def)
  have ap: "port_cells ic \<inter> port_cells dc = {}" "sowns s \<inter> (port_cells ic \<union> port_cells dc) = {}"
    using baseD(9) [OF b] by (auto simp: apart_def)
  have Zi: "Z \<inter> port_cells ic = {}" "Z \<inter> sowns s = {}" using ap r(5) by (auto simp: Z_def)
  have Zq: "req_cell_id q \<notin> Z" if "spending s = Some q" for q
    using tx_cells_Waiting [OF pending_fetch(1) [OF b l f(1) that]] Zi by auto
  have "keeps_code K img (apply_req r (view dc (scontents s)))"
    by (rule off_code_apply [OF r(2,3) _ baseD(4) [OF b] baseD(2) [OF b], of ml])
      (use r(4) baseD(3) [OF b] in \<open>simp add: keeps_code_def\<close>)
  then have "keeps_code K img (view dc' (scontents s))"
    using st(1) baseD(4) [OF b] by (auto simp: client_step_def)
  moreover have "apart ic dc' s"
  proof -
    have "{length h..<length h'} \<inter> (port_cells ic \<union> sowns s) = {}"
      using ok_cells [OF X(1)] shared.inv_owns [OF baseD(1) [OF b]] by fastforce
    with c(1) Zi ap show ?thesis unfolding apart_def Z_def by blast
  qed
  moreover have "off_code K q" if "caller dc' = Some q" for q
    using that st(1) r(2) by (auto simp: client_step_def)
  ultimately show "base K img ic dc' s h'"
    using b X(2) st(2) sinv_other [OF b fr Zi(2) Zq] ok_other(1) [OF X(1) fr Zi(1)]
    by (auto simp: base_def)
  have n: "tx_of (fsm dc') = Some (Waiting q) \<Longrightarrow> is_done q h'" for q
    using f(2) by (auto simp: in_flight_def)
  note d = ok_other(3) [OF X(1) fr Zi(1)]
  show "linked ic dc' s h'"
    by (rule linkedI) (use pending_fetch(1) [OF b l f(1)] n d linkedD(1) [OF l] in blast)+
qed

text \<open>The ports after such steps.\<close>

lemma iport_i:
  assumes "iport K img ir ic dc s h" "frame Z h h'" "owned ic' dc s \<subseteq> Z \<union> {length h..<length h'}"
    "caller ic = Some r" "req_cell_id r < length h" "\<And>p. ir = Unsent p \<Longrightarrow> req_cell_id p \<notin> Z"
    and "caller ic' = Some r \<or> caller ic' = None \<and> keeps_code K img W \<and>
      h' ! req_cell_id r = completed_cell r W c \<and> req_cell_id r \<notin> owned ic' dc s"
  shows "iport K img ir ic' dc s h'"
proof (cases ir)
  case (Sent p)
  with assms(1,4) have "p = r" by (auto simp: iport_def)
  with Sent assms(5,7) frame_length [OF assms(2)] show ?thesis by (auto simp: iport_def)
next
  case (Unsent p)
  with assms(1) have p: "fresh_req p h" "req_cell_id p \<notin> owned ic dc s" by (auto simp: iport_def)
  have "h' ! req_cell_id p = h ! req_cell_id p"
    using frame_nth [OF assms(2) fresh_reqD [OF p(1)]] assms(6) [OF Unsent] by simp
  with fresh_req_frame [OF p(1) frame_length [OF assms(2)]] Unsent assms(3) assms(6) [OF Unsent]
    fresh_reqD [OF p(1)] show ?thesis by (auto simp: iport_def)
qed (use assms(1,4) in \<open>simp_all add: iport_def\<close>)

subsection \<open>Steps of the next level\<close>

lemma served_frame:
  assumes "base K img ic dc s h" "serves spending scontents sowns q s h s' h'"
    "req_cell_id q \<in> port_cells ic \<union> port_cells dc"
  shows "frame (insert (req_cell_id q) (sowns s)) h h'" "frame (owned ic dc s) h h'"
    "owned ic dc s' \<subseteq> owned ic dc s \<union> {length h..<length h'}" "apart ic dc s'"
proof -
  show f: "frame (insert (req_cell_id q) (sowns s)) h h'" using assms(2) by (simp add: serves_def)
  then show "frame (owned ic dc s) h h'" by (rule frame_mono) (use assms(3) in \<open>auto simp: owned_def\<close>)
  have o: "sowns s' \<subseteq> sowns s \<union> {length h..<length h'}" using assms(2) by (simp add: serves_def)
  then show "owned ic dc s' \<subseteq> owned ic dc s \<union> {length h..<length h'}" by (auto simp: owned_def)
  have "(port_cells ic \<union> port_cells dc) \<inter> {length h..<length h'} = {}"
    using owned_bounded [OF assms(1)] by (fastforce simp: owned_def)
  with o baseD(9) [OF assms(1)] show "apart ic dc s'" unfolding apart_def by blast
qed

lemma served_linked_i:
  assumes "serves spending scontents sowns q s h s' h'" "tx_of (fsm ic) = Some (Waiting q)" "\<not> in_flight h' dc"
  shows "linked ic dc s' h'"
  using assms by (intro linkedI) (auto simp: serves_def in_flight_def is_done_cell)

lemma served_linked_d:
  assumes "serves spending scontents sowns q s h s' h'" "tx_of (fsm dc) = Some (Waiting q)" "\<not> in_flight h' ic"
  shows "linked ic dc s' h'"
  using assms by (intro linkedI) (auto simp: serves_def in_flight_def is_done_cell)

text \<open>The next level works on a refill of the instruction cache.\<close>

lemma served_i:
  assumes b: "base K img ic dc s h" and tx: "tx_of (fsm ic) = Some (Waiting q)" "in_flight h ic"
    and nd: "\<not> in_flight h dc" and sv: "serves spending scontents sowns q s h s' h'"
    and li: "sinv s' h'" "smax_len s' = smax_len s"
  shows "base K img ic dc s' h'" "linked ic dc s' h'" "scontents s' = scontents s"
proof -
  let ?ml = "smax_len s" and ?a = "unat (get_addr q)" and ?n = "get_len q" and ?S = "scontents s"
  from baseD(6) [OF b] obtain X where X: "ok ?ml X ic h" "keeps_code K img (view ic X)" by blast
  from refill_only [OF X(1) baseD(7) [OF b] tx(1)] obtain r where
    r: "caller ic = Some r" "\<not> is_store q" by auto
  show S: "scontents s' = scontents s" using sv r(2) by (auto simp: serves_def apply_load)
  have q: "req_cell_id q \<in> port_cells ic" by (rule tx_cells_Waiting [OF tx(1)])
  note f = served_frame [OF b sv UnI1 [OF q]]
  have dj: "insert (req_cell_id q) (sowns s) \<inter> port_cells dc = {}"
    using baseD(9) [OF b] q by (auto simp: apart_def)
  note D = ok_other [OF baseD(5) [OF b] f(1) dj]
  show "linked ic dc s' h'" by (rule served_linked_i [OF sv tx(1)]) (use D(2) nd in simp)
  have rq: "req_cell_id r \<noteq> req_cell_id q" "req_cell_id r \<notin> sowns s" "req_cell_id r < length h"
    using ok_callerD(3) [OF X(1) r(1)] tx(1) baseD(9) [OF b] port_cells_caller [OF r(1)]
      fresh_reqD [OF ok_callerD(1) [OF X(1) r(1)]] by (auto simp: tx_cells_def apart_def)
  have rc: "h' ! req_cell_id r = h ! req_cell_id r" using frame_nth [OF f(1) rq(3)] rq by simp
  note len = frame_length [OF f(1)]
  have adm: "?a + ?n \<le> length X" using ok_txD(2) [OF X(1) tx(1)] by (simp add: admissible_def)
  have lX: "length X = length ?S" using X(2) baseD(3) [OF b] by (simp add: keeps_code_def)
  have "\<exists>Y. ok ?ml Y ic h' \<and> keeps_code K img (view ic Y)"
  proof (cases "spending s'")
    case None
    define D where "D = seg ?a ?n ?S"
    define Y where "Y = put_seg ?a D X"
    have lD: "length D = ?n" using adm lX by (simp add: D_def)
    have lD': "length D = get_len (transaction_req (Waiting q))" using lD by simp
    note rf = refresh [OF X(1) baseD(7) [OF b] tx(1) _ lD', simplified, folded Y_def]
    have Y: "ok ?ml Y ic h" "length Y = length X" "view ic Y = put_seg ?a D (view ic X)"
      using rf tx(2) by blast+
    have "seg ?a ?n Y = D" using seg_put_seg_same [of ?a D X] adm lD by (simp add: Y_def)
    then have "completed_cell q Y c = completed_cell q ?S c" for c
      using r(2) by (cases q) (auto simp: D_def)
    then have c: "h' ! req_cell_id q = completed_cell q Y (h ! req_cell_id q)"
      using sv None by (simp add: serves_def)
    from client_answered(1) [OF Y(1) tx r(1) len c rc] have "ok ?ml Y ic h'" using r(2) by (simp add: apply_load)
    moreover have "view ic Y ! a = img ! a" if "a \<in> K" for a
    proof -
      have a: "a < length img" "view ic X ! a = img ! a" "?S ! a = img ! a" "length (view ic X) = length img"
        "length ?S = length img" using that X(2) baseD(2,3) [OF b] by (auto simp: keeps_code_def)
      then show ?thesis using adm lD lX by (auto simp: Y(3) nth_put_seg D_def)
    qed
    ultimately show ?thesis using X(2) Y(2) by (auto simp: keeps_code_def)
  next
    case (Some p)
    with sv have "h' ! req_cell_id q = h ! req_cell_id q" by (auto simp: serves_def)
    with client_frame(1) [OF X(1) len] rc r(1) tx(1) X(2) show ?thesis by (auto simp: tx_cells_def)
  qed
  with b li D(1) f(4) S show "base K img ic dc s' h'" by (simp add: base_def)
qed

text \<open>The next level works on a transaction of the data cache.\<close>

lemma served_d:
  assumes b: "base K img ic dc s h" and tx: "tx_of (fsm dc) = Some (Waiting q)" "in_flight h dc"
    and nd: "\<not> in_flight h ic" and sv: "serves spending scontents sowns q s h s' h'"
    and li: "sinv s' h'" "smax_len s' = smax_len s" and cl: "caller dc = Some r"
  shows "base K img ic dc s' h'" "linked ic dc s' h'"
    "view dc (scontents s') = view dc (scontents s) \<or> view dc (scontents s') = apply_req r (view dc (scontents s))"
proof -
  let ?ml = "smax_len s" and ?S = "scontents s"
  note D = baseD(5) [OF b]
  from baseD(6) [OF b] obtain X where X: "ok ?ml X ic h" "keeps_code K img (view ic X)" by blast
  have q: "req_cell_id q \<in> port_cells dc" by (rule tx_cells_Waiting [OF tx(1)])
  note f = served_frame [OF b sv UnI2 [OF q]]
  have dj: "insert (req_cell_id q) (sowns s) \<inter> port_cells ic = {}"
    using baseD(9) [OF b] q by (auto simp: apart_def)
  note I = ok_other [OF X(1) f(1) dj]
  show l: "linked ic dc s' h'" by (rule served_linked_d [OF sv tx(1)]) (use I(2) nd in simp)
  have rq: "req_cell_id r \<noteq> req_cell_id q" "req_cell_id r \<notin> sowns s" "req_cell_id r < length h"
    using ok_callerD(3) [OF D cl] tx(1) baseD(9) [OF b] port_cells_caller [OF cl]
      fresh_reqD [OF ok_callerD(1) [OF D cl]] by (auto simp: tx_cells_def apart_def)
  have rc: "h' ! req_cell_id r = h ! req_cell_id r" using frame_nth [OF f(1) rq(3)] rq by simp
  note len = frame_length [OF f(1)]
  note ap = client_applied [OF D tx(1) disjI2 [OF tx(2)] cl, simplified]
  have S: "scontents s' = ?S \<or> scontents s' = apply_req q ?S" using sv by (auto simp: serves_def)
  then show v: "view dc (scontents s') = view dc ?S \<or> view dc (scontents s') = apply_req r (view dc ?S)"
    using ap(3) by auto
  have oc: "off_code K r" by (rule baseD(8) [OF b cl])
  note r = ok_callerD(1,2) [OF D cl]
  have kS: "keeps_code K img (apply_req r ?S)" "keeps_code K img (apply_req r (view dc ?S))"
    using off_code_apply [OF oc r(1) _ _ baseD(2) [OF b]] r(2) baseD(3,4) [OF b] by simp_all
  have "keeps_code K img (apply_req q ?S)"
  proof -
    have "apply_req q ?S ! a = img ! a" if "a \<in> K" for a
      using client_tx_bytes [OF D tx(1) cl, of a] that baseD(2-4) [OF b] kS(1) by (auto simp: keeps_code_def)
    with ap(2) baseD(3) [OF b] show ?thesis by (simp add: keeps_code_def)
  qed
  then have k: "keeps_code K img (scontents s')" "keeps_code K img (view dc (scontents s'))"
    using S v kS(2) baseD(3,4) [OF b] by auto
  have "ok ?ml (scontents s') dc h'"
  proof (cases "spending s'")
    case None
    with sv have n: "h' ! req_cell_id q = completed_cell q ?S (h ! req_cell_id q)" "scontents s' = apply_req q ?S"
      by (auto simp: serves_def)
    from client_answered(1) [OF D tx cl len n(1) rc] n(2) show ?thesis by simp
  next
    case (Some p)
    with sv have "h' ! req_cell_id q = h ! req_cell_id q" by (auto simp: serves_def)
    then have "ok ?ml Y dc h'" if "ok ?ml Y dc h" for Y
      using client_frame(1) [OF that len] rc cl tx(1) by (auto simp: tx_cells_def)
    with S ap(1) D show ?thesis by auto
  qed
  with b li I(1) X(2) f(4) k show "base K img ic dc s' h'" by (auto simp: base_def)
qed

lemma dport_served:
  assumes "dport B dr ic dc s h" "caller dc = Some r"
    "view dc (scontents s') = view dc (scontents s) \<or> view dc (scontents s') = apply_req r (view dc (scontents s))"
  shows "dport B dr ic dc s' h'"
  using assms by (auto simp: dport_def split: option.splits)

subsection \<open>The clocks\<close>

lemma owned_no_user:
  assumes "base K img ic dc s h" "caller ic = None \<or> caller ic = Some r"
    and "client_step r ic X h ic' X h'" "caller ic' = None" "ok ml X ic h"
    and "req_cell_id r < length h" "req_cell_id r \<notin> sowns s \<union> port_cells dc"
  shows "req_cell_id r \<notin> owned ic' dc s"
proof -
  have "req_cell_id r \<notin> tx_cells ic"
    using assms(2) ok_callerD(3) [OF assms(5)] ok_idle [OF assms(5)] by (auto simp: tx_cells_def)
  with assms(3,4,6,7) show ?thesis by (auto simp: client_step_def owned_def port_cells_def)
qed

text \<open>The instruction cache is clocked.\<close>

lemma tick_i:
  assumes y: "sys K img B dr ir ic dc s h"
  shows "\<exists>ic' s' h'. GeneralCache_tick R stry ic s h = Inr (ic', s', h') \<and> sys K img B dr ir ic' dc s' h' \<and>
    blk_bytes ic' = blk_bytes ic \<and> smax_len s' = smax_len s"
proof -
  note b = sysD(1) [OF y] and l = sysD(2) [OF y]
  let ?ml = "smax_len s"
  from baseD(6) [OF b] obtain X where X: "ok ?ml X ic h" "keeps_code K img (view ic X)" by blast
  consider "caller ic = None" | "in_flight h ic" | q where "tx_of (fsm ic) = Some (Sending q)" |
    r where "caller ic = Some r" "\<not> sending ic" "\<not> in_flight h ic"
    by (auto simp: sending_def)
  then show ?thesis
  proof cases
    case 1
    with client_idle_tick [OF X(1) 1, of stry s] y show ?thesis by blast
  next
    case 2
    with tick_in_flight_same [OF 2, of R stry s] y show ?thesis by blast
  next
    case 3
    have nf: "\<not> in_flight h ic" using 3 by (simp add: in_flight_def)
    have q: "fresh_req q h" "admissible ?ml (length (scontents s)) q" "req_cell_id q \<notin> sowns s"
      using ok_txD(2,4) [OF X(1) 3] 3 X(2) baseD(3,9) [OF b]
      by (auto simp: sending_def keeps_code_def apart_def port_cells_def tx_cells_def)
    show ?thesis
    proof (cases "spending s")
      case (Some p)
      have "stry q s h = Inr (False, s, h)" by (rule shared.try_reg_busy [OF baseD(1) [OF b] Some q(2)])
      from tick_sending [of ic q stry s h, OF 3 this] y with_tx_same [OF 3] show ?thesis by simp
    next
      case None
      from shared.try_reg_free [OF baseD(1) [OF b] None q(2,1,3)] obtain s' h' where
        t: "stry q s h = Inr (True, s', h')" "sinv s' h'" "serves spending scontents sowns q s h s' h'"
          "smax_len s' = ?ml" by blast
      define ic' where "ic' = ic\<lparr>fsm := with_tx (fsm ic) (Waiting q)\<rparr>"
      note ac = client_accepted [OF X(1) 3, folded ic'_def]
      have pc: "port_cells ic' = port_cells ic" using ac(4,7) by (simp add: port_cells_def)
      have b': "base K img ic' dc s h"
        using b ac(1,7) X(2) pc by (auto simp: base_def serves_loads_def apart_def ic'_def)
      have ow: "owned ic' dc z = owned ic dc z" for z using pc by (simp add: owned_def)
      have nd: "\<not> in_flight h dc" using linkedD(2) [OF l] None by (auto simp: in_flight_def)
      note sv = served_i [OF b' ac(6,2) nd t(3,2,4)]
      note f = served_frame(2,3) [OF b' t(3), unfolded ow]
      have fr: "frame (owned ic dc s) h h'" "owned ic dc s' \<subseteq> owned ic dc s \<union> {length h..<length h'}"
        using f tx_cells_Waiting [OF ac(6)] by auto
      have "dport B dr ic' dc s' h'"
        by (rule dport_step [OF sysD(3) [OF y] fr(1)]) (use fr(2) sv(3) ow in simp_all)
      moreover have "iport K img ir ic' dc s' h'"
        by (rule iport_step [OF sysD(4) [OF y] fr(1)])
          (use fr(2) ow ac(7) sysD(4) [OF y] in \<open>auto simp: iport_def\<close>)
      moreover have "GeneralCache_tick R stry ic s h = Inr (ic', s', h')"
        using tick_sending [of ic q stry s h, OF 3 t(1)] by (simp add: ic'_def)
      ultimately show ?thesis using sv t(4) by (auto simp: sys_def ic'_def)
    qed
  next
    case 4
    from client_tick [OF X(1) 4, of stry s] obtain ic' h' where
      t: "GeneralCache_tick R stry ic s h = Inr (ic', s, h')" "ok ?ml X ic' h'" "client_step r ic X h ic' X h'"
        "\<not> in_flight h' ic'" "blk_bytes ic' = blk_bytes ic" by blast
    have cl': "caller ic' = None \<or> caller ic' = caller ic" using t(3) 4(1) by (auto simp: client_step_def)
    have sl: "serves_loads ic'" by (rule tick_serves_loads [OF X(1) baseD(7) [OF b] t(1) cl'])
    have r: "\<not> is_store r" "req_cell_id r \<notin> sowns s \<union> port_cells dc" "req_cell_id r < length h"
      using baseD(7,9) [OF b] 4(1) port_cells_caller [OF 4(1)] fresh_reqD [OF ok_callerD(1) [OF X(1) 4(1)]]
      by (auto simp: serves_loads_def apart_def)
    note st = i_step [OF b l X t(3,2) sl disjI2 [OF 4(1)] r 4(3) t(4)]
    have own: "insert (req_cell_id r) (port_cells ic) \<subseteq> owned ic dc s"
      using port_cells_caller [OF 4(1)] by (auto simp: owned_def)
    have fr: "frame (owned ic dc s) h h'" "owned ic' dc s \<subseteq> owned ic dc s \<union> {length h..<length h'}"
      using frame_mono [OF st(3) own] st(4) own by auto
    have "dport B dr ic' dc s h'"
      by (rule dport_step [OF sysD(3) [OF y] fr]) simp_all
    moreover have "iport K img ir ic' dc s h'"
      by (rule iport_i [OF sysD(4) [OF y] fr 4(1) r(3), where W = "view ic X" and c = "h ! req_cell_id r"])
        (use sysD(4) [OF y] t(3) X(2) owned_no_user [OF b disjI2 [OF 4(1)] t(3) _ X(1) r(3,2)] in
          \<open>auto simp: iport_def client_step_def\<close>)
    ultimately show ?thesis using t(1,5) st(1,2) by (auto simp: sys_def)
  qed
qed

text \<open>The data cache is clocked.\<close>

lemma tick_d:
  assumes y: "sys K img B dr ir ic dc s h"
  shows "\<exists>dc' s' h'. GeneralCache_tick R stry dc s h = Inr (dc', s', h') \<and> sys K img B dr ir ic dc' s' h' \<and>
    blk_bytes dc' = blk_bytes dc \<and> smax_len s' = smax_len s"
proof -
  note b = sysD(1) [OF y] and l = sysD(2) [OF y]
  let ?ml = "smax_len s" and ?S = "scontents s"
  note D = baseD(5) [OF b]
  consider "caller dc = None" | "in_flight h dc" | q where "tx_of (fsm dc) = Some (Sending q)" |
    r where "caller dc = Some r" "\<not> sending dc" "\<not> in_flight h dc"
    by (auto simp: sending_def)
  then show ?thesis
  proof cases
    case 1
    with client_idle_tick [OF D 1, of stry s] y show ?thesis by blast
  next
    case 2
    with tick_in_flight_same [OF 2, of R stry s] y show ?thesis by blast
  next
    case 3
    have q: "fresh_req q h" "admissible ?ml (length ?S) q" "req_cell_id q \<notin> sowns s"
      using ok_txD(2,4) [OF D 3] 3 baseD(9) [OF b]
      by (auto simp: sending_def apart_def port_cells_def tx_cells_def)
    show ?thesis
    proof (cases "spending s")
      case (Some p)
      have "stry q s h = Inr (False, s, h)" by (rule shared.try_reg_busy [OF baseD(1) [OF b] Some q(2)])
      from tick_sending [of dc q stry s h, OF 3 this] y with_tx_same [OF 3] show ?thesis by simp
    next
      case None
      from shared.try_reg_free [OF baseD(1) [OF b] None q(2,1,3)] obtain s' h' where
        t: "stry q s h = Inr (True, s', h')" "sinv s' h'" "serves spending scontents sowns q s h s' h'"
          "smax_len s' = ?ml" by blast
      define dc' where "dc' = dc\<lparr>fsm := with_tx (fsm dc) (Waiting q)\<rparr>"
      note ac = client_accepted [OF D 3, folded dc'_def]
      from ok_txD(3) [OF D 3] obtain r where cl: "caller dc = Some r" by blast
      have pc: "port_cells dc' = port_cells dc" using ac(4,7) by (simp add: port_cells_def)
      have b': "base K img ic dc' s h"
        using b ac(1,5,7) pc by (auto simp: base_def apart_def)
      have ow: "owned ic dc' z = owned ic dc z" for z using pc by (simp add: owned_def)
      have nd: "\<not> in_flight h ic" using linkedD(1) [OF l] None by (auto simp: in_flight_def)
      have cl': "caller dc' = Some r" using cl ac(7) by simp
      note sv = served_d [OF b' ac(6,2) nd t(3,2,4) cl']
      note f = served_frame(2,3) [OF b' t(3), unfolded ow]
      have fr: "frame (owned ic dc s) h h'" "owned ic dc s' \<subseteq> owned ic dc s \<union> {length h..<length h'}"
        using f tx_cells_Waiting [OF ac(6)] by auto
      have "dport B dr ic dc' s h"
        using sysD(3) [OF y] ac(5,7) ow by (simp add: dport_def split: option.splits)
      from dport_served [OF this cl' sv(3)] have "dport B dr ic dc' s' h'" .
      moreover have "iport K img ir ic dc' s' h'"
        by (rule iport_step [OF sysD(4) [OF y] fr(1)])
          (use fr(2) ow sysD(4) [OF y] in \<open>auto simp: iport_def\<close>)
      moreover have "GeneralCache_tick R stry dc s h = Inr (dc', s', h')"
        using tick_sending [of dc q stry s h, OF 3 t(1)] by (simp add: dc'_def)
      ultimately show ?thesis using sv t(4) by (auto simp: sys_def dc'_def)
    qed
  next
    case 4
    from client_tick [OF D 4, of stry s] obtain dc' h' where
      t: "GeneralCache_tick R stry dc s h = Inr (dc', s, h')" "ok ?ml ?S dc' h'" "client_step r dc ?S h dc' ?S h'"
        "\<not> in_flight h' dc'" "blk_bytes dc' = blk_bytes dc" by blast
    have r: "fresh_req r h" "admissible (blk_bytes dc) (length img) r" "req_cell_id r \<notin> sowns s \<union> port_cells ic"
      using ok_callerD(1,2) [OF D 4(1)] baseD(3,9) [OF b] port_cells_caller [OF 4(1)]
      by (auto simp: apart_def keeps_code_def)
    note st = d_step [OF b l t(3,2) disjI2 [OF 4(1)] baseD(8) [OF b 4(1)] r 4(3) t(4)]
    have own: "insert (req_cell_id r) (port_cells dc) \<subseteq> owned ic dc s"
      using port_cells_caller [OF 4(1)] by (auto simp: owned_def)
    have fr: "frame (owned ic dc s) h h'" "owned ic dc' s \<subseteq> owned ic dc s \<union> {length h..<length h'}"
      using frame_mono [OF st(3) own] st(4) own by auto
    have "iport K img ir ic dc' s h'"
      by (rule iport_step [OF sysD(4) [OF y] fr]) (use sysD(4) [OF y] in \<open>auto simp: iport_def\<close>)
    moreover have "dport B dr ic dc' s h'"
    proof -
      from sysD(3) [OF y] 4(1) have p: "dr = Some r" "view dc ?S = B \<or> view dc ?S = apply_req r B"
        "apply_req r (apply_req r B) = apply_req r B" by (auto simp: dport_def split: option.splits)
      have "completed_cell r (view dc ?S) c = completed_cell r B c" for c using p(2) by (cases r) auto
      moreover have "req_cell_id r \<notin> owned ic dc' s" if "caller dc' = None"
        using that t(3) ok_callerD(3) [OF D 4(1)] r(3) fresh_reqD [OF r(1)]
        by (auto simp: client_step_def owned_def port_cells_def)
      moreover have "req_cell_id r < length h'" using fresh_reqD [OF r(1)] frame_length [OF fr(1)] by simp
      ultimately show ?thesis using p t(3) by (auto simp: dport_def client_step_def)
    qed
    ultimately show ?thesis using t(1,5) st(1,2) by (auto simp: sys_def)
  qed
qed

text \<open>The next level is clocked.\<close>

lemma tick_s:
  assumes y: "sys K img B dr ir ic dc s h"
  shows "\<exists>s' h'. stick s h = Inr (s', h') \<and> sys K img B dr ir ic dc s' h' \<and> smax_len s' = smax_len s"
proof -
  note b = sysD(1) [OF y] and l = sysD(2) [OF y]
  note D = baseD(5) [OF b]
  from baseD(6) [OF b] obtain X where X: "ok (smax_len s) X ic h" "keeps_code K img (view ic X)" by blast
  have ip: "iport K img ir ic dc s' h'"
    if "frame (owned ic dc s) h h'" "owned ic dc s' \<subseteq> owned ic dc s \<union> {length h..<length h'}" for s' h'
    by (rule iport_step [OF sysD(4) [OF y] that]) (use sysD(4) [OF y] in \<open>auto simp: iport_def\<close>)
  show ?thesis
  proof (cases "spending s")
    case None
    from shared.tick_free [OF baseD(1) [OF b] None] obtain s' h' where
      t: "stick s h = Inr (s', h')" "sinv s' h'" "spending s' = None" "scontents s' = scontents s"
        "frame (sowns s) h h'" "sowns s' \<subseteq> sowns s \<union> {length h..<length h'}" "smax_len s' = smax_len s" by blast
    have ap: "sowns s \<inter> port_cells ic = {}" "sowns s \<inter> port_cells dc = {}"
      using baseD(9) [OF b] by (auto simp: apart_def)
    note I = ok_other [OF X(1) t(5) ap(1)] and E = ok_other [OF D t(5) ap(2)]
    have fr: "frame (owned ic dc s) h h'" "owned ic dc s' \<subseteq> owned ic dc s \<union> {length h..<length h'}"
      using frame_mono [OF t(5), of "owned ic dc s"] t(6) by (auto simp: owned_def)
    have "(port_cells ic \<union> port_cells dc) \<inter> {length h..<length h'} = {}"
      using owned_bounded [OF b] by (fastforce simp: owned_def)
    then have "apart ic dc s'" using t(6) baseD(9) [OF b] unfolding apart_def by blast
    then have "base K img ic dc s' h'" using b t I(1) E(1) X(2) by (auto simp: base_def)
    moreover have "linked ic dc s' h'"
      by (rule linkedI) (use t(3) linkedD [OF l] I(3) E(3) None in auto)
    moreover have "dport B dr ic dc s' h'"
      by (rule dport_step [OF sysD(3) [OF y] fr]) (use t(4) in simp_all)
    ultimately show ?thesis using t(1,7) ip [OF fr] by (auto simp: sys_def)
  next
    case (Some q)
    from shared.tick_busy [OF baseD(1) [OF b] Some] obtain s' h' where
      t: "stick s h = Inr (s', h')" "sinv s' h'" "serves spending scontents sowns q s h s' h'"
        "smax_len s' = smax_len s" by blast
    have nd: "\<not> is_done q h"
      using shared.inv_pending [OF baseD(1) [OF b] Some] fresh_req_not_done by blast
    from linkedD(3) [OF l Some] consider
      "tx_of (fsm ic) = Some (Waiting q)" | "tx_of (fsm dc) = Some (Waiting q)" by blast
    then show ?thesis
    proof cases
      case 1
      have fd: "\<not> in_flight h dc"
      proof
        assume "in_flight h dc"
        then obtain p where p: "tx_of (fsm dc) = Some (Waiting p)" "spending s = Some p"
          using linkedD(2) [OF l] by (auto simp: in_flight_def)
        with Some tx_cells_Waiting [OF 1] tx_cells_Waiting [OF p(1)] baseD(9) [OF b] show False
          by (auto simp: apart_def)
      qed
      have fi: "in_flight h ic" using 1 nd by (auto simp: in_flight_def)
      note sv = served_i [OF b 1 fi fd t(3,2,4)]
      note f = served_frame(2,3) [OF b t(3) UnI1 [OF tx_cells_Waiting [OF 1]]]
      have "dport B dr ic dc s' h'" by (rule dport_step [OF sysD(3) [OF y] f]) (use sv(3) in simp_all)
      with sv t(1,4) ip [OF f] show ?thesis by (auto simp: sys_def)
    next
      case 2
      have fi: "\<not> in_flight h ic"
      proof
        assume "in_flight h ic"
        then obtain p where p: "tx_of (fsm ic) = Some (Waiting p)" "spending s = Some p"
          using linkedD(1) [OF l] by (auto simp: in_flight_def)
        with Some tx_cells_Waiting [OF 2] tx_cells_Waiting [OF p(1)] baseD(9) [OF b] show False
          by (auto simp: apart_def)
      qed
      have fd: "in_flight h dc" using 2 nd by (auto simp: in_flight_def)
      from ok_txD(3) [OF D 2] obtain r where cl: "caller dc = Some r" by blast
      note sv = served_d [OF b 2 fd fi t(3,2,4) cl]
      note f = served_frame(2,3) [OF b t(3) UnI2 [OF tx_cells_Waiting [OF 2]]]
      from dport_served [OF sysD(3) [OF y] cl sv(3)] sv t(1,4) ip [OF f] show ?thesis by (auto simp: sys_def)
    qed
  qed
qed

subsection \<open>Requests of the pipeline\<close>

lemma sys_image:
  assumes "sys K img B dr ir ic dc s h"
  shows "K \<subseteq> {..<length img}" "length (scontents s) = length img" "owned ic dc s \<subseteq> {..<length h}"
    "dr = None \<Longrightarrow> keeps_code K img B"
  using assms baseD(2-4) [OF sysD(1) [OF assms]] owned_bounded [OF sysD(1) [OF assms]]
  by (auto simp: keeps_code_def sys_def dport_def)

text \<open>A new request cell.\<close>

lemma sys_append:
  assumes y: "sys K img B dr ir ic dc s h"
  shows "sys K img B dr ir ic dc s (h @ [c])"
proof -
  note b = sysD(1) [OF y] and l = sysD(2) [OF y]
  from baseD(6) [OF b] obtain X where X: "ok (smax_len s) X ic h" "keeps_code K img (view ic X)" by blast
  have fr: "frame {} h (h @ [c])" by simp
  note I = ok_other [OF X(1) fr] and D = ok_other [OF baseD(5) [OF b] fr]
  have "base K img ic dc s (h @ [c])"
    using b I(1) X(2) D(1) sinv_other [OF b fr] by (auto simp: base_def)
  moreover have "linked ic dc s (h @ [c])"
    using l I(3) D(3) by (auto simp: linked_def)
  moreover have "dport B dr ic dc s (h @ [c])"
    by (rule dport_step [OF sysD(3) [OF y], of "owned ic dc s"]) auto
  moreover have "iport K img ir ic dc s (h @ [c])"
    by (rule iport_step [OF sysD(4) [OF y], of "owned ic dc s"]) (use sysD(4) [OF y] in \<open>auto simp: iport_def\<close>)
  ultimately show ?thesis by (simp add: sys_def)
qed

lemma sys_new_fetch:
  assumes "sys K img B dr ir ic dc s h" "fresh_req r (h @ [c])" "req_cell_id r = length h"
  shows "sys K img B dr (Unsent r) ic dc s (h @ [c])"
  using sys_append [OF assms(1), of c] assms(2,3) sys_image(3) [OF assms(1)] by (auto simp: sys_def iport_def)

lemma sys_no_fetch: "sys K img B dr ir ic dc s h \<Longrightarrow> sys K img B dr NoFetch ic dc s h"
  by (simp add: sys_def iport_def)

text \<open>The memory stage registers an access.\<close>

lemma register_d:
  assumes y: "sys K img B None ir ic dc s h"
    and r: "fresh_req r h" "admissible (blk_bytes dc) (length img) r" "off_code K r" "req_cell_id r \<notin> owned ic dc s"
    and u: "\<And>p. ir = Unsent p \<Longrightarrow> req_cell_id p \<noteq> req_cell_id r"
  shows "\<exists>dc' h'. GeneralCache_try_register_req R stry r dc s h = Inr (True, dc', s, h') \<and>
    sys K img B (Some r) ir ic dc' s h' \<and> blk_bytes dc' = blk_bytes dc"
proof -
  note b = sysD(1) [OF y] and l = sysD(2) [OF y]
  let ?S = "scontents s"
  note D = baseD(5) [OF b]
  have d0: "caller dc = None" "view dc ?S = B" using sysD(3) [OF y] by (auto simp: dport_def)
  have lS: "length ?S = length img" by (rule sys_image(2) [OF y])
  from client_register [OF D d0(1) _ r(1), of stry s] r(2) lS obtain dc' h' where
    t: "GeneralCache_try_register_req R stry r dc s h = Inr (True, dc', s, h')" "ok (smax_len s) ?S dc' h'"
      "client_step r dc ?S h dc' ?S h'" "\<not> in_flight h' dc'" "blk_bytes dc' = blk_bytes dc" by auto
  have nf: "\<not> in_flight h dc" using ok_idle [OF D d0(1)] by (simp add: in_flight_def)
  have ro: "req_cell_id r \<notin> sowns s \<union> port_cells ic" using r(4) by (auto simp: owned_def)
  note st = d_step [OF b l t(3,2) disjI1 [OF d0(1)] r(3,1,2) ro nf t(4)]
  let ?Z = "insert (req_cell_id r) (owned ic dc s)"
  have fr: "frame ?Z h h'" "owned ic dc' s \<subseteq> ?Z \<union> {length h..<length h'}"
    using frame_mono [OF st(3), of ?Z] st(4) by (auto simp: owned_def)
  have nd: "\<not> cell_done (h ! req_cell_id r)" using fresh_req_not_done [OF r(1)] by (simp add: is_done_cell)
  have "iport K img ir ic dc' s h'"
    by (rule iport_step [OF sysD(4) [OF y] fr]) (use nd u sysD(4) [OF y] in \<open>auto simp: iport_def\<close>)
  moreover have "dport B (Some r) ic dc' s h'"
  proof -
    have "length B = length img" using d0(2) lS length_view [of dc ?S] by simp
    then have "apply_req r (apply_req r B) = apply_req r B"
      using apply_req_idem [OF r(1), of "blk_bytes dc" B] r(2) by simp
    moreover have "req_cell_id r \<notin> owned ic dc' s" if "caller dc' = None"
      using that t(3) r(4) ok_idle [OF D d0(1)] fresh_reqD [OF r(1)]
      by (auto simp: client_step_def owned_def port_cells_def tx_cells_def)
    moreover have "req_cell_id r < length h'" using fresh_reqD [OF r(1)] frame_length [OF fr(1)] by simp
    ultimately show ?thesis using d0 t(3) by (auto simp: dport_def client_step_def)
  qed
  ultimately show ?thesis using t(1,5) st(1,2) by (auto simp: sys_def)
qed

text \<open>The fetch stage registers its request, or is refused while an earlier fetch is served.\<close>

lemma register_i:
  assumes y: "sys K img B dr (Unsent r) ic dc s h"
    and r: "admissible (blk_bytes ic) (length img) r" "\<not> is_store r" and cl: "caller ic = None"
  shows "\<exists>ic' h'. GeneralCache_try_register_req R stry r ic s h = Inr (True, ic', s, h') \<and>
    sys K img B dr (Sent r) ic' dc s h' \<and> blk_bytes ic' = blk_bytes ic"
proof -
  note b = sysD(1) [OF y] and l = sysD(2) [OF y]
  from baseD(6) [OF b] obtain X where X: "ok (smax_len s) X ic h" "keeps_code K img (view ic X)" by blast
  have u: "fresh_req r h" "req_cell_id r \<notin> owned ic dc s" using sysD(4) [OF y] by (auto simp: iport_def)
  have lX: "length X = length img" using X(2) by (simp add: keeps_code_def)
  from client_register [OF X(1) cl _ u(1), of stry s] r(1) lX obtain ic' h' where
    t: "GeneralCache_try_register_req R stry r ic s h = Inr (True, ic', s, h')" "ok (smax_len s) X ic' h'"
      "client_step r ic X h ic' X h'" "\<not> in_flight h' ic'" "blk_bytes ic' = blk_bytes ic" by auto
  have cl': "caller ic' = None \<or> caller ic' = Some r" using t(3) by (auto simp: client_step_def)
  have sl: "serves_loads ic'" by (rule register_serves_loads [OF X(1) baseD(7) [OF b] cl r(2) t(1) cl'])
  have nf: "\<not> in_flight h ic" using ok_idle [OF X(1) cl] by (simp add: in_flight_def)
  have ro: "req_cell_id r \<notin> sowns s \<union> port_cells dc" using u(2) by (auto simp: owned_def)
  note lr = fresh_reqD [OF u(1)]
  note st = i_step [OF b l X t(3,2) sl disjI1 [OF cl] r(2) ro lr nf t(4)]
  let ?Z = "insert (req_cell_id r) (owned ic dc s)"
  have fr: "frame ?Z h h'" "owned ic' dc s \<subseteq> ?Z \<union> {length h..<length h'}"
    using frame_mono [OF st(3), of ?Z] st(4) by (auto simp: owned_def)
  have nd: "\<not> cell_done (h ! req_cell_id r)" using fresh_req_not_done [OF u(1)] by (simp add: is_done_cell)
  have "dport B dr ic' dc s h'"
    by (rule dport_step [OF sysD(3) [OF y] fr]) (use nd in auto)
  moreover have "iport K img (Sent r) ic' dc s h'"
    using t(3) X(2) owned_no_user [OF b disjI1 [OF cl] t(3) _ X(1) lr ro] lr frame_length [OF fr(1)]
    by (auto simp: iport_def client_step_def)
  ultimately show ?thesis using t(1,5) st(1,2) by (auto simp: sys_def)
qed

lemma register_i_refused:
  assumes "sys K img B dr ir ic dc s h" "admissible (blk_bytes ic) (length img) r" "caller ic \<noteq> None"
  shows "GeneralCache_try_register_req R stry r ic s h = Inr (False, ic, s, h)"
proof -
  from baseD(6) [OF sysD(1) [OF assms(1)]] obtain X where X: "ok (smax_len s) X ic h" "keeps_code K img (view ic X)"
    by blast
  then show ?thesis using client_busy [OF X(1) assms(3), of r stry s] assms(2) by (simp add: keeps_code_def)
qed

text \<open>A request is done exactly when its port is free again; what it delivers.\<close>

lemma collect_d:
  assumes y: "sys K img B (Some r) ir ic dc s h"
  shows "is_done r h \<Longrightarrow> sys K img (apply_req r B) None ir ic dc s h \<and> (\<exists>c. h ! req_cell_id r = completed_cell r B c)"
    "\<not> is_done r h \<Longrightarrow> caller dc = Some r"
proof -
  have "\<not> is_done r h" if "caller dc = Some r"
    using ok_callerD(1) [OF baseD(5) [OF sysD(1) [OF y]] that] fresh_req_not_done by blast
  then show "is_done r h \<Longrightarrow> sys K img (apply_req r B) None ir ic dc s h \<and> (\<exists>c. h ! req_cell_id r = completed_cell r B c)"
    "\<not> is_done r h \<Longrightarrow> caller dc = Some r"
    using y by (auto simp: sys_def dport_def is_done_cell)
qed

lemma collect_i:
  assumes y: "sys K img B dr (Sent r) ic dc s h" "is_done r h"
  shows "\<exists>W c. keeps_code K img W \<and> h ! req_cell_id r = completed_cell r W c" "sys K img B dr Free ic dc s h"
proof -
  have "\<not> is_done r h" if "caller ic = Some r"
    using baseD(6) [OF sysD(1) [OF y(1)]] ok_callerD(1) [OF _ that] fresh_req_not_done by blast
  then show "\<exists>W c. keeps_code K img W \<and> h ! req_cell_id r = completed_cell r W c" "sys K img B dr Free ic dc s h"
    using y by (auto simp: sys_def iport_def)
qed

text \<open>New caches.\<close>

lemma new_client:
  assumes "usable_config ways_ok ml (length X) cfg"
  shows "\<exists>c. GeneralCache_new R cfg = Inr c \<and> ok ml X c h \<and> caller c = None \<and> tx_of (fsm c) = None \<and> clean c \<and>
    view c X = X \<and> blk_bytes c = geo_block_size (cfg_geometry cfg)"
proof -
  from alone.new_cache_inv [of "(ml, X)" cfg h] assms obtain c where
    c: "GeneralCache_new R cfg = Inr c" "alone.cinv c (ml, X) h" "caller c = None" "view c X = X"
      "blk_bytes c = geo_block_size (cfg_geometry cfg)" by auto
  have "ways_ok (geo_num_of_way (cfg_geometry cfg))" using assms by (simp add: usable_config_def Let_def)
  from sets_new_ok [OF pol.replacement_policy_axioms this, of "geo_block_size (cfg_geometry cfg)"
      "geo_num_sets (cfg_geometry cfg)"] c(1) have "clean c"
    by (auto simp: GeneralCache_new_def Let_def clean_def)
  moreover have "fsm c = Idle" using c(1) by (auto simp: GeneralCache_new_def Let_def bindR_def split: sum.splits)
  ultimately show ?thesis using c ok_settled [OF c(2)] by auto
qed

lemma sys_new:
  assumes "usable_config ways_ok (smax_len s) (length (scontents s)) cfgi"
    and "usable_config ways_ok (smax_len s) (length (scontents s)) cfgd"
    and "sinv s []" "spending s = None" "K \<subseteq> {..<length (scontents s)}"
  shows "\<exists>ic dc. GeneralCache_new R cfgi = Inr ic \<and> GeneralCache_new R cfgd = Inr dc \<and>
    sys K (scontents s) (scontents s) None Free ic dc s [] \<and>
    blk_bytes ic = geo_block_size (cfg_geometry cfgi) \<and> blk_bytes dc = geo_block_size (cfg_geometry cfgd)"
proof -
  from new_client [OF assms(1), of "[]"] obtain ic where
    ic: "GeneralCache_new R cfgi = Inr ic" "ok (smax_len s) (scontents s) ic []" "caller ic = None"
      "tx_of (fsm ic) = None" "clean ic" "view ic (scontents s) = scontents s"
      "blk_bytes ic = geo_block_size (cfg_geometry cfgi)" by blast
  from new_client [OF assms(2), of "[]"] obtain dc where
    dc: "GeneralCache_new R cfgd = Inr dc" "ok (smax_len s) (scontents s) dc []" "caller dc = None"
      "tx_of (fsm dc) = None" "view dc (scontents s) = scontents s"
      "blk_bytes dc = geo_block_size (cfg_geometry cfgd)" by blast
  have p: "port_cells ic = {}" "port_cells dc = {}" using ic dc by (simp_all add: port_cells_def tx_cells_def)
  have "base K (scontents s) ic dc s []"
    using assms(3,5) ic dc p unfolding base_def
    by (auto simp: keeps_code_def serves_loads_def apart_def intro!: exI [of _ "scontents s"])
  moreover have "linked ic dc s []" by (rule linkedI) (use assms(4) ic dc in auto)
  ultimately show ?thesis using ic dc by (auto simp: sys_def dport_def iport_def)
qed

end

end
