(* ===== verification/Split_Progress.thy ===== *)
theory Split_Progress
  imports Split_Caches
begin

text \<open>
  The two caches make progress on their shared next level: a measure of the work left in both caches
  and in the next level never grows with the clocks, and shrinks in every cycle in which one of the
  caches has a request to serve.  The next level serves one transaction at a time and a refused
  transaction is sent again, so neither cache waits for ever.
\<close>

text \<open>The cycles a cache has left once the next level answers at once.\<close>

definition work :: "'rp GeneralCache \<Rightarrow> nat" where
  "work c = cached_wait (\<lambda>_. None) (\<lambda>_. 0) (\<lambda>_. 0) (c, ())"

lemma work_eq: "cached_wait (\<lambda>_. None) (\<lambda>_. 0) (\<lambda>_. 0) (c, m) = work c"
  by (cases "fsm c")
    (simp_all add: work_def cached_wait_def tx_wait_def tx_bound_def Let_def split: LowerMemoryTransaction.split)

lemma work_idle: "fsm c = Idle \<Longrightarrow> work c = 0"
  by (simp add: work_def cached_wait_def)

lemma work_busy: "caller c \<noteq> None \<Longrightarrow> 0 < work c"
  by (cases "fsm c") (auto simp: caller_def work_def cached_wait_def tx_wait_def tx_bound_def Let_def
      split: LowerMemoryTransaction.splits)

lemma work_accepted:
  "tx_of (fsm c) = Some (Sending q) \<Longrightarrow> work (c\<lparr>fsm := with_tx (fsm c) (Waiting q)\<rparr>) < work c"
  by (cases "fsm c") (auto simp: work_def cached_wait_def tx_wait_def tx_bound_def Let_def)

context split_caches
begin

definition service :: "'s \<Rightarrow> nat" where
  "service s = (case spending s of None \<Rightarrow> 0 | Some _ \<Rightarrow> Suc (swait s))"

definition effort :: "'rp GeneralCache \<Rightarrow> 'rp GeneralCache \<Rightarrow> 's \<Rightarrow> nat" where
  "effort ic dc s = (smax_wait s + 3) * (work ic + work dc) + service s"

lemma service_bound: "sinv s h \<Longrightarrow> service s \<le> smax_wait s + 1"
  using shared.wait_bound [of s h] by (auto simp: service_def split: option.splits)

lemma effort_less:
  assumes "work ic' + work dc' < work ic + work dc" "smax_wait s' = smax_wait s" "sinv s' h"
  shows "effort ic' dc' s' < effort ic dc s"
proof -
  let ?C = "smax_wait s + 3"
  have "?C * Suc (work ic' + work dc') \<le> ?C * (work ic + work dc)"
    by (rule mult_le_mono2) (use assms(1) in simp)
  moreover have "service s' < ?C" using service_bound [OF assms(3)] assms(2) by simp
  ultimately show ?thesis using assms(2) by (simp add: effort_def)
qed

text \<open>A cache that is clocked does its own work, waits for the next level, or hands its transaction over.\<close>

lemma client_work:
  assumes "ok ml X c h" "caller c = Some r" "\<not> sending c" "\<not> in_flight h c"
    and "GeneralCache_tick R ltry c m h = Inr (c', m', h')"
  shows "work c' < work c" "m' = m"
proof -
  from client_tick [OF assms(1-4), of ltry m] assms(5) have
    t: "m' = m" "ok ml X c' h'" "client_step r c X h c' X h'"
      "caller c' = Some r \<longrightarrow> work c' < work c" by (auto simp: work_eq)
  show "m' = m" by (fact t(1))
  show "work c' < work c"
  proof (cases "caller c' = Some r")
    case False
    then have "caller c' = None" using t(3) by (auto simp: client_step_def)
    from work_idle [OF ok_idle [OF t(2) this]] work_busy [of c] assms(2) show ?thesis by simp
  qed (use t(4) in simp)
qed

lemma tick_work:
  assumes b: "sinv s h" "ok ml X c h" and t: "GeneralCache_tick R stry c s h = Inr (c', s', h')"
    and q: "\<And>q. tx_of (fsm c) = Some (Sending q) \<Longrightarrow> admissible (smax_len s) (length (scontents s)) q \<and> req_cell_id q \<notin> sowns s"
  shows "work c' < work c \<and> smax_wait s' = smax_wait s \<and> (spending s \<noteq> None \<longrightarrow> s' = s) \<or>
    c' = c \<and> s' = s \<and> (caller c = None \<or> in_flight h c \<or> sending c \<and> spending s \<noteq> None)"
proof -
  consider "caller c = None" | "in_flight h c" | q where "tx_of (fsm c) = Some (Sending q)" |
    r where "caller c = Some r" "\<not> sending c" "\<not> in_flight h c"
    by (auto simp: sending_def)
  then show ?thesis
  proof cases
    case 1
    with client_idle_tick [OF b(2) 1, of stry s] t show ?thesis by auto
  next
    case 2
    with tick_in_flight_same [OF 2, of R stry s] t show ?thesis by auto
  next
    case (3 p)
    have fq: "fresh_req p h" using ok_txD(4) [OF b(2) 3] 3 by (auto simp: sending_def)
    show ?thesis
    proof (cases "spending s")
      case (Some r)
      have "stry p s h = Inr (False, s, h)" by (rule shared.try_reg_busy [OF b(1) Some]) (use q [OF 3] in simp)
      from tick_sending [of c p stry s h, OF 3 this, of R] with_tx_same [OF 3] t Some 3 show ?thesis
        by (auto simp: sending_def)
    next
      case None
      from shared.try_reg_free [OF b(1) None _ fq] q [OF 3] obtain s1 h1 where
        "stry p s h = Inr (True, s1, h1)" "smax_wait s1 = smax_wait s" by blast
      with tick_sending [of c p stry s h, OF 3, of _ _ _ R] t work_accepted [OF 3] None show ?thesis by auto
    qed
  next
    case (4 r)
    from client_work [OF b(2) 4 t] show ?thesis by auto
  qed
qed

subsection \<open>The clocks\<close>

lemma sending_tx:
  assumes y: "sys K img B dr ir ic dc s h"
  shows "tx_of (fsm ic) = Some (Sending q) \<Longrightarrow>
      admissible (smax_len s) (length (scontents s)) q \<and> req_cell_id q \<notin> sowns s"
    "tx_of (fsm dc) = Some (Sending q) \<Longrightarrow>
      admissible (smax_len s) (length (scontents s)) q \<and> req_cell_id q \<notin> sowns s"
proof -
  note b = sysD(1) [OF y]
  from baseD(6) [OF b] obtain X where X: "ok (smax_len s) X ic h" "keeps_code K img (view ic X)" by blast
  show "admissible (smax_len s) (length (scontents s)) q \<and> req_cell_id q \<notin> sowns s"
    if "tx_of (fsm ic) = Some (Sending q)"
    using ok_txD(2) [OF X(1) that] X(2) baseD(3,9) [OF b] that
    by (auto simp: keeps_code_def apart_def port_cells_def tx_cells_def)
  show "admissible (smax_len s) (length (scontents s)) q \<and> req_cell_id q \<notin> sowns s"
    if "tx_of (fsm dc) = Some (Sending q)"
    using ok_txD(2) [OF baseD(5) [OF b] that] baseD(9) [OF b] that
    by (auto simp: apart_def port_cells_def tx_cells_def)
qed

text \<open>Work on the next level: a pending transaction comes closer to its answer.\<close>

lemma tick_service:
  assumes "sinv s h" "stick s h = Inr (s', h')"
  shows "smax_wait s' = smax_wait s" "service s' \<le> service s" "spending s \<noteq> None \<Longrightarrow> service s' < service s"
proof -
  have "smax_wait s' = smax_wait s \<and> service s' \<le> service s \<and> (spending s \<noteq> None \<longrightarrow> service s' < service s)"
  proof (cases "spending s")
    case None
    from shared.tick_free [OF assms(1) None] assms(2) show ?thesis using None by (auto simp: service_def)
  next
    case (Some q)
    from shared.tick_busy [OF assms(1) Some] assms(2) have
      "spending s' = Some q \<longrightarrow> swait s' < swait s" "smax_wait s' = smax_wait s"
      "serves spending scontents sowns q s h s' h'" by auto
    with Some show ?thesis by (auto simp: service_def serves_def)
  qed
  then show "smax_wait s' = smax_wait s" "service s' \<le> service s" "spending s \<noteq> None \<Longrightarrow> service s' < service s"
    by auto
qed

lemma in_flight_pending: "linked ic dc s h \<Longrightarrow> in_flight h ic \<or> in_flight h dc \<Longrightarrow> spending s \<noteq> None"
  using linkedD(1,2) [of ic dc s h] by (auto simp: in_flight_def)

theorem clocks_effort:
  assumes y: "sys K img B dr ir ic dc s h"
    and i: "GeneralCache_tick R stry ic s h = Inr (ic', s1, h1)"
    and d: "GeneralCache_tick R stry dc s1 h1 = Inr (dc', s2, h2)"
    and t: "stick s2 h2 = Inr (s3, h3)"
  shows "effort ic' dc' s3 \<le> effort ic dc s"
    "caller ic \<noteq> None \<or> caller dc \<noteq> None \<Longrightarrow> effort ic' dc' s3 < effort ic dc s"
proof -
  from tick_i [OF y] i have y1: "sys K img B dr ir ic' dc s1 h1" by auto
  from tick_d [OF y1] d have y2: "sys K img B dr ir ic' dc' s2 h2" by auto
  from tick_s [OF y2] t have y3: "sys K img B dr ir ic' dc' s3 h3" by auto
  note b = sysD(1) [OF y] sysD(1) [OF y1] sysD(1) [OF y2] sysD(1) [OF y3]
  from baseD(6) [OF b(1)] obtain X where X: "ok (smax_len s) X ic h" by blast
  have I: "work ic' < work ic \<and> smax_wait s1 = smax_wait s \<and> (spending s \<noteq> None \<longrightarrow> s1 = s) \<or>
    ic' = ic \<and> s1 = s \<and> (caller ic = None \<or> spending s \<noteq> None)"
    using tick_work [OF baseD(1) [OF b(1)] X i sending_tx(1) [OF y]] in_flight_pending [OF sysD(2) [OF y]] by blast
  have D: "work dc' < work dc \<and> smax_wait s2 = smax_wait s1 \<and> (spending s1 \<noteq> None \<longrightarrow> s2 = s1) \<or>
    dc' = dc \<and> s2 = s1 \<and> (caller dc = None \<or> spending s1 \<noteq> None)"
    using tick_work [OF baseD(1,5) [OF b(2)] d sending_tx(2) [OF y1]] in_flight_pending [OF sysD(2) [OF y1]] by blast
  note S = tick_service [OF baseD(1) [OF b(3)] t]
  have "effort ic' dc' s3 \<le> effort ic dc s \<and>
    (caller ic \<noteq> None \<or> caller dc \<noteq> None \<longrightarrow> effort ic' dc' s3 < effort ic dc s)"
  proof (cases "work ic' + work dc' < work ic + work dc")
    case True
    from effort_less [OF True _ baseD(1) [OF b(4)], of s] I D S(1) show ?thesis by auto
  next
    case False
    with I D have e: "ic' = ic" "dc' = dc" "s2 = s" "caller ic = None \<or> spending s \<noteq> None"
      "caller dc = None \<or> spending s \<noteq> None" by auto
    with S show ?thesis by (auto simp: effort_def)
  qed
  then show "effort ic' dc' s3 \<le> effort ic dc s"
    "caller ic \<noteq> None \<or> caller dc \<noteq> None \<Longrightarrow> effort ic' dc' s3 < effort ic dc s" by auto
qed

lemma sys_idle_work:
  assumes y: "sys K img B dr ir ic dc s h" and "caller ic = None"
  shows "work ic = 0"
  using baseD(6) [OF sysD(1) [OF y]] ok_idle [OF _ assms(2)] work_idle by blast

lemma sent_not_done: "sys K img B dr (Sent r) ic dc s h \<Longrightarrow> \<not> is_done r h \<Longrightarrow> caller ic \<noteq> None"
  by (auto simp: sys_def iport_def is_done_cell)

end

end
