(* ===== verification/Isa_Model.thy ===== *)
theory Isa_Model
  imports Decode_Execute
begin

text \<open>
  The reference semantics of a program: RV32IM instructions executed one after the other on 32
  registers and a flat byte memory.  It uses the decoder's instructions and immediates (proved
  against the instruction set in \<open>Riscv_Instruction\<close> and \<open>Riscv_Format\<close>) and the integer semantics of
  the operations; it knows no pipeline, predictor or cache.  An environment call advances like any
  other instruction; \<open>isa_halts\<close> says which one ends the program.
\<close>

record Arch =
  isa_pc :: u32
  isa_regs :: "u32 list"
  isa_mem :: "u8 list"

definition isa_reg :: "u32 list \<Rightarrow> u8 \<Rightarrow> u32" where
  "isa_reg rs i = (if i = 0 then 0 else rs ! unat i)"

definition set_reg :: "u8 \<Rightarrow> u32 \<Rightarrow> u32 list \<Rightarrow> u32 list" where
  "set_reg rd v rs = (if rd = 0 then rs else rs[unat rd := v])"

text \<open>Write \<open>v\<close> to \<open>rd\<close> and go to the next instruction.\<close>

definition isa_advance :: "Arch \<Rightarrow> Arch" where
  "isa_advance A = A\<lparr>isa_pc := isa_pc A + 4\<rparr>"

definition isa_result :: "u8 \<Rightarrow> u32 \<Rightarrow> Arch \<Rightarrow> Arch" where
  "isa_result rd v A = A\<lparr>isa_pc := isa_pc A + 4, isa_regs := set_reg rd v (isa_regs A)\<rparr>"

definition isa_op :: "AluOpTypes \<Rightarrow> RType \<Rightarrow> Arch \<Rightarrow> Arch option" where
  "isa_op t i A =
     Some (isa_result (RType_rd i)
       (word_of_int (isa_alu t (isa_reg (isa_regs A) (RType_rs1 i)) (isa_reg (isa_regs A) (RType_rs2 i)))) A)"

definition isa_op_imm :: "AluOpTypes \<Rightarrow> IType \<Rightarrow> Arch \<Rightarrow> Arch option" where
  "isa_op_imm t i A =
     Some (isa_result (IType_rd i)
       (word_of_int (isa_alu t (isa_reg (isa_regs A) (IType_rs1 i)) (IType_imm_sign_ext i))) A)"

text \<open>Naturally aligned accesses inside the memory; anything else has no successor state.\<close>

definition isa_aligned :: "nat \<Rightarrow> u32 \<Rightarrow> u8 list \<Rightarrow> bool" where
  "isa_aligned n a m \<longleftrightarrow> n dvd unat a \<and> unat a + n \<le> length m"

definition isa_load :: "nat \<Rightarrow> bool \<Rightarrow> IType \<Rightarrow> Arch \<Rightarrow> Arch option" where
  "isa_load n sx i A =
     (let a = isa_reg (isa_regs A) (IType_rs1 i) + IType_imm_sign_ext i;
          v = from_le_bytes (seg (unat a) n (isa_mem A)) in
      if isa_aligned n a (isa_mem A)
      then Some (isa_result (IType_rd i) (if sx then signed_take_bit (8 * n - 1) v else v) A)
      else None)"

text \<open>Stores must stay outside the region \<open>{lo..<hi}\<close> that holds the program's code.\<close>

definition isa_store :: "nat \<Rightarrow> nat \<Rightarrow> nat \<Rightarrow> SType \<Rightarrow> Arch \<Rightarrow> Arch option" where
  "isa_store lo hi n i A =
     (let a = isa_reg (isa_regs A) (SType_rs1 i) + SType_sign_ext i in
      if isa_aligned n a (isa_mem A) \<and> (unat a + n \<le> lo \<or> hi \<le> unat a)
      then Some (A\<lparr>isa_pc := isa_pc A + 4,
                   isa_mem := put_seg (unat a) (take n (to_le_bytes (isa_reg (isa_regs A) (SType_rs2 i)))) (isa_mem A)\<rparr>)
      else None)"

definition isa_branch :: "(u32 \<Rightarrow> u32 \<Rightarrow> bool) \<Rightarrow> BType \<Rightarrow> Arch \<Rightarrow> Arch option" where
  "isa_branch cond i A =
     Some (A\<lparr>isa_pc := isa_pc A +
       (if cond (isa_reg (isa_regs A) (BType_rs1 i)) (isa_reg (isa_regs A) (BType_rs2 i)) then BType_sign_ext i else 4)\<rparr>)"

definition isa_exec :: "nat \<Rightarrow> nat \<Rightarrow> Instruction \<Rightarrow> Arch \<Rightarrow> Arch option" where
  "isa_exec lo hi inst A =
     (case inst of
        Lui i \<Rightarrow> Some (isa_result (UType_rd i) (UType_sign_ext i) A)
      | Auipc i \<Rightarrow> Some (isa_result (UType_rd i) (isa_pc A + UType_sign_ext i) A)
      | Jal i \<Rightarrow> Some (A\<lparr>isa_pc := isa_pc A + JType_sign_ext i,
                        isa_regs := set_reg (JType_rd i) (isa_pc A + 4) (isa_regs A)\<rparr>)
      | Jalr i \<Rightarrow> Some (A\<lparr>isa_pc := isa_reg (isa_regs A) (IType_rs1 i) + IType_imm_sign_ext i,
                         isa_regs := set_reg (IType_rd i) (isa_pc A + 4) (isa_regs A)\<rparr>)
      | Beq i \<Rightarrow> isa_branch (=) i A
      | Bne i \<Rightarrow> isa_branch (\<noteq>) i A
      | Blt i \<Rightarrow> isa_branch (\<lambda>a b. sint a < sint b) i A
      | Bge i \<Rightarrow> isa_branch (\<lambda>a b. sint a \<ge> sint b) i A
      | Bltu i \<Rightarrow> isa_branch (\<lambda>a b. uint a < uint b) i A
      | Bgeu i \<Rightarrow> isa_branch (\<lambda>a b. uint a \<ge> uint b) i A
      | Lb i \<Rightarrow> isa_load 1 True i A
      | Lh i \<Rightarrow> isa_load 2 True i A
      | Lw i \<Rightarrow> isa_load 4 False i A
      | Lbu i \<Rightarrow> isa_load 1 False i A
      | Lhu i \<Rightarrow> isa_load 2 False i A
      | Sb i \<Rightarrow> isa_store lo hi 1 i A
      | Sh i \<Rightarrow> isa_store lo hi 2 i A
      | Sw i \<Rightarrow> isa_store lo hi 4 i A
      | Addi i \<Rightarrow> isa_op_imm AluOpTypes.Add i A
      | Slti i \<Rightarrow> isa_op_imm AluOpTypes.Slt i A
      | Sltiu i \<Rightarrow> isa_op_imm AluOpTypes.Sltu i A
      | Xori i \<Rightarrow> isa_op_imm AluOpTypes.Xor i A
      | Ori i \<Rightarrow> isa_op_imm AluOpTypes.Or i A
      | Andi i \<Rightarrow> isa_op_imm AluOpTypes.And i A
      | Slli i \<Rightarrow> isa_op_imm AluOpTypes.Sll i A
      | Srli i \<Rightarrow> isa_op_imm AluOpTypes.Srl i A
      | Srai i \<Rightarrow> isa_op_imm AluOpTypes.Sra i A
      | Instruction.Add i \<Rightarrow> isa_op AluOpTypes.Add i A
      | Instruction.Sub i \<Rightarrow> isa_op AluOpTypes.Sub i A
      | Instruction.Sll i \<Rightarrow> isa_op AluOpTypes.Sll i A
      | Instruction.Slt i \<Rightarrow> isa_op AluOpTypes.Slt i A
      | Instruction.Sltu i \<Rightarrow> isa_op AluOpTypes.Sltu i A
      | Instruction.Xor i \<Rightarrow> isa_op AluOpTypes.Xor i A
      | Instruction.Srl i \<Rightarrow> isa_op AluOpTypes.Srl i A
      | Instruction.Sra i \<Rightarrow> isa_op AluOpTypes.Sra i A
      | Instruction.Or i \<Rightarrow> isa_op AluOpTypes.Or i A
      | Instruction.And i \<Rightarrow> isa_op AluOpTypes.And i A
      | Instruction.Mul i \<Rightarrow> isa_op AluOpTypes.Mul i A
      | Instruction.Mulh i \<Rightarrow> isa_op AluOpTypes.Mulh i A
      | Instruction.Mulhsu i \<Rightarrow> isa_op AluOpTypes.Mulhsu i A
      | Instruction.Mulhu i \<Rightarrow> isa_op AluOpTypes.Mulhu i A
      | Instruction.Div i \<Rightarrow> isa_op AluOpTypes.Div i A
      | Instruction.Divu i \<Rightarrow> isa_op AluOpTypes.Divu i A
      | Instruction.Rem i \<Rightarrow> isa_op AluOpTypes.Rem i A
      | Instruction.Remu i \<Rightarrow> isa_op AluOpTypes.Remu i A
      | Ecall i \<Rightarrow> Some (isa_advance A)
      | Fence i \<Rightarrow> None
      | Illegal w \<Rightarrow> None)"

text \<open>
  The word at an address, and the addresses from which the program may be executed: two more words of
  code must follow, because the processor fetches that far ahead before a branch is resolved.
\<close>

definition code_word :: "u8 list \<Rightarrow> u32 \<Rightarrow> u32" where
  "code_word m pc = from_le_bytes (seg (unat pc) 4 m)"

definition in_code :: "nat \<Rightarrow> nat \<Rightarrow> nat \<Rightarrow> u32 \<Rightarrow> bool" where
  "in_code lo hi ahead pc \<longleftrightarrow> 4 dvd unat pc \<and> lo \<le> unat pc \<and> unat pc + 4 * ahead + 4 \<le> hi"

definition isa_inst :: "Arch \<Rightarrow> Instruction res" where
  "isa_inst A = raw_binary_to_inst (code_word (isa_mem A) (isa_pc A))"

definition isa_step :: "nat \<Rightarrow> nat \<Rightarrow> Arch \<Rightarrow> Arch option" where
  "isa_step lo hi A =
     (if in_code lo hi 2 (isa_pc A)
      then case isa_inst A of Inr inst \<Rightarrow> isa_exec lo hi inst A | Inl _ \<Rightarrow> None
      else None)"

fun isa_steps :: "nat \<Rightarrow> nat \<Rightarrow> nat \<Rightarrow> Arch \<Rightarrow> Arch option" where
  "isa_steps lo hi 0 A = Some A"
| "isa_steps lo hi (Suc n) A = (case isa_step lo hi A of None \<Rightarrow> None | Some A1 \<Rightarrow> isa_steps lo hi n A1)"

text \<open>The environment call that ends the program.\<close>

definition isa_halts :: "Arch \<Rightarrow> bool" where
  "isa_halts A \<longleftrightarrow> (\<exists>i. isa_inst A = Inr (Ecall i)) \<and> isa_regs A ! 10 = 0"

end
