(* ===== verification/Uop_Execution.thy ===== *)
theory Uop_Execution
  imports Pipeline Isa_Model
begin

text \<open>
  One instruction through the stage functions: the operation that fetch builds, decode completes and
  execute evaluates does what the reference semantics says, whatever registers it was decoded with and
  whatever was forwarded to it afterwards.
\<close>

subsection \<open>Instruction words\<close>

fun inst_word :: "Instruction \<Rightarrow> u32" where
  "inst_word (Lui (UType w)) = w"
| "inst_word (Auipc (UType w)) = w"
| "inst_word (Jal (JType w)) = w"
| "inst_word (Jalr (IType w)) = w"
| "inst_word (Beq (BType w)) = w"
| "inst_word (Bne (BType w)) = w"
| "inst_word (Blt (BType w)) = w"
| "inst_word (Bge (BType w)) = w"
| "inst_word (Bltu (BType w)) = w"
| "inst_word (Bgeu (BType w)) = w"
| "inst_word (Lb (IType w)) = w"
| "inst_word (Lh (IType w)) = w"
| "inst_word (Lw (IType w)) = w"
| "inst_word (Lbu (IType w)) = w"
| "inst_word (Lhu (IType w)) = w"
| "inst_word (Sb (SType w)) = w"
| "inst_word (Sh (SType w)) = w"
| "inst_word (Sw (SType w)) = w"
| "inst_word (Addi (IType w)) = w"
| "inst_word (Slti (IType w)) = w"
| "inst_word (Sltiu (IType w)) = w"
| "inst_word (Xori (IType w)) = w"
| "inst_word (Ori (IType w)) = w"
| "inst_word (Andi (IType w)) = w"
| "inst_word (Slli (IType w)) = w"
| "inst_word (Srli (IType w)) = w"
| "inst_word (Srai (IType w)) = w"
| "inst_word (Instruction.Add (RType w)) = w"
| "inst_word (Instruction.Sub (RType w)) = w"
| "inst_word (Instruction.Sll (RType w)) = w"
| "inst_word (Instruction.Slt (RType w)) = w"
| "inst_word (Instruction.Sltu (RType w)) = w"
| "inst_word (Instruction.Xor (RType w)) = w"
| "inst_word (Instruction.Srl (RType w)) = w"
| "inst_word (Instruction.Sra (RType w)) = w"
| "inst_word (Instruction.Or (RType w)) = w"
| "inst_word (Instruction.And (RType w)) = w"
| "inst_word (Instruction.Mul (RType w)) = w"
| "inst_word (Instruction.Mulh (RType w)) = w"
| "inst_word (Instruction.Mulhsu (RType w)) = w"
| "inst_word (Instruction.Mulhu (RType w)) = w"
| "inst_word (Instruction.Div (RType w)) = w"
| "inst_word (Instruction.Divu (RType w)) = w"
| "inst_word (Instruction.Rem (RType w)) = w"
| "inst_word (Instruction.Remu (RType w)) = w"
| "inst_word (Fence (IType w)) = w"
| "inst_word (Ecall (IType w)) = w"
| "inst_word (Illegal w) = w"

text \<open>The source fields of the word, and the instructions that name them.\<close>

definition raw_rs1 :: "u32 \<Rightarrow> u8" where "raw_rs1 w = ucast (drop_bit 15 w AND 0x1f)"
definition raw_rs2 :: "u32 \<Rightarrow> u8" where "raw_rs2 w = ucast (drop_bit 20 w AND 0x1f)"

definition opcode_of :: "u32 \<Rightarrow> OpcodeMap option" where
  "opcode_of w = OpcodeMap_try_from (ucast (w AND 0x7f))"

fun legal :: "Instruction \<Rightarrow> bool" where
  "legal (Illegal _) = False"
| "legal (Fence _) = False"
| "legal _ = True"

definition reads :: "Instruction \<Rightarrow> bool" where
  "reads i \<longleftrightarrow> (case i of Lui _ \<Rightarrow> False | Auipc _ \<Rightarrow> False | Jal _ \<Rightarrow> False | Ecall _ \<Rightarrow> False | _ \<Rightarrow> True)"

lemma raw_binary_to_inst_word:
  assumes "raw_binary_to_inst w = Inr i"
  shows "inst_word i = w"
    "legal i \<Longrightarrow> \<exists>oc. opcode_of w = Some oc \<and> (oc \<in> {OpcodeMap.Branch, OpcodeMap.Jal, OpcodeMap.Jalr} \<longleftrightarrow> is_control_flow i) \<and>
       (reads_registers oc \<longleftrightarrow> reads i)"
proof -
  note d = raw_binary_to_inst_def Let_def decode_op_def decode_op_imm_def decode_load_def decode_store_def
    decode_branch_def decode_system_def
  show "inst_word i = w"
    using assms by (auto simp: d split: option.splits OpcodeMap.splits if_splits)
  show "\<exists>oc. opcode_of w = Some oc \<and> (oc \<in> {OpcodeMap.Branch, OpcodeMap.Jal, OpcodeMap.Jalr} \<longleftrightarrow> is_control_flow i) \<and>
       (reads_registers oc \<longleftrightarrow> reads i)" if "legal i"
    using assms that
    by (auto simp: d opcode_of_def reads_def reads_registers_def split: option.splits OpcodeMap.splits if_splits)
qed

subsection \<open>Fetched and decoded operations\<close>

text \<open>The operation that fetch makes of the word at \<open>pc\<close>, with any prediction.\<close>

definition fetched_at :: "u8 list \<Rightarrow> u32 \<Rightarrow> PreDecodeMicroOp \<Rightarrow> bool" where
  "fetched_at img pc u \<longleftrightarrow>
     (\<exists>i bp. raw_binary_to_inst (code_word img pc) = Inr i \<and> legal i \<and>
        u = (if is_control_flow i then fetched_branch (code_word img pc) i pc bp
             else fetched (code_word img pc) i pc))"

definition predicted_pc :: "PreDecodeMicroOp \<Rightarrow> u32" where
  "predicted_pc u =
     (case op_bp_result u of
        Some bp \<Rightarrow> (if bp_direction bp then bp_addr bp else op_pc u + 4)
      | None \<Rightarrow> op_pc u + 4)"

lemma fetched_atD:
  assumes "fetched_at img pc u"
  shows "raw_binary_to_inst (code_word img pc) = Inr (op_inst u)" "legal (op_inst u)" "op_pc u = pc"
    "op_raw_inst u = code_word img pc" "op_rs1 u = None" "op_rs2 u = None" "op_rd_index u = None"
    "op_rd_write_value u = None" "op_alu_op_type u = AluOpTypes.Add" "\<not> op_alu_result_as_rd_dst_value u"
    "\<not> op_placeholder u" "is_control_flow (op_inst u) \<longleftrightarrow> op_bp_result u \<noteq> None"
    "inst_word (op_inst u) = code_word img pc"
  using assms raw_binary_to_inst_word(1) [of "code_word img pc" "op_inst u"]
  by (auto simp: fetched_at_def fetched_branch_def fetched_def PreDecodeMicroOp_default_def split: if_splits)

text \<open>What a completed operation does to the registers.\<close>

definition wbk :: "PreDecodeMicroOp option \<Rightarrow> u32 list \<Rightarrow> u32 list" where
  "wbk z rs =
     (case z of
        None \<Rightarrow> rs
      | Some op \<Rightarrow> (case writeback op of None \<Rightarrow> rs | Some (rd, v) \<Rightarrow> set_reg rd v rs))"

definition forward_opt :: "PreDecodeMicroOp option \<Rightarrow> PreDecodeMicroOp \<Rightarrow> PreDecodeMicroOp" where
  "forward_opt z op = (case z of None \<Rightarrow> op | Some src \<Rightarrow> forward_from src op)"

lemma wbk_None [simp]: "wbk None rs = rs"
  by (simp add: wbk_def)

lemma forward_opt_None [simp]: "forward_opt None op = op"
  by (simp add: forward_opt_def)

lemma length_set_reg [simp]: "length (set_reg rd v rs) = length rs"
  by (simp add: set_reg_def)

lemma length_wbk [simp]: "length (wbk z rs) = length rs"
  by (simp add: wbk_def split: option.splits)

lemma unat_u8_zero_iff: "unat (k :: u8) = 0 \<longleftrightarrow> k = 0"
  by (simp add: unat_eq_zero)

lemma set_reg_0 [simp]: "set_reg rd v rs ! 0 = rs ! 0"
  by (cases "unat rd = 0") (auto simp: set_reg_def unat_u8_zero_iff)

lemma wbk_0 [simp]: "wbk z rs ! 0 = rs ! 0"
  by (simp add: wbk_def split: option.splits)

lemma forward_read:
  assumes "length rs = 32" "unat k < 32"
  shows "forward_value (read_reg rs k) (Some (rd, v)) = read_reg (set_reg rd v rs) k"
proof -
  have "unat rd \<noteq> unat k" if "k \<noteq> rd" using that by (simp add: word_unat_eq_iff)
  with assms show ?thesis by (auto simp: read_reg_def set_reg_def)
qed

lemma source_field_less:
  "unat (RType_rs1 r) < 32" "unat (RType_rs2 r) < 32" "unat (IType_rs1 i) < 32"
  "unat (SType_rs1 s) < 32" "unat (SType_rs2 s) < 32" "unat (BType_rs1 b) < 32" "unat (BType_rs2 b) < 32"
  by (cases r, cases i, cases s, cases b, simp add: reg_field_less)+

text \<open>Forwarding a result into an operation is decoding it with the register written.\<close>

lemma forward_decode:
  assumes "legal (op_inst u)" "op_rs1 u = None" "op_rs2 u = None" "length rs = 32" "decode u rs = Inr e"
  shows "decode u (wbk z rs) = Inr (forward_opt z e)"
proof (cases "z = None \<or> writeback (the z) = None")
  case True
  then have "forward_opt z e = e" "wbk z rs = rs"
    by (auto simp: forward_opt_def forward_from_def wbk_def split: option.splits)
  with assms(5) show ?thesis by simp
next
  case False
  then obtain src rd v where z: "z = Some src" "writeback src = Some (rd, v)" by auto
  note f = forward_read [OF assms(4)]
  show ?thesis using assms
    by (cases "op_inst u")
      (auto simp: z wbk_def forward_opt_def forward_from_def decode_def decode_match_def decode_r_arm_def
        decode_i_arm_def decode_load_arm_def decode_store_arm_def decode_branch_arm_def decode_jal_arm_def
        decode_jalr_arm_def decode_u_arm_def f source_field_less)
qed

lemma decode_legal: "legal (op_inst u) \<Longrightarrow> \<exists>e. decode u rs = Inr e"
  using decode_panic_iff [of u rs] by (cases "decode u rs"; cases "op_inst u") auto

text \<open>The registers an operation reads are those the load-use check looks at.\<close>

definition sources_in :: "u8 set \<Rightarrow> PreDecodeMicroOp \<Rightarrow> bool" where
  "sources_in S e \<longleftrightarrow> (\<forall>k x. op_rs1 e = Some (k, x) \<or> op_rs2 e = Some (k, x) \<longrightarrow> k \<in> S)"

lemma decode_sources:
  assumes "decode u rs = Inr e" "op_rs1 u = None" "op_rs2 u = None" "legal (op_inst u)"
  shows "sources_in (if reads (op_inst u) then {raw_rs1 (inst_word (op_inst u)), raw_rs2 (inst_word (op_inst u))} else {}) e"
  using assms
  by (cases "op_inst u" rule: inst_word.cases)
    (auto simp: sources_in_def decode_def decode_match_def decode_arm_defs reads_def raw_rs1_def raw_rs2_def)

lemma forward_not_source:
  assumes "sources_in S e" "\<And>rd v. writeback src = Some (rd, v) \<Longrightarrow> rd = 0 \<or> rd \<notin> S"
  shows "forward_from src e = e"
proof -
  have "forward_value x (writeback src) = x" if "x = op_rs1 e \<or> x = op_rs2 e" for x
  proof -
    have "k \<in> S" if "x = Some (k, y)" for k y
      using \<open>x = op_rs1 e \<or> x = op_rs2 e\<close> that assms(1) unfolding sources_in_def by metis
    then show ?thesis using assms(2) by (cases "(x, writeback src)" rule: forward_value.cases) auto
  qed
  then show ?thesis by (simp add: forward_from_def)
qed

subsection \<open>Executed operations\<close>

lemma isa_reg_nth: "rs ! 0 = 0 \<Longrightarrow> isa_reg rs k = rs ! unat k"
  by (simp add: isa_reg_def)

lemma from_le_bytes_zeros: "from_le_bytes (bs @ replicate n 0) = from_le_bytes bs"
proof (induction bs)
  case Nil
  show ?case by (induction n) simp_all
qed simp

lemma flat_value_load:
  assumes "unat a + width_len w \<le> length X"
  shows "flat_value (MaLoad a w x) X =
    Some (let v = from_le_bytes (seg (unat a) (width_len w) X) in
          if x = ExtSign \<and> w \<noteq> Word then signed_take_bit (8 * width_len w - 1) v else v)"
proof -
  have "length (seg (unat a) (width_len w) X) = width_len w" using assms by simp
  then show ?thesis
    by (cases w; cases x)
      (simp_all add: flat_value_def Let_def from_le_bytes_zeros scast_ucast_signed_take_bit)
qed

lemma flat_value_store [simp]: "flat_value (MaStore a w v) X = None"
  by (simp add: flat_value_def)

text \<open>
  What the stages after execute rely on: the effect of the operation \<open>x\<close> on registers and memory when
  the state goes from \<open>A\<close> to \<open>A'\<close>.
\<close>

definition applies :: "nat \<Rightarrow> nat \<Rightarrow> PreDecodeMicroOp \<Rightarrow> Arch \<Rightarrow> Arch \<Rightarrow> bool" where
  "applies lo hi x A A' \<longleftrightarrow>
     (case memory_access x of
        Inl _ \<Rightarrow> False
      | Inr None \<Rightarrow> wbk (Some x) (isa_regs A) = isa_regs A' \<and> isa_mem A' = isa_mem A
      | Inr (Some a) \<Rightarrow>
          access_ok 4 (length (isa_mem A)) a \<and> writeback x = None \<and> flat_store a (isa_mem A) = isa_mem A' \<and>
          (ma_is_load a \<or> unat (ma_addr a) + ma_len a \<le> lo \<or> hi \<le> unat (ma_addr a)) \<and>
          wbk (Some (case flat_value a (isa_mem A) of Some v \<Rightarrow> set_writeback_value v x | None \<Rightarrow> x)) (isa_regs A) =
            isa_regs A')"

text \<open>How the operation resolves: no control flow, or a branch with its direction and destination.\<close>

definition resolves :: "PreDecodeMicroOp \<Rightarrow> u32 \<Rightarrow> bool" where
  "resolves x pc' \<longleftrightarrow>
     (case branch_resolution_inputs x of
        Inl _ \<Rightarrow> False
      | Inr None \<Rightarrow> predicted_pc x = pc'
      | Inr (Some br) \<Rightarrow>
          (case branch_taken (br_inst br) (br_rs1 br) (br_rs2 br) of
             None \<Rightarrow> False
           | Some t \<Rightarrow> recovery_destination br t = pc' \<and> (\<not> needs_recovery br t \<longrightarrow> predicted_pc x = pc')))"

definition regs_wf :: "u32 list \<Rightarrow> bool" where
  "regs_wf rs \<longleftrightarrow> length rs = 32 \<and> rs ! 0 = 0"

lemmas isa_exec_defs = isa_exec_def isa_op_def isa_op_imm_def isa_load_def isa_store_def isa_branch_def
  isa_result_def isa_advance_def

lemma executed_fields [simp]:
  "op_inst (executed e a b) = op_inst e" "op_pc (executed e a b) = op_pc e" "op_rs1 (executed e a b) = op_rs1 e"
  "op_rs2 (executed e a b) = op_rs2 e" "op_rd_index (executed e a b) = op_rd_index e"
  "op_bp_result (executed e a b) = op_bp_result e" "op_placeholder (executed e a b) = op_placeholder e"
  "op_raw_inst (executed e a b) = op_raw_inst e" "op_alu_result (executed e a b) = alu_result (op_alu_op_type e) a b"
  "op_rd_write_value (executed e a b) =
     (if op_alu_result_as_rd_dst_value e then Some (alu_result (op_alu_op_type e) a b) else op_rd_write_value e)"
  by (simp_all add: executed_def Let_def set_writeback_value_def)

text \<open>Decode and execute as one function; the proofs evaluate it, one instruction at a time.\<close>

definition execute :: "PreDecodeMicroOp \<Rightarrow> u32 list \<Rightarrow> PreDecodeMicroOp option" where
  "execute u rs =
     (case decode u rs of
        Inl _ \<Rightarrow> None
      | Inr e \<Rightarrow> (case alu_operands e of Inl _ \<Rightarrow> None | Inr (a, b) \<Rightarrow> Some (executed e a b)))"

lemmas execute_defs = execute_def decode_def decode_match_def decode_arm_defs alu_operands_def executed_def
  set_writeback_value_def Let_def

lemma execute_applies_total:
  assumes u: "fetched_at img (isa_pc A) u" and A: "regs_wf (isa_regs A)" and n: "\<not> is_ecall (op_inst u)"
  shows "case isa_exec lo hi (op_inst u) A of
      None \<Rightarrow> True
    | Some A' \<Rightarrow> (case execute u (isa_regs A) of None \<Rightarrow> False | Some x \<Rightarrow> applies lo hi x A A')"
proof -
  have r: "isa_reg (isa_regs A) k = isa_regs A ! unat k" for k
    using A isa_reg_nth by (simp add: regs_wf_def)
  note f = fetched_atD(2-10) [OF u]
  show ?thesis
    using f n
    by (cases "op_inst u")
      (simp_all add: execute_defs applies_def isa_exec_defs r memory_access_def writeback_def wbk_def
        alu_result_integer [symmetric] flat_value_load access_ok_def isa_aligned_def
        del: alu_result.simps(2-) isa_alu.simps)
qed

lemma execute_resolves_total:
  assumes u: "fetched_at img (isa_pc A) u" and A: "regs_wf (isa_regs A)" and n: "\<not> is_ecall (op_inst u)"
  shows "case isa_exec lo hi (op_inst u) A of
      None \<Rightarrow> True
    | Some A' \<Rightarrow> (case execute u (isa_regs A) of None \<Rightarrow> False | Some x \<Rightarrow> resolves x (isa_pc A'))"
proof -
  have r: "isa_reg (isa_regs A) k = isa_regs A ! unat k" for k
    using A isa_reg_nth by (simp add: regs_wf_def)
  note f = fetched_atD(2-10,12) [OF u]
  show ?thesis
  proof (cases "op_bp_result u")
    case None
    with f n show ?thesis
      by (cases "op_inst u")
        (simp_all add: execute_defs resolves_def isa_exec_defs branch_resolution_inputs_def predicted_pc_def)
  next
    case (Some bp)
    with f n show ?thesis
      by (cases "op_inst u")
        (simp_all add: execute_defs resolves_def isa_exec_defs branch_resolution_inputs_def predicted_pc_def r
          needs_recovery_def recovery_destination_def word_less_def word_le_def)
  qed
qed

text \<open>Both results on the operation that decode hands to execute, and the environment call.\<close>

lemma executed_correct:
  assumes u: "fetched_at img (isa_pc A) u" "decode u (isa_regs A) = Inr e" and A: "regs_wf (isa_regs A)"
    "isa_exec lo hi (op_inst u) A = Some A'" "\<not> is_ecall (op_inst u)"
  shows "\<exists>a b. alu_operands e = Inr (a, b) \<and> applies lo hi (executed e a b) A A' \<and> resolves (executed e a b) (isa_pc A')"
  using execute_applies_total [OF u(1) A(1,3), of lo hi] execute_resolves_total [OF u(1) A(1,3), of lo hi] A(2) u(2)
  by (auto simp: execute_def split: sum.splits)

lemma ecall_correct:
  assumes u: "fetched_at img (isa_pc A) u" "is_ecall (op_inst u)" "isa_exec lo hi (op_inst u) A = Some A'"
  shows "decode u rs = Inr u" "applies lo hi u A A'" "predicted_pc u = isa_pc A'"
  using u(2,3) fetched_atD(3,5-8,12) [OF u(1)]
  by (cases "op_inst u"; auto simp: decode_def decode_match_def applies_def memory_access_def wbk_def writeback_def
      predicted_pc_def isa_exec_def isa_advance_def Let_def)+

end
