(* ===== verification/Processor_Ports.thy ===== *)
theory Processor_Ports
  imports Pipeline Split_Progress Uop_Execution
begin

text \<open>
  The two memory stages of the pipeline over its caches.  The fetch stage delivers the words of the
  code region at its program counter, the memory stage performs loads and stores on a flat memory, and
  the clocks keep what both rely on; neither panics.
\<close>

locale processor =
  l2: cache_over mtry mtick minv mpending mcontents mowns mwait mmax_wait mmax_len R ways_ok rp_inv rp_valid
  for mtry :: "'m lower" and mtick :: "'m \<Rightarrow> cells \<Rightarrow> ('m \<times> cells) res"
    and minv :: "'m \<Rightarrow> cells \<Rightarrow> bool" and mpending :: "'m \<Rightarrow> MemoryReqType option"
    and mcontents :: "'m \<Rightarrow> u8 list" and mowns :: "'m \<Rightarrow> nat set" and mwait :: "'m \<Rightarrow> nat"
    and mmax_wait :: "'m \<Rightarrow> nat" and mmax_len :: "'m \<Rightarrow> nat"
    and R :: "'rp rp_ops" and ways_ok :: "nat \<Rightarrow> bool" and rp_inv :: "nat \<Rightarrow> 'rp \<Rightarrow> bool"
    and rp_valid :: "'rp \<Rightarrow> nat \<Rightarrow> bool"

sublocale processor \<subseteq> split: split_caches R ways_ok rp_inv rp_valid
  "cached_try_reg R mtry" "cached_tick R mtry mtick"
  "cached_inv minv mpending mcontents mowns mmax_len rp_inv rp_valid" cached_pending
  "cached_contents mcontents" "cached_owns mowns" "cached_wait mpending mwait mmax_wait"
  "cached_max_wait mmax_wait" cached_max_len ..

subsection \<open>Fetching\<close>

definition fetches :: "u32 \<Rightarrow> MemoryReqType \<Rightarrow> bool" where
  "fetches pc r \<longleftrightarrow> (\<exists>q. r = LoadReq q \<and> lr_addr q = pc \<and> lr_len q = 4)"

lemma fetches_new:
  "MemoryReqType_load pc 4 h = (r, h0) \<Longrightarrow>
   fetches pc r \<and> req_cell_id r = length h \<and> (\<exists>c. h0 = h @ [c]) \<and> fresh_req r h0"
  by (auto simp: MemoryReqType_load_def MemoryLoadReq_new_def fetches_def)

lemma fetches_admissible:
  assumes "fetches pc r" "in_code lo hi 0 pc" "hi \<le> n" "4 \<le> ml"
  shows "admissible ml n r" "\<not> is_store r"
  using assms small_powers by (auto simp: fetches_def admissible_def in_code_def)

lemma fetched_word_code:
  assumes "fetches pc r" "h ! req_cell_id r = completed_cell r W c" "keeps_code {lo..<hi} img W"
    "in_code lo hi 0 pc" "hi \<le> length img"
  shows "fetched_word r h = Inr (code_word img pc)"
proof -
  have len: "unat pc + 4 \<le> length img" "length W = length img" using assms(3-5) by (auto simp: in_code_def keeps_code_def)
  have "seg (unat pc) 4 W = seg (unat pc) 4 img"
    by (rule nth_equalityI) (use assms(3,4) len in \<open>auto simp: keeps_code_def in_code_def\<close>)
  then have "load_data r h = Inr (seg (unat pc) 4 img)"
    using assms(1,2) by (auto simp: fetches_def load_data_def MemoryLoadReq_data_def)
  with len show ?thesis
    by (simp add: fetched_word_def get_range_def code_word_def seg_def)
qed

text \<open>How far the fetch stage is with its request.\<close>

fun phase :: "PipelineMemoryFSM \<Rightarrow> nat" where
  "phase IfIdle = 2"
| "phase (IfSendingReq _) = 1"
| "phase (IfWaitingComplete _) = 0"

text \<open>The request of the fetch stage and the state of the instruction port.\<close>

definition fetch_link :: "fetch_port \<Rightarrow> 'rp PipelineProcessor \<Rightarrow> bool" where
  "fetch_link ir p \<longleftrightarrow>
     (case p_if_fsm p of
        IfIdle \<Rightarrow> ir = Free \<or> ir = NoFetch \<and> p_id_op p = None
      | IfSendingReq r \<Rightarrow> ir = Unsent r \<and> fetches (p_if_pc p) r \<and> p_id_op p = None
      | IfWaitingComplete r \<Rightarrow> ir = Sent r \<and> fetches (p_if_pc p) r)"

definition code_ok :: "nat \<Rightarrow> nat \<Rightarrow> u8 list \<Rightarrow> bool" where
  "code_ok lo hi img \<longleftrightarrow> hi \<le> length img \<and> length img \<le> 2 ^ 32 \<and>
     (\<forall>pc. in_code lo hi 0 pc \<longrightarrow> (\<exists>i. raw_binary_to_inst (code_word img pc) = Inr i \<and> legal i))"

text \<open>Predictions of taken branches point into the code, with two more words to follow.\<close>

definition steers :: "nat \<Rightarrow> nat \<Rightarrow> PreDecodeMicroOp \<Rightarrow> bool" where
  "steers lo hi u \<longleftrightarrow> (\<forall>bp. op_bp_result u = Some bp \<longrightarrow> bp_direction bp \<longrightarrow> in_code lo hi 2 (bp_addr bp))"

definition predictor_ok :: "nat \<Rightarrow> nat \<Rightarrow> Predictor \<Rightarrow> bool" where
  "predictor_ok lo hi bp \<longleftrightarrow> (\<forall>pc t. predictor_target bp pc = Some t \<longrightarrow> in_code lo hi 2 t)"

lemma predictor_ok_recovery:
  assumes "predictor_ok lo hi bp" "in_code lo hi 2 t"
  shows "predictor_ok lo hi (mispredict_recovery bp d pc t)"
  unfolding predictor_ok_def
proof (intro allI impI)
  fix a x
  assume "predictor_target (mispredict_recovery bp d pc t) a = Some x"
  with dyn_bp.recover_target [of bp d pc t] have "((predictor_target bp)(pc \<mapsto> t)) a = Some x"
    by (auto simp: map_le_def dom_def)
  with assms show "in_code lo hi 2 x" by (auto simp: predictor_ok_def split: if_splits)
qed

text \<open>Handing the fetched word to ID.\<close>

lemma fetch_issue_full: "p_id_op p \<noteq> None \<Longrightarrow> fetch_issue p = Inr p"
  by (simp add: fetch_issue_def)

lemma fetch_issue_ok:
  assumes "p_id_op p = None" "p_if_raw_inst_buffer p = Some (code_word img (p_if_pc p))"
    "code_ok lo hi img" "in_code lo hi 0 (p_if_pc p)" "predictor_ok lo hi (p_branch_predictor p)"
  shows "\<exists>u. fetch_issue p = Inr (p\<lparr>p_if_raw_inst_buffer := None, p_hpm := inst_fetch (p_hpm p), p_if_fsm := IfIdle,
      p_if_pc := predicted_pc u, p_id_op := Some u\<rparr>) \<and> fetched_at img (p_if_pc p) u \<and> steers lo hi u"
proof -
  let ?w = "code_word img (p_if_pc p)"
  from assms(3,4) obtain i where i: "raw_binary_to_inst ?w = Inr i" "legal i" by (auto simp: code_ok_def)
  from raw_binary_to_inst_word(2) [OF i] obtain oc where
    oc: "OpcodeMap_try_from (ucast (?w AND 0x7f)) = Some oc"
      "oc \<in> {OpcodeMap.Branch, OpcodeMap.Jal, OpcodeMap.Jalr} \<longleftrightarrow> is_control_flow i"
    by (auto simp: opcode_of_def)
  define bp where "bp = branch_predict (p_branch_predictor p) (p_if_pc p)"
  define u where "u = (if is_control_flow i then fetched_branch ?w i (p_if_pc p) bp else fetched ?w i (p_if_pc p))"
  have "in_code lo hi 2 (bp_addr bp)" if "bp_direction bp"
    using dyn_bp.predict_taken that assms(5) unfolding bp_def predictor_ok_def by blast
  then have "steers lo hi u"
    by (simp add: steers_def u_def fetched_branch_def fetched_def PreDecodeMicroOp_default_def)
  moreover have "fetched_at img (p_if_pc p) u" using i by (auto simp: fetched_at_def u_def)
  moreover have "fetch_issue p = Inr (p\<lparr>p_if_raw_inst_buffer := None, p_hpm := inst_fetch (p_hpm p), p_if_fsm := IfIdle,
      p_if_pc := predicted_pc u, p_id_op := Some u\<rparr>)"
    using assms(1,2) oc i(1)
    by (auto simp: fetch_issue_def u_def predicted_pc_def bp_def fetched_branch_def fetched_def
        PreDecodeMicroOp_default_def Let_def)
  ultimately show ?thesis by blast
qed

text \<open>
  The whole stage: it leaves the pipeline as it is, or hands over the operation at its program counter.
  Only the fields of the fetch stage change.
\<close>

definition fetch_result :: "nat \<Rightarrow> nat \<Rightarrow> u8 list \<Rightarrow> 'rp PipelineProcessor \<Rightarrow> 'rp PipelineProcessor \<Rightarrow> bool" where
  "fetch_result lo hi img p p' \<longleftrightarrow>
     (\<exists>ic f b. p' = p\<lparr>p_icache := ic, p_if_fsm := f, p_if_raw_inst_buffer := b\<rparr> \<and>
        (phase f < phase (p_if_fsm p) \<or>
         f = p_if_fsm p \<and> work ic = work (p_icache p) \<and> (p_id_op p = None \<longrightarrow> caller ic \<noteq> None))) \<or>
     (\<exists>ic f b u. p_id_op p = None \<and> fetched_at img (p_if_pc p) u \<and> steers lo hi u \<and>
        p' = p\<lparr>p_icache := ic, p_if_fsm := f, p_if_raw_inst_buffer := b, p_hpm := inst_fetch (p_hpm p),
               p_if_pc := predicted_pc u, p_id_op := Some u\<rparr>)"

text \<open>The state of the transaction and the request at the data port.\<close>

definition mem_link :: "MemoryReqType option \<Rightarrow> MemoryTransaction \<Rightarrow> PreDecodeMicroOp option \<Rightarrow> bool" where
  "mem_link dr t x \<longleftrightarrow>
     (case t of
        MtIdle \<Rightarrow> dr = None
      | MtWaiting r a \<Rightarrow> dr = Some r \<and> (\<exists>h h'. request_for a h = (r, h')) \<and>
          (\<exists>op. x = Some op \<and> memory_access op = Inr (Some a))
      | _ \<Rightarrow> False)"

definition loaded :: "MemoryAccess \<Rightarrow> u8 list \<Rightarrow> PreDecodeMicroOp \<Rightarrow> PreDecodeMicroOp" where
  "loaded a B x = (case flat_value a B of Some v \<Rightarrow> set_writeback_value v x | None \<Rightarrow> x)"

context processor
begin

abbreviation psys ::
  "nat \<Rightarrow> nat \<Rightarrow> u8 list \<Rightarrow> u8 list \<Rightarrow> MemoryReqType option \<Rightarrow> fetch_port \<Rightarrow> 'rp PipelineProcessor \<Rightarrow> 'm \<Rightarrow> cells \<Rightarrow> bool" where
  "psys lo hi img B dr ir p m h \<equiv>
     split.sys {lo..<hi} img B dr ir (p_icache p) (p_dcache p) (p_l2_cache p, m) h \<and>
     4 \<le> blk_bytes (p_icache p) \<and> 4 \<le> blk_bytes (p_dcache p)"

text \<open>The first half of the fetch stage: the word is there, or the stage waits.\<close>

definition fetch_waits ::
  "nat \<Rightarrow> nat \<Rightarrow> u8 list \<Rightarrow> u8 list \<Rightarrow> MemoryReqType option \<Rightarrow> 'rp PipelineProcessor \<Rightarrow> 'rp PipelineProcessor \<Rightarrow> 'm \<Rightarrow> cells \<Rightarrow> bool" where
  "fetch_waits lo hi img B dr p p' m h \<longleftrightarrow>
     (\<exists>ic f ir. p' = p\<lparr>p_icache := ic, p_if_fsm := f\<rparr> \<and> fetch_link ir p' \<and> psys lo hi img B dr ir p' m h \<and>
       (phase f < phase (p_if_fsm p) \<or> f = p_if_fsm p \<and> ic = p_icache p \<and> caller ic \<noteq> None))"

definition fetch_ready ::
  "nat \<Rightarrow> nat \<Rightarrow> u8 list \<Rightarrow> u8 list \<Rightarrow> MemoryReqType option \<Rightarrow> 'rp PipelineProcessor \<Rightarrow> 'rp PipelineProcessor \<Rightarrow> 'm \<Rightarrow> cells \<Rightarrow> bool" where
  "fetch_ready lo hi img B dr p p' m h \<longleftrightarrow>
     (\<exists>ic. p' = p\<lparr>p_icache := ic, p_if_raw_inst_buffer := Some (code_word img (p_if_pc p))\<rparr> \<and>
       psys lo hi img B dr Free p' m h \<and> (ic = p_icache p \<or> caller (p_icache p) = None) \<and>
       (p_id_op p \<noteq> None \<longrightarrow> (\<exists>ir. fetch_link ir p' \<and> psys lo hi img B dr ir p' m h)))"

lemma icache_register_fetch:
  assumes y: "psys lo hi img B dr (Unsent r) p m h" and c: "hi \<le> length img" "in_code lo hi 0 (p_if_pc p)"
    "fetches (p_if_pc p) r"
  shows "caller (p_icache p) \<noteq> None \<Longrightarrow> icache_register R mtry r p m h = Inr (False, p, m, h)"
    "caller (p_icache p) = None \<Longrightarrow>
       \<exists>ic h'. icache_register R mtry r p m h = Inr (True, p\<lparr>p_icache := ic\<rparr>, m, h') \<and>
         psys lo hi img B dr (Sent r) (p\<lparr>p_icache := ic\<rparr>) m h'"
proof -
  have a: "admissible (blk_bytes (p_icache p)) (length img) r" "\<not> is_store r"
    using fetches_admissible [OF c(3,2,1)] y by auto
  show "icache_register R mtry r p m h = Inr (False, p, m, h)" if "caller (p_icache p) \<noteq> None"
    using split.register_i_refused [OF conjunct1 [OF y] a(1) that] by (simp add: icache_register_def)
  show "\<exists>ic h'. icache_register R mtry r p m h = Inr (True, p\<lparr>p_icache := ic\<rparr>, m, h') \<and>
         psys lo hi img B dr (Sent r) (p\<lparr>p_icache := ic\<rparr>) m h'" if "caller (p_icache p) = None"
  proof -
    from split.register_i [OF conjunct1 [OF y] a that] obtain ic h' where
      "GeneralCache_try_register_req R (cached_try_reg R mtry) r (p_icache p) (p_l2_cache p, m) h =
         Inr (True, ic, (p_l2_cache p, m), h')"
      "split.sys {lo..<hi} img B dr (Sent r) ic (p_dcache p) (p_l2_cache p, m) h'"
      "blk_bytes ic = blk_bytes (p_icache p)" by blast
    with y show ?thesis by (intro exI [of _ ic] exI [of _ h']) (simp add: icache_register_def)
  qed
qed

lemma collect_fetch:
  assumes y: "psys lo hi img B dr (Sent r) p m h" "is_done r h" and c: "hi \<le> length img" "in_code lo hi 0 (p_if_pc p)"
    "fetches (p_if_pc p) r"
  shows "fetched_word r h = Inr (code_word img (p_if_pc p))" "psys lo hi img B dr Free p m h"
proof -
  note s = split.collect_i [OF conjunct1 [OF y(1)] y(2)]
  from s(1) fetched_word_code [OF c(3) _ _ c(2,1)] show "fetched_word r h = Inr (code_word img (p_if_pc p))" by blast
  show "psys lo hi img B dr Free p m h" using s(2) y(1) by simp
qed

text \<open>Registering the request \<open>r\<close>, and what follows it.\<close>

lemma fetch_send:
  assumes y: "psys lo hi img B dr (Unsent r) p m h" and c: "hi \<le> length img" "in_code lo hi 0 (p_if_pc p)"
    "fetches (p_if_pc p) r"
    and id: "caller (p_icache p) \<noteq> None \<Longrightarrow> p_id_op p = None" "p_id_op p \<noteq> None \<Longrightarrow> p_if_fsm p = IfIdle"
    and f: "p_if_fsm p = IfIdle \<or> p_if_fsm p = IfSendingReq r"
  shows "\<exists>ready p' h'.
    bindR (icache_register R mtry r p m h) (\<lambda>(ok, p1, m1, h1).
      if \<not> ok then Inr (False, p1\<lparr>p_if_fsm := IfSendingReq r\<rparr>, m1, h1)
      else bindR (fetch_accepted r p1 h1) (\<lambda>(ready, p2). Inr (ready, p2, m1, h1))) = Inr (ready, p', m, h') \<and>
    (if ready then fetch_ready lo hi img B dr p p' m h' else fetch_waits lo hi img B dr p p' m h')"
proof (cases "caller (p_icache p) = None")
  case True
  from icache_register_fetch(2) [OF y c True] obtain ic h' where
    r: "icache_register R mtry r p m h = Inr (True, p\<lparr>p_icache := ic\<rparr>, m, h')"
      "psys lo hi img B dr (Sent r) (p\<lparr>p_icache := ic\<rparr>) m h'" by blast
  show ?thesis
  proof (cases "is_done r h'")
    case True
    let ?p = "p\<lparr>p_icache := ic, p_if_raw_inst_buffer := Some (code_word img (p_if_pc p))\<rparr>"
    note w = collect_fetch [OF r(2) True c(1), simplified, OF c(2,3)]
    have "fetch_ready lo hi img B dr p ?p m h'" unfolding fetch_ready_def
      by (rule exI [of _ ic]) (use w(2) id(2) \<open>caller (p_icache p) = None\<close> in \<open>auto simp: fetch_link_def\<close>)
    with r(1) w(1) True show ?thesis
      by (intro exI [of _ True] exI [of _ ?p] exI [of _ h']) (simp add: fetch_accepted_def)
  next
    case False
    let ?p = "p\<lparr>p_icache := ic, p_if_fsm := IfWaitingComplete r\<rparr>"
    have "fetch_waits lo hi img B dr p ?p m h'" unfolding fetch_waits_def
      by (rule exI [of _ ic], rule exI [of _ "IfWaitingComplete r"], rule exI [of _ "Sent r"])
        (use r(2) c(3) f in \<open>auto simp: fetch_link_def\<close>)
    with r(1) False show ?thesis
      by (intro exI [of _ False] exI [of _ ?p] exI [of _ h']) (simp add: fetch_accepted_def)
  qed
next
  case False
  let ?p = "p\<lparr>p_if_fsm := IfSendingReq r\<rparr>"
  have "fetch_waits lo hi img B dr p ?p m h" unfolding fetch_waits_def
    by (rule exI [of _ "p_icache p"], rule exI [of _ "IfSendingReq r"], rule exI [of _ "Unsent r"])
      (use y c(3) id(1) False f in \<open>auto simp: fetch_link_def\<close>)
  with icache_register_fetch(1) [OF y c False] show ?thesis
    by (intro exI [of _ False] exI [of _ ?p] exI [of _ h]) simp
qed

lemma fetch_request_ok:
  assumes y: "psys lo hi img B dr ir p m h" and l: "fetch_link ir p"
    and c: "hi \<le> length img" "in_code lo hi 0 (p_if_pc p)"
  shows "\<exists>ready p' h'. fetch_request R mtry p m h = Inr (ready, p', m, h') \<and>
    (if ready then fetch_ready lo hi img B dr p p' m h' else fetch_waits lo hi img B dr p p' m h')"
proof (cases "p_if_fsm p")
  case IfIdle
  obtain r h0 where r: "MemoryReqType_load (p_if_pc p) 4 h = (r, h0)" by fastforce
  from fetches_new [OF r] obtain x where n: "fetches (p_if_pc p) r" "req_cell_id r = length h" "h0 = h @ [x]"
    "fresh_req r h0" by blast
  have y0: "psys lo hi img B dr (Unsent r) p m h0"
    using split.sys_new_fetch [of "{lo..<hi}" img B dr ir _ _ _ h r x] y n by simp
  have free: "p_id_op p = None" if "caller (p_icache p) \<noteq> None"
    using that l IfIdle split.sysD(4) [OF conjunct1 [OF y]] by (auto simp: fetch_link_def split.iport_def)
  from fetch_send [OF y0 c n(1) free] IfIdle r show ?thesis by (simp add: fetch_request_def)
next
  case (IfSendingReq r)
  with l have n: "ir = Unsent r" "fetches (p_if_pc p) r" "p_id_op p = None" by (auto simp: fetch_link_def)
  have "bindR (icache_register R mtry r p m h) (\<lambda>(ok, p1, m1, h1).
      if \<not> ok then Inr (False, p1\<lparr>p_if_fsm := IfSendingReq r\<rparr>, m1, h1)
      else bindR (fetch_accepted r p1 h1) (\<lambda>(ready, p2). Inr (ready, p2, m1, h1))) = fetch_request R mtry p m h"
    using IfSendingReq
    by (auto simp: fetch_request_def icache_register_def bindR_def split: sum.splits prod.splits)
  with fetch_send [OF y [unfolded n(1)] c n(2)] n(3) IfSendingReq show ?thesis by simp
next
  case (IfWaitingComplete r)
  with l have n: "ir = Sent r" "fetches (p_if_pc p) r" by (auto simp: fetch_link_def)
  let ?p = "p\<lparr>p_if_raw_inst_buffer := Some (code_word img (p_if_pc p))\<rparr>"
  show ?thesis
  proof (cases "is_done r h")
    case True
    note w = collect_fetch [OF y [unfolded n(1)] True c n(2)]
    have "fetch_ready lo hi img B dr p ?p m h" unfolding fetch_ready_def
      by (rule exI [of _ "p_icache p"]) (use w(2) y n IfWaitingComplete in \<open>auto simp: fetch_link_def\<close>)
    with w(1) True IfWaitingComplete show ?thesis
      by (intro exI [of _ True] exI [of _ ?p] exI [of _ h]) (simp add: fetch_request_def)
  next
    case False
    have "fetch_waits lo hi img B dr p p m h" unfolding fetch_waits_def
      by (rule exI [of _ "p_icache p"], rule exI [of _ "p_if_fsm p"], rule exI [of _ ir])
        (use y l split.sent_not_done [OF conjunct1 [OF y [unfolded n(1)]] False] in simp)
    with False IfWaitingComplete show ?thesis
      by (intro exI [of _ False] exI [of _ p] exI [of _ h]) (simp add: fetch_request_def)
  qed
qed

lemma fetch_stage_ok:
  assumes y: "psys lo hi img B dr ir p m h" and l: "fetch_link ir p" and code: "code_ok lo hi img"
    and pc: "in_code lo hi 0 (p_if_pc p)" and bp: "predictor_ok lo hi (p_branch_predictor p)"
  shows "\<exists>p' h' ir'. pipe_stage_fetch R mtry p m h = Inr (p', m, h') \<and> psys lo hi img B dr ir' p' m h' \<and>
    fetch_link ir' p' \<and> fetch_result lo hi img p p'"
proof -
  have hi: "hi \<le> length img" using code by (simp add: code_ok_def)
  from fetch_request_ok [OF y l hi pc] obtain ready p1 h1 where
    r: "fetch_request R mtry p m h = Inr (ready, p1, m, h1)"
      "if ready then fetch_ready lo hi img B dr p p1 m h1 else fetch_waits lo hi img B dr p p1 m h1" by blast
  show ?thesis
  proof (cases ready)
    case False
    with r(2) have "fetch_waits lo hi img B dr p p1 m h1" by simp
    then obtain ic f ir' where w: "p1 = p\<lparr>p_icache := ic, p_if_fsm := f\<rparr>" "fetch_link ir' p1"
      "psys lo hi img B dr ir' p1 m h1"
      "phase f < phase (p_if_fsm p) \<or> f = p_if_fsm p \<and> ic = p_icache p \<and> caller ic \<noteq> None"
      unfolding fetch_waits_def by blast
    moreover have "fetch_result lo hi img p p1" unfolding fetch_result_def
      by (rule disjI1, rule exI [of _ ic], rule exI [of _ f], rule exI [of _ "p_if_raw_inst_buffer p"]) (use w(1,4) in auto)
    moreover have "pipe_stage_fetch R mtry p m h = Inr (p1, m, h1)" using r(1) False by (simp add: pipe_stage_fetch_def)
    ultimately show ?thesis by blast
  next
    case True
    with r(2) have "fetch_ready lo hi img B dr p p1 m h1" by simp
    then obtain ic where w: "p1 = p\<lparr>p_icache := ic, p_if_raw_inst_buffer := Some (code_word img (p_if_pc p))\<rparr>"
      "psys lo hi img B dr Free p1 m h1" "ic = p_icache p \<or> caller (p_icache p) = None"
      "p_id_op p \<noteq> None \<longrightarrow> (\<exists>ir. fetch_link ir p1 \<and> psys lo hi img B dr ir p1 m h1)"
      unfolding fetch_ready_def by blast
    show ?thesis
    proof (cases "p_id_op p")
      case None
      have "p_id_op p1 = None" "p_if_raw_inst_buffer p1 = Some (code_word img (p_if_pc p1))"
        "in_code lo hi 0 (p_if_pc p1)" "predictor_ok lo hi (p_branch_predictor p1)"
        using w(1) None pc bp by simp_all
      from fetch_issue_ok [OF this(1,2) code this(3,4)] obtain u where
        u: "fetch_issue p1 = Inr (p1\<lparr>p_if_raw_inst_buffer := None, p_hpm := inst_fetch (p_hpm p1), p_if_fsm := IfIdle,
              p_if_pc := predicted_pc u, p_id_op := Some u\<rparr>)" "fetched_at img (p_if_pc p1) u" "steers lo hi u" by blast
      let ?p = "p\<lparr>p_icache := ic, p_if_fsm := IfIdle, p_if_raw_inst_buffer := None, p_hpm := inst_fetch (p_hpm p),
              p_if_pc := predicted_pc u, p_id_op := Some u\<rparr>"
      have "pipe_stage_fetch R mtry p m h = Inr (?p, m, h1)"
        using r(1) True u(1) w(1) by (simp add: pipe_stage_fetch_def)
      moreover have "psys lo hi img B dr Free ?p m h1" "fetch_link Free ?p"
        using w(1,2) by (simp_all add: fetch_link_def)
      moreover have "fetch_result lo hi img p ?p" unfolding fetch_result_def
        by (rule disjI2, rule exI [of _ ic], rule exI [of _ IfIdle], rule exI [of _ None], rule exI [of _ u])
          (use None u(2,3) w(1) in simp)
      ultimately show ?thesis by blast
    next
      case (Some x)
      then have full: "p_id_op p1 \<noteq> None" using w(1) by simp
      have "pipe_stage_fetch R mtry p m h = Inr (p1, m, h1)"
        using r(1) True fetch_issue_full [OF full] by (simp add: pipe_stage_fetch_def)
      moreover have "work ic = work (p_icache p)"
      proof (cases "ic = p_icache p")
        case False
        with w(3) have "caller (p_icache p) = None" by blast
        moreover have "caller ic = None" using split.sysD(4) [OF conjunct1 [OF w(2)]] w(1) by (simp add: split.iport_def)
        ultimately show ?thesis
          using split.sys_idle_work [OF conjunct1 [OF y]] split.sys_idle_work [OF conjunct1 [OF w(2)]] w(1) by simp
      qed simp
      then have "fetch_result lo hi img p p1" unfolding fetch_result_def
        by (intro disjI1 exI [of _ ic] exI [of _ "p_if_fsm p"] exI [of _ "Some (code_word img (p_if_pc p))"])
          (use w(1) Some in auto)
      ultimately show ?thesis using w(4) Some by auto
    qed
  qed
qed

subsection \<open>Memory access\<close>

text \<open>One step of the transaction for the access \<open>a\<close>.\<close>

lemma transaction_step:
  assumes y: "psys lo hi img B dr ir p m h" and l: "mem_link dr (p_mem_transaction p) (Some x)"
    and a: "memory_access x = Inr (Some a)" "access_ok 4 (length img) a"
      "ma_is_load a \<or> unat (ma_addr a) + ma_len a \<le> lo \<or> hi \<le> unat (ma_addr a)"
    and B: "length B = length img"
  shows "\<exists>st t dc h' dr' B'.
    mt_progress (cached_try_reg R (cached_try_reg R mtry)) (p_mem_transaction p) a (p_dcache p, p_l2_cache p, m) h =
      Inr (st, t, (dc, p_l2_cache p, m), h') \<and>
    psys lo hi img B' dr' ir (p\<lparr>p_dcache := dc\<rparr>) m h' \<and>
    (st = StPending \<and> mem_link dr' t (Some x) \<and> B' = B \<and>
       t \<noteq> MtIdle \<and> (p_mem_transaction p = MtIdle \<or> dc = p_dcache p \<and> caller dc \<noteq> None) \<or>
     st = StComplete (flat_value a B) \<and> dr' = None \<and> B' = flat_store a B)"
proof -
  have acc: "access_ok 4 (length B) a" using a(2) B by simp
  let ?reg = "cached_try_reg R (cached_try_reg R mtry)" and ?m = "\<lambda>dc. (dc, p_l2_cache p, m)"
  have fin: "mt_complete r a h' = Inr (StComplete (flat_value a B), MtComplete (flat_value a B)) \<and>
      psys lo hi img (flat_store a B) None ir (p\<lparr>p_dcache := dc\<rparr>) m h'"
    if "psys lo hi img B (Some r) ir (p\<lparr>p_dcache := dc\<rparr>) m h'" "is_done r h'" "request_for a h1 = (r, h2)" for r h1 h2 dc h'
    using split.collect_d(1) [OF conjunct1 [OF that(1)] that(2)] that(1)
      mt_complete_flat [OF that(3) acc] request_for_spec(5) [OF that(3) acc] by auto
  from l consider "p_mem_transaction p = MtIdle" "dr = None" |
    r h1 h2 where "p_mem_transaction p = MtWaiting r a" "dr = Some r" "request_for a h1 = (r, h2)"
    using a(1) by (auto simp: mem_link_def split: MemoryTransaction.splits)
  then show ?thesis
  proof cases
    case 1
    obtain r h0 where r: "request_for a h = (r, h0)" by fastforce
    note s = request_for_spec [OF r acc]
    from s(4) obtain c where h0: "h0 = h @ [c]" by blast
    have y0: "psys lo hi img B None ir p m h0" using split.sys_append [OF conjunct1 [OF y], of c] y h0 1(2) by simp
    have adm: "admissible (blk_bytes (p_dcache p)) (length img) r"
      using s(3) y B by (auto simp: admissible_def)
    have off: "off_code {lo..<hi} r" using a(3) s(6-8) by (auto simp: off_code_def)
    have own: "req_cell_id r \<notin> split.owned (p_icache p) (p_dcache p) (p_l2_cache p, m)"
      using split.sys_image(3) [OF conjunct1 [OF y]] s(2) by auto
    have un: "req_cell_id q \<noteq> req_cell_id r" if "ir = Unsent q" for q
      using split.sysD(4) [OF conjunct1 [OF y]] that s(2) fresh_reqD [of q h] by (auto simp: split.iport_def)
    from split.register_d [OF conjunct1 [OF y0] s(1) adm off own un] obtain dc h' where
      t: "GeneralCache_try_register_req R (cached_try_reg R mtry) r (p_dcache p) (p_l2_cache p, m) h0 =
           Inr (True, dc, (p_l2_cache p, m), h')"
        "split.sys {lo..<hi} img B (Some r) ir (p_icache p) dc (p_l2_cache p, m) h'" "blk_bytes dc = blk_bytes (p_dcache p)"
      by blast
    have y1: "psys lo hi img B (Some r) ir (p\<lparr>p_dcache := dc\<rparr>) m h'" using t(2,3) y by simp
    have reg: "?reg r (?m (p_dcache p)) h0 = Inr (True, ?m dc, h')" using t(1) by (simp add: cached_try_reg_def [of R "cached_try_reg R mtry"])
    show ?thesis
    proof (cases "is_done r h'")
      case True
      from fin [OF y1 True r] reg True r 1(1) show ?thesis
        by (intro exI [of _ "StComplete (flat_value a B)"] exI [of _ "MtComplete (flat_value a B)"] exI [of _ dc]
            exI [of _ h'] exI [of _ None] exI [of _ "flat_store a B"]) (simp add: mt_progress_def mt_send_def)
    next
      case False
      have "mem_link (Some r) (MtWaiting r a) (Some x)" using r a(1) by (auto simp: mem_link_def)
      with y1 reg False r 1(1) show ?thesis
        by (intro exI [of _ StPending] exI [of _ "MtWaiting r a"] exI [of _ dc]
            exI [of _ h'] exI [of _ "Some r"] exI [of _ B]) (simp add: mt_progress_def mt_send_def)
    qed
  next
    case (2 r h1 h2)
    have y1: "psys lo hi img B (Some r) ir (p\<lparr>p_dcache := p_dcache p\<rparr>) m h" using y 2(2) by simp
    show ?thesis
    proof (cases "is_done r h")
      case True
      from fin [OF y1 True 2(3)] True 2(1) show ?thesis
        by (intro exI [of _ "StComplete (flat_value a B)"] exI [of _ "MtComplete (flat_value a B)"] exI [of _ "p_dcache p"]
            exI [of _ h] exI [of _ None] exI [of _ "flat_store a B"]) (simp add: mt_progress_def)
    next
      case False
      with y1 2(1,2) l split.collect_d(2) [OF conjunct1 [OF y1] False] show ?thesis
        by (intro exI [of _ StPending] exI [of _ "MtWaiting r a"] exI [of _ "p_dcache p"]
            exI [of _ h] exI [of _ "Some r"] exI [of _ B]) (simp add: mt_progress_def)
    qed
  qed
qed

text \<open>
  The whole stage: the operation waits for its access, or moves on with the value it loaded and the
  memory it leaves behind.
\<close>

lemma mem_stage_ok:
  assumes y: "psys lo hi img B dr ir p m h" and l: "mem_link dr (p_mem_transaction p) (Some x)"
    and x: "p_mem_op p = Some x" "p_wb_op p = None" "memory_access x = Inr acc"
    and a: "\<And>a. acc = Some a \<Longrightarrow> access_ok 4 (length img) a \<and>
      (ma_is_load a \<or> unat (ma_addr a) + ma_len a \<le> lo \<or> hi \<le> unat (ma_addr a))"
    and B: "length B = length img"
  shows "\<exists>p' h' dr' B' t dc. pipe_stage_mem R mtry p m h = Inr (p', m, h') \<and> psys lo hi img B' dr' ir p' m h' \<and>
    mem_link dr' t (p_mem_op p') \<and>
    (p' = p\<lparr>p_mem_transaction := t, p_dcache := dc\<rparr> \<and> B' = B \<and> acc \<noteq> None \<and>
       t \<noteq> MtIdle \<and> (p_mem_transaction p = MtIdle \<or> dc = p_dcache p \<and> caller dc \<noteq> None) \<or>
     p' = p\<lparr>p_mem_transaction := t, p_dcache := dc, p_mem_op := None,
            p_wb_op := Some (case acc of None \<Rightarrow> x | Some a \<Rightarrow> loaded a B x)\<rparr> \<and> t = MtIdle \<and> (acc = None \<longrightarrow> dc = p_dcache p) \<and>
       B' = (case acc of None \<Rightarrow> B | Some a \<Rightarrow> flat_store a B))"
proof (cases acc)
  case None
  let ?p = "p\<lparr>p_mem_transaction := MtIdle, p_dcache := p_dcache p, p_mem_op := None, p_wb_op := Some x\<rparr>"
  have dr: "dr = None" using l x(3) None by (auto simp: mem_link_def split: MemoryTransaction.splits)
  have "pipe_stage_mem R mtry p m h = Inr (?p, m, h)"
    using x None by (simp add: pipe_stage_mem_def mem_finish_def mt_reset_def)
  with None y dr show ?thesis
    by (intro exI [of _ ?p] exI [of _ h] exI [of _ None] exI [of _ B] exI [of _ MtIdle] exI [of _ "p_dcache p"])
      (simp add: mem_link_def)
next
  case (Some a)
  from transaction_step [OF y l, of a] x(3) a [OF Some] B Some obtain st t dc h' dr' B' where
    s: "mt_progress (cached_try_reg R (cached_try_reg R mtry)) (p_mem_transaction p) a (p_dcache p, p_l2_cache p, m) h =
      Inr (st, t, (dc, p_l2_cache p, m), h')" "psys lo hi img B' dr' ir (p\<lparr>p_dcache := dc\<rparr>) m h'"
    and oc: "st = StPending \<and> mem_link dr' t (Some x) \<and> B' = B \<and>
       t \<noteq> MtIdle \<and> (p_mem_transaction p = MtIdle \<or> dc = p_dcache p \<and> caller dc \<noteq> None) \<or>
     st = StComplete (flat_value a B) \<and> dr' = None \<and> B' = flat_store a B" by blast
  from oc show ?thesis
  proof (rule disjE; elim conjE)
    assume p: "st = StPending" "mem_link dr' t (Some x)" "B' = B"
      "t \<noteq> MtIdle" "p_mem_transaction p = MtIdle \<or> dc = p_dcache p \<and> caller dc \<noteq> None"
    let ?p = "p\<lparr>p_mem_transaction := t, p_dcache := dc\<rparr>"
    have "pipe_stage_mem R mtry p m h = Inr (?p, m, h')"
      using x Some s(1) p(1) by (simp add: pipe_stage_mem_def)
    with s(2) p Some x(1) show ?thesis
      by (intro exI [of _ ?p] exI [of _ h'] exI [of _ dr'] exI [of _ B'] exI [of _ t] exI [of _ dc]) simp
  next
    assume p: "st = StComplete (flat_value a B)" "dr' = None" "B' = flat_store a B"
    let ?p = "p\<lparr>p_mem_transaction := MtIdle, p_dcache := dc, p_mem_op := None, p_wb_op := Some (loaded a B x)\<rparr>"
    have "pipe_stage_mem R mtry p m h = Inr (?p, m, h')"
      using x Some s(1) p(1)
      by (simp add: pipe_stage_mem_def mem_finish_def mt_reset_def loaded_def)
    with s(2) p Some show ?thesis
      by (intro exI [of _ ?p] exI [of _ h'] exI [of _ dr'] exI [of _ B'] exI [of _ MtIdle] exI [of _ dc])
        (simp add: mem_link_def)
  qed
qed

subsection \<open>Clocks\<close>

lemma clocks_ok:
  assumes y: "psys lo hi img B dr ir p m h"
  shows "\<exists>ic dc c2 m' h'.
    bindR (tick_icache R mtry p m h) (\<lambda>(p2, m2, h2).
    bindR (tick_dcache R mtry p2 m2 h2) (\<lambda>(p3, m3, h3).
    bindR (tick_l2_cache R mtry p3 m3 h3) (\<lambda>(p4, m4, h4).
    bindR (mtick m4 h4) (\<lambda>(m5, h5). Inr (p4, m5, h5))))) =
      Inr (p\<lparr>p_icache := ic, p_dcache := dc, p_l2_cache := c2\<rparr>, m', h') \<and>
    psys lo hi img B dr ir (p\<lparr>p_icache := ic, p_dcache := dc, p_l2_cache := c2\<rparr>) m' h' \<and>
    split.effort ic dc (c2, m') \<le> split.effort (p_icache p) (p_dcache p) (p_l2_cache p, m) \<and>
    (caller (p_icache p) \<noteq> None \<or> caller (p_dcache p) \<noteq> None \<longrightarrow>
       split.effort ic dc (c2, m') < split.effort (p_icache p) (p_dcache p) (p_l2_cache p, m))"
proof -
  from split.tick_i [OF conjunct1 [OF y]] obtain ic s1 h1 where
    i: "GeneralCache_tick R (cached_try_reg R mtry) (p_icache p) (p_l2_cache p, m) h = Inr (ic, s1, h1)"
      "split.sys {lo..<hi} img B dr ir ic (p_dcache p) s1 h1" "blk_bytes ic = blk_bytes (p_icache p)" by blast
  from split.tick_d [OF i(2)] obtain dc s2 h2 where
    d: "GeneralCache_tick R (cached_try_reg R mtry) (p_dcache p) s1 h1 = Inr (dc, s2, h2)"
      "split.sys {lo..<hi} img B dr ir ic dc s2 h2" "blk_bytes dc = blk_bytes (p_dcache p)" by blast
  from split.tick_s [OF d(2)] obtain s3 h3 where
    s: "cached_tick R mtry mtick s2 h2 = Inr (s3, h3)" "split.sys {lo..<hi} img B dr ir ic dc s3 h3" by blast
  note f = split.clocks_effort [OF conjunct1 [OF y] i(1) d(1) s(1)]
  obtain c1 m1 c2 m2 c3 m3 where e: "s1 = (c1, m1)" "s2 = (c2, m2)" "s3 = (c3, m3)"
    by (cases s1, cases s2, cases s3)
  from s(1) e obtain m4 h4 where
    "GeneralCache_tick R mtry c2 m2 h2 = Inr (c3, m4, h4)" "mtick m4 h4 = Inr (m3, h3)"
    by (auto simp: cached_tick_def bindR_eq_Inr)
  with i d s e y f show ?thesis
    by (intro exI [of _ ic] exI [of _ dc] exI [of _ c3] exI [of _ m3] exI [of _ h3])
      (simp add: tick_icache_def tick_dcache_def tick_l2_cache_def)
qed

end

end
