(* ===== verification/Pipeline_Refines.thy ===== *)
theory Pipeline_Refines
  imports Processor_Ports
begin

text \<open>
  The pipeline refines the instruction set.  At every cycle boundary the registers are those of the
  reference machine after as many steps as instructions have retired; the operations in WB and MEM
  are its next two steps, the operations in EXE and ID are the instructions that follow, unless a
  mispredicted branch in MEM is about to flush them.
\<close>

subsection \<open>The reference machine\<close>

lemma regs_wf_set_reg: "regs_wf rs \<Longrightarrow> regs_wf (set_reg rd v rs)"
  by (simp add: regs_wf_def)

lemma isa_exec_keeps:
  assumes "isa_exec lo hi i A = Some A'" "regs_wf (isa_regs A)" "keeps_code {lo..<hi} img (isa_mem A)"
    "hi \<le> length img"
  shows "regs_wf (isa_regs A')" "keeps_code {lo..<hi} img (isa_mem A')"
proof -
  show "regs_wf (isa_regs A')"
    using assms(1,2) by (cases i) (auto simp: isa_exec_defs regs_wf_set_reg Let_def split: if_splits)
  have st: "keeps_code {lo..<hi} img (isa_mem A')" if "isa_store lo hi n s A = Some A'" "n \<le> 4" for n s
    using that assms(3,4)
    by (auto simp: isa_store_def isa_aligned_def Let_def keeps_code_def nth_put_seg split: if_splits)
  show "keeps_code {lo..<hi} img (isa_mem A')"
    using assms(1,3) st [of 1] st [of 2] st [of 4]
    by (cases i) (auto simp: isa_exec_def isa_op_def isa_op_imm_def isa_load_def isa_branch_def
        isa_result_def isa_advance_def Let_def split: if_splits)
qed

lemma code_word_kept:
  assumes "keeps_code {lo..<hi} img W" "in_code lo hi 0 pc" "hi \<le> length img"
  shows "code_word W pc = code_word img pc"
proof -
  have "seg (unat pc) 4 W = seg (unat pc) 4 img"
    by (rule nth_equalityI) (use assms in \<open>auto simp: keeps_code_def in_code_def\<close>)
  then show ?thesis by (simp add: code_word_def)
qed

lemma in_code_mono: "in_code lo hi d pc \<Longrightarrow> d' \<le> d \<Longrightarrow> in_code lo hi d' pc"
  by (simp add: in_code_def)

lemma in_code_next:
  assumes "in_code lo hi (Suc d) pc" "hi \<le> 2 ^ 32"
  shows "in_code lo hi d (pc + 4)"
proof -
  have "unat (pc + 4) = unat pc + 4"
    using assms by (subst unat_add_lem [THEN iffD1]) (auto simp: in_code_def)
  with assms(1) show ?thesis by (simp add: in_code_def)
qed

lemma predicted_in_code:
  assumes "fetched_at img pc u" "steers lo hi u" "in_code lo hi (Suc d) pc" "d \<le> 2" "hi \<le> 2 ^ 32"
  shows "in_code lo hi d (predicted_pc u)"
  using in_code_next [OF assms(3,5)] assms(2,4) in_code_mono fetched_atD(3) [OF assms(1)]
  by (auto simp: predicted_pc_def steers_def split: option.splits)

lemma isa_stepD:
  assumes "isa_step lo hi A = Some A'"
  obtains i where "in_code lo hi 2 (isa_pc A)" "isa_inst A = Inr i" "isa_exec lo hi i A = Some A'"
  using assms by (auto simp: isa_step_def split: if_splits sum.splits)

lemma isa_step_keeps:
  assumes "isa_step lo hi A = Some A'" "regs_wf (isa_regs A)" "keeps_code {lo..<hi} img (isa_mem A)"
    "hi \<le> length img"
  shows "regs_wf (isa_regs A')" "keeps_code {lo..<hi} img (isa_mem A')"
  using isa_stepD [OF assms(1)] isa_exec_keeps [OF _ assms(2-4)] by metis+

text \<open>The fetched operation is the reference machine's instruction.\<close>

lemma fetched_inst:
  assumes "fetched_at img (isa_pc A) u" "in_code lo hi 0 (isa_pc A)" "code_ok lo hi img"
    "keeps_code {lo..<hi} img (isa_mem A)"
  shows "isa_inst A = Inr (op_inst u)"
  using fetched_atD(1) [OF assms(1)] code_word_kept [OF assms(4,2)] assms(3)
  by (simp add: isa_inst_def code_ok_def)

subsection \<open>The stages against the reference machine\<close>

definition rd_ok :: "PreDecodeMicroOp \<Rightarrow> bool" where
  "rd_ok x \<longleftrightarrow> (\<forall>i. op_rd_index x = Some i \<longrightarrow> unat i < 32)"

text \<open>How many instructions retire when the slot is written back: a bubble counts for none.\<close>

definition retires :: "PreDecodeMicroOp option \<Rightarrow> nat" where
  "retires wb = (case wb of None \<Rightarrow> 0 | Some x \<Rightarrow> if op_placeholder x then 0 else 1)"

text \<open>The operation stands for the step from \<open>A\<close> to \<open>A'\<close>, or for no step when it is a bubble.\<close>

definition stands_for :: "nat \<Rightarrow> nat \<Rightarrow> PreDecodeMicroOp \<Rightarrow> Arch \<Rightarrow> Arch \<Rightarrow> bool" where
  "stands_for lo hi x A A' \<longleftrightarrow> rd_ok x \<and>
     (if op_placeholder x then A' = A \<and> op_inst x = op_inst placeholder_nop
      else isa_step lo hi A = Some A' \<and> (is_ecall (op_inst x) \<longleftrightarrow> (\<exists>i. isa_inst A = Inr (Ecall i))))"

definition wb_stage :: "nat \<Rightarrow> nat \<Rightarrow> PreDecodeMicroOp option \<Rightarrow> Arch \<Rightarrow> Arch \<Rightarrow> bool" where
  "wb_stage lo hi wb N G \<longleftrightarrow>
     (case wb of
        None \<Rightarrow> G = N
      | Some x \<Rightarrow> stands_for lo hi x N G \<and> wbk (Some x) (isa_regs N) = isa_regs G)"

definition mem_stage :: "nat \<Rightarrow> nat \<Rightarrow> PreDecodeMicroOp option \<Rightarrow> Arch \<Rightarrow> Arch \<Rightarrow> bool" where
  "mem_stage lo hi mem G H \<longleftrightarrow>
     (case mem of None \<Rightarrow> H = G | Some x \<Rightarrow> stands_for lo hi x G H \<and> applies lo hi x G H)"

text \<open>A decoded operation does not read the register of a load that is still waiting for its value.\<close>

definition load_free :: "PreDecodeMicroOp option \<Rightarrow> PreDecodeMicroOp \<Rightarrow> bool" where
  "load_free mem e \<longleftrightarrow>
     (\<forall>x a rd. mem = Some x \<longrightarrow> memory_access x = Inr (Some a) \<longrightarrow> ma_is_load a \<longrightarrow> op_rd_index x = Some rd \<longrightarrow>
        rd = 0 \<or> sources_in (- {rd}) e)"

text \<open>
  EXE holds nothing, a bubble, or the operation at \<open>pc\<close>, decoded for registers that forwarding from
  WB and MEM brings up to date; \<open>nxt\<close> is where fetch went on.
\<close>

definition exe_stage ::
  "nat \<Rightarrow> nat \<Rightarrow> u8 list \<Rightarrow> u32 list \<Rightarrow> PreDecodeMicroOp option \<Rightarrow> PreDecodeMicroOp option \<Rightarrow> u32 \<Rightarrow>
   PreDecodeMicroOp option \<Rightarrow> u32 \<Rightarrow> bool" where
  "exe_stage lo hi img rs wb mem pc exe nxt \<longleftrightarrow>
     (case exe of
        None \<Rightarrow> nxt = pc
      | Some e \<Rightarrow>
          e = placeholder_nop \<and> nxt = pc \<or>
          (\<exists>u. fetched_at img pc u \<and> steers lo hi u \<and> nxt = predicted_pc u \<and> load_free mem e \<and>
             decode u (wbk mem (wbk wb rs)) = Inr (forward_opt mem (forward_opt wb e))))"

definition id_stage :: "nat \<Rightarrow> nat \<Rightarrow> u8 list \<Rightarrow> u32 \<Rightarrow> PreDecodeMicroOp option \<Rightarrow> u32 \<Rightarrow> bool" where
  "id_stage lo hi img pc i nxt \<longleftrightarrow>
     (case i of
        None \<Rightarrow> nxt = pc
      | Some u \<Rightarrow> fetched_at img pc u \<and> steers lo hi u \<and> nxt = predicted_pc u)"

definition front ::
  "nat \<Rightarrow> nat \<Rightarrow> u8 list \<Rightarrow> u32 list \<Rightarrow> PreDecodeMicroOp option \<Rightarrow> PreDecodeMicroOp option \<Rightarrow> u32 \<Rightarrow>
   'rp PipelineProcessor \<Rightarrow> bool" where
  "front lo hi img rs wb mem pc p \<longleftrightarrow>
     (\<exists>nxt. exe_stage lo hi img rs wb mem pc (p_exe_op p) nxt \<and> id_stage lo hi img nxt (p_id_op p) (p_if_pc p))"

text \<open>The state between two cycles.\<close>

definition pipe_inv ::
  "nat \<Rightarrow> nat \<Rightarrow> u8 list \<Rightarrow> Arch \<Rightarrow> Arch \<Rightarrow> Arch \<Rightarrow> 'rp PipelineProcessor \<Rightarrow> bool" where
  "pipe_inv lo hi img N G H p \<longleftrightarrow>
     isa_regs N = p_id_regs p \<and> regs_wf (isa_regs N) \<and> keeps_code {lo..<hi} img (isa_mem N) \<and>
     wb_stage lo hi (p_wb_op p) N G \<and> mem_stage lo hi (p_mem_op p) G H \<and>
     predictor_ok lo hi (p_branch_predictor p) \<and>
     (if p_branch_recover p
      then retires (p_mem_op p) = 1 \<and> p_branch_flushes p = 3 \<and> p_branch_destination p = isa_pc H
      else front lo hi img (p_id_regs p) (p_wb_op p) (p_mem_op p) (isa_pc H) p)"

lemma pipe_invD:
  assumes "pipe_inv lo hi img N G H p"
  shows "p_id_regs p = isa_regs N" "regs_wf (isa_regs N)" "keeps_code {lo..<hi} img (isa_mem N)"
    "wb_stage lo hi (p_wb_op p) N G" "mem_stage lo hi (p_mem_op p) G H" "predictor_ok lo hi (p_branch_predictor p)"
    "\<not> p_branch_recover p \<Longrightarrow> front lo hi img (isa_regs N) (p_wb_op p) (p_mem_op p) (isa_pc H) p"
  using assms by (auto simp: pipe_inv_def)

lemma stands_for_keeps:
  assumes "stands_for lo hi x A A'" "regs_wf (isa_regs A)" "keeps_code {lo..<hi} img (isa_mem A)" "hi \<le> length img"
  shows "regs_wf (isa_regs A')" "keeps_code {lo..<hi} img (isa_mem A')"
  using assms isa_step_keeps [of lo hi A A' img] by (auto simp: stands_for_def split: if_splits)

lemma wb_stage_keeps:
  assumes "wb_stage lo hi wb N G" "regs_wf (isa_regs N)" "keeps_code {lo..<hi} img (isa_mem N)" "hi \<le> length img"
  shows "regs_wf (isa_regs G)" "keeps_code {lo..<hi} img (isa_mem G)"
  using assms stands_for_keeps [of lo hi _ N G img] by (auto simp: wb_stage_def split: option.splits)

lemma mem_stage_keeps:
  assumes "mem_stage lo hi mem G H" "regs_wf (isa_regs G)" "keeps_code {lo..<hi} img (isa_mem G)" "hi \<le> length img"
  shows "regs_wf (isa_regs H)" "keeps_code {lo..<hi} img (isa_mem H)"
  using assms stands_for_keeps [of lo hi _ G H img] by (auto simp: mem_stage_def split: option.splits)

lemma wbk_idem [simp]: "wbk z (wbk z rs) = wbk z rs"
  by (auto simp: wbk_def set_reg_def split: option.splits)

lemma write_register_wbk:
  assumes "rd_ok x" "length rs = 32"
  shows "write_register (writeback x) rs = Inr (wbk (Some x) rs)"
  using assms
  by (auto simp: write_register_def wbk_def set_reg_def upd_def rd_ok_def writeback_def split: option.splits)

subsection \<open>Branch recovery\<close>

text \<open>What the stages before MEM leave alone.\<close>

definition same_back :: "'rp PipelineProcessor \<Rightarrow> 'rp PipelineProcessor \<Rightarrow> bool" where
  "same_back p p' \<longleftrightarrow>
     p_mem_op p' = p_mem_op p \<and> p_wb_op p' = p_wb_op p \<and> p_mem_transaction p' = p_mem_transaction p \<and>
     p_icache p' = p_icache p \<and> p_dcache p' = p_dcache p \<and> p_l2_cache p' = p_l2_cache p \<and>
     p_halt p' = p_halt p \<and> inst_retire (p_hpm p') = inst_retire (p_hpm p)"

lemma recovery_ok:
  assumes i: "pipe_inv lo hi img N G H p" and pc: "in_code lo hi 2 (isa_pc H)"
  shows "\<exists>p'. pipe_branch_recovery (p\<lparr>p_hpm := stat_tick (p_hpm p)\<rparr>) = Inr p' \<and> pipe_inv lo hi img N G H p' \<and>
    \<not> p_branch_recover p' \<and> same_back p p' \<and>
    (p_branch_recover p \<and> p_if_fsm p' = IfIdle \<and> p_id_op p' = None \<or>
     \<not> p_branch_recover p \<and> p' = p\<lparr>p_hpm := stat_tick (p_hpm p)\<rparr>)"
proof (cases "p_branch_recover p")
  case True
  with i obtain x where x: "p_mem_op p = Some x" "p_branch_flushes p = 3" "p_branch_destination p = isa_pc H"
    by (auto simp: pipe_inv_def retires_def split: option.splits if_splits)
  define p' where "p' = (flush_stages (p\<lparr>p_hpm := stat_tick (p_hpm p), p_if_pc := p_branch_destination p, p_if_fsm := IfIdle,
        p_if_raw_inst_buffer := None\<rparr>))\<lparr>p_branch_predictor := mispredict_recovery (p_branch_predictor p)
          (p_branch_correct_direction p) (op_pc x) (isa_pc H), p_branch_recover := False\<rparr>"
  have f: "p_mem_op p' = p_mem_op p" "p_wb_op p' = p_wb_op p" "p_exe_op p' = None" "p_id_op p' = None"
    "p_if_pc p' = isa_pc H" "p_if_fsm p' = IfIdle" "p_id_regs p' = p_id_regs p" "\<not> p_branch_recover p'"
    "p_branch_predictor p' = mispredict_recovery (p_branch_predictor p) (p_branch_correct_direction p) (op_pc x) (isa_pc H)"
    and s: "same_back p p'"
    using x by (simp_all add: p'_def flush_stages_def Let_def same_back_def inst_flush_def stat_tick_def)
  have "pipe_branch_recovery (p\<lparr>p_hpm := stat_tick (p_hpm p)\<rparr>) = Inr p'"
    using True x by (simp add: pipe_branch_recovery_def p'_def flush_stages_def Let_def)
  moreover have "pipe_inv lo hi img N G H p'"
    using pipe_invD [OF i] f predictor_ok_recovery [OF _ pc]
    by (simp add: pipe_inv_def front_def exe_stage_def id_stage_def)
  ultimately show ?thesis using f s True by blast
next
  case False
  have "front lo hi img rs wb mem pc (p\<lparr>p_hpm := st\<rparr>) = front lo hi img rs wb mem pc p" for rs wb mem pc st
    by (simp add: front_def)
  with pipe_invD [OF i] False show ?thesis
    by (simp add: pipe_branch_recovery_def pipe_inv_def same_back_def stat_tick_def)
qed

subsection \<open>Forwarding and write-back\<close>

text \<open>The front of the pipeline once forwarding has taken place: EXE holds the operation decoded with \<open>rs\<close>.\<close>

definition exe_ready ::
  "nat \<Rightarrow> nat \<Rightarrow> u8 list \<Rightarrow> u32 list \<Rightarrow> PreDecodeMicroOp option \<Rightarrow> u32 \<Rightarrow> PreDecodeMicroOp option \<Rightarrow> u32 \<Rightarrow> bool" where
  "exe_ready lo hi img rs mem pc exe nxt \<longleftrightarrow>
     (case exe of
        None \<Rightarrow> nxt = pc
      | Some e \<Rightarrow>
          e = placeholder_nop \<and> nxt = pc \<or>
          (\<exists>u. fetched_at img pc u \<and> steers lo hi u \<and> nxt = predicted_pc u \<and> load_free mem e \<and> decode u rs = Inr e))"

definition ready ::
  "nat \<Rightarrow> nat \<Rightarrow> u8 list \<Rightarrow> u32 list \<Rightarrow> PreDecodeMicroOp option \<Rightarrow> u32 \<Rightarrow> 'rp PipelineProcessor \<Rightarrow> bool" where
  "ready lo hi img rs mem pc p \<longleftrightarrow>
     (\<exists>nxt. exe_ready lo hi img rs mem pc (p_exe_op p) nxt \<and> id_stage lo hi img nxt (p_id_op p) (p_if_pc p))"

definition after_wb :: "nat \<Rightarrow> nat \<Rightarrow> u8 list \<Rightarrow> Arch \<Rightarrow> Arch \<Rightarrow> 'rp PipelineProcessor \<Rightarrow> bool" where
  "after_wb lo hi img G H p \<longleftrightarrow>
     isa_regs G = p_id_regs p \<and> regs_wf (isa_regs G) \<and> keeps_code {lo..<hi} img (isa_mem G) \<and>
     p_wb_op p = None \<and> mem_stage lo hi (p_mem_op p) G H \<and> predictor_ok lo hi (p_branch_predictor p) \<and>
     \<not> p_branch_recover p \<and> ready lo hi img (wbk (p_mem_op p) (isa_regs G)) (p_mem_op p) (isa_pc H) p"

lemma forward_placeholder: "forward_opt z placeholder_nop = placeholder_nop"
  by (cases z; cases "writeback (the z)")
    (auto simp: forward_opt_def forward_from_def placeholder_nop_def generate_nop_def PreDecodeMicroOp_default_def)

lemma load_free_sources:
  assumes "load_free mem e" "\<And>k x. op_rs1 e' = Some (k, x) \<Longrightarrow> \<exists>y. op_rs1 e = Some (k, y)"
    "\<And>k x. op_rs2 e' = Some (k, x) \<Longrightarrow> \<exists>y. op_rs2 e = Some (k, y)"
  shows "load_free mem e'"
  using assms unfolding load_free_def sources_in_def by blast

lemma forward_value_index: "forward_value r w = Some (k, x) \<Longrightarrow> \<exists>y. r = Some (k, y)"
  by (cases "(r, w)" rule: forward_value.cases) auto

lemma load_free_forward: "load_free mem e \<Longrightarrow> load_free mem (forward_opt z e)"
  by (rule load_free_sources)
    (auto simp: forward_opt_def forward_from_def split: option.splits dest: forward_value_index)

lemma hazard_resolve:
  "pipe_normal_data_hazard_resolve p =
     p\<lparr>p_exe_op := map_option (\<lambda>e. forward_opt (p_mem_op p) (forward_opt (p_wb_op p) e)) (p_exe_op p)\<rparr>"
  by (auto simp: pipe_normal_data_hazard_resolve_def forward_opt_def Let_def split: option.splits)

lemma exe_forwarded:
  assumes "exe_stage lo hi img rs wb mem pc exe nxt"
  shows "exe_ready lo hi img (wbk mem (wbk wb rs)) mem pc
    (map_option (\<lambda>e. forward_opt mem (forward_opt wb e)) exe) nxt"
proof (cases exe)
  case (Some e)
  with assms consider "e = placeholder_nop" "nxt = pc" |
    u where "fetched_at img pc u" "steers lo hi u" "nxt = predicted_pc u" "load_free mem e"
      "decode u (wbk mem (wbk wb rs)) = Inr (forward_opt mem (forward_opt wb e))"
    by (auto simp: exe_stage_def)
  then show ?thesis
  proof cases
    case 1
    with Some show ?thesis by (simp add: exe_ready_def forward_placeholder)
  next
    case (2 u)
    with Some show ?thesis using load_free_forward [of mem e] load_free_forward [of mem "forward_opt wb e" mem]
      by (auto simp: exe_ready_def)
  qed
qed (use assms in \<open>simp add: exe_stage_def exe_ready_def\<close>)

lemma front_forwarded:
  assumes "front lo hi img rs wb mem pc p"
  shows "ready lo hi img (wbk mem (wbk wb rs)) mem pc
    (p\<lparr>p_exe_op := map_option (\<lambda>e. forward_opt mem (forward_opt wb e)) (p_exe_op p)\<rparr>)"
  using assms exe_forwarded unfolding front_def ready_def by fastforce

text \<open>The state after the WB stage; \<open>halt\<close> is set by the environment call that ends the program.\<close>

lemma wb_ok:
  assumes i: "pipe_inv lo hi img N G H p" and n: "\<not> p_branch_recover p" and hi: "hi \<le> length img"
  shows "\<exists>p'. pipe_stage_wb (pipe_normal_data_hazard_resolve p) = Inr p' \<and> after_wb lo hi img G H p' \<and>
    p_mem_op p' = p_mem_op p \<and> p_mem_transaction p' = p_mem_transaction p \<and>
    p_icache p' = p_icache p \<and> p_dcache p' = p_dcache p \<and> p_l2_cache p' = p_l2_cache p \<and>
    p_if_fsm p' = p_if_fsm p \<and> p_id_op p' = p_id_op p \<and> p_if_pc p' = p_if_pc p \<and>
    inst_retire (p_hpm p') = inst_retire (p_hpm p) + retires (p_wb_op p) \<and>
    p_halt p' = (p_halt p \<or> (\<exists>x. p_wb_op p = Some x \<and> is_ecall (op_inst x) \<and> isa_regs N ! 10 = 0)) \<and>
    retires (p_exe_op p') = retires (p_exe_op p) \<and>
    p_int_mul_div_stall_countdown p' = p_int_mul_div_stall_countdown p"
proof -
  note w = pipe_invD(1-6) [OF i] pipe_invD(7) [OF i n]
  note k = wb_stage_keeps [OF w(4,2,3) hi]
  have G: "wbk (p_wb_op p) (isa_regs N) = isa_regs G"
    using w(4) by (auto simp: wb_stage_def split: option.splits)
  define p1 where "p1 = pipe_normal_data_hazard_resolve p"
  note p1 = p1_def [unfolded hazard_resolve]
  have r: "ready lo hi img (wbk (p_mem_op p) (isa_regs G)) (p_mem_op p) (isa_pc H) p1"
    using front_forwarded [OF w(7)] G p1 by simp
  have len: "length (p_id_regs p1) = 32" using w(1,2) p1 by (simp add: regs_wf_def)
  define p' where "p' = p1\<lparr>p_halt := (p_halt p1 \<or> (\<exists>x. p_wb_op p1 = Some x \<and> ecall_halts x (p_id_regs p1))), p_wb_op := None,
     p_id_regs := isa_regs G,
     p_hpm := (case p_wb_op p1 of None \<Rightarrow> p_hpm p1 | Some x \<Rightarrow> if is_placeholder x then p_hpm p1 else inst_ret (p_hpm p1))\<rparr>"
  have "pipe_stage_wb p1 = Inr p'"
  proof (cases "p_wb_op p1")
    case None
    with G p1 w(1) show ?thesis by (cases p1) (simp add: pipe_stage_wb_def p'_def)
  next
    case (Some x)
    then have "rd_ok x" using w(4) p1 by (auto simp: wb_stage_def stands_for_def)
    from write_register_wbk [OF this len] Some G p1 w(1) show ?thesis
      by (simp add: pipe_stage_wb_def p'_def)
  qed
  moreover have "after_wb lo hi img G H p'"
    using k w(5,6) n r p1 by (simp add: after_wb_def p'_def ready_def)
  moreover have "inst_retire (p_hpm p') = inst_retire (p_hpm p) + retires (p_wb_op p)"
    using p1 by (simp add: p'_def retires_def is_placeholder_def inst_ret_def split: option.splits)
  moreover have "p_halt p' = (p_halt p \<or> (\<exists>x. p_wb_op p = Some x \<and> is_ecall (op_inst x) \<and> isa_regs N ! 10 = 0))"
    using p1 w(1) by (simp add: p'_def ecall_halts_def)
  moreover have "retires (p_exe_op p') = retires (p_exe_op p)"
    using p1 by (simp add: p'_def retires_def forward_opt_def forward_from_def split: option.split)
  ultimately show ?thesis using p1 p1_def by (simp add: p'_def)
qed

subsection \<open>Memory access\<close>

definition after_mem :: "nat \<Rightarrow> nat \<Rightarrow> u8 list \<Rightarrow> Arch \<Rightarrow> Arch \<Rightarrow> Arch \<Rightarrow> 'rp PipelineProcessor \<Rightarrow> bool" where
  "after_mem lo hi img N G H p \<longleftrightarrow>
     p_id_regs p = isa_regs N \<and> regs_wf (isa_regs N) \<and> keeps_code {lo..<hi} img (isa_mem N) \<and>
     wb_stage lo hi (p_wb_op p) N G \<and> mem_stage lo hi (p_mem_op p) G H \<and>
     predictor_ok lo hi (p_branch_predictor p) \<and> \<not> p_branch_recover p \<and>
     ready lo hi img (isa_regs G) (p_mem_op p) (isa_pc H) p \<and>
     (\<forall>x. p_mem_op p = Some x \<longrightarrow> G = N \<and> p_wb_op p = None \<and> writeback x = None)"

lemma loaded_fields [simp]:
  "op_inst (loaded a B x) = op_inst x" "op_placeholder (loaded a B x) = op_placeholder x"
  "op_rd_index (loaded a B x) = op_rd_index x"
  by (simp_all add: loaded_def set_writeback_value_def split: option.splits)

lemma stands_for_cong:
  "op_inst y = op_inst x \<Longrightarrow> op_placeholder y = op_placeholder x \<Longrightarrow> op_rd_index y = op_rd_index x \<Longrightarrow>
   stands_for lo hi y A A' = stands_for lo hi x A A'"
  by (simp add: stands_for_def rd_ok_def)

text \<open>The operation leaves MEM: it stands for the same step, and its result is written back later.\<close>

lemma mem_leaves:
  assumes "stands_for lo hi x G H" "applies lo hi x G H" "memory_access x = Inr acc"
  shows "wb_stage lo hi (Some (case acc of None \<Rightarrow> x | Some a \<Rightarrow> loaded a (isa_mem G) x)) G H"
    "(case acc of None \<Rightarrow> isa_mem G | Some a \<Rightarrow> flat_store a (isa_mem G)) = isa_mem H"
proof -
  have "stands_for lo hi (loaded a (isa_mem G) x) G H" for a
    using assms(1) stands_for_cong [of "loaded a (isa_mem G) x" x lo hi G H] by simp
  with assms show "wb_stage lo hi (Some (case acc of None \<Rightarrow> x | Some a \<Rightarrow> loaded a (isa_mem G) x)) G H"
    "(case acc of None \<Rightarrow> isa_mem G | Some a \<Rightarrow> flat_store a (isa_mem G)) = isa_mem H"
    unfolding wb_stage_def applies_def loaded_def [symmetric] by (auto split: option.splits)
qed

text \<open>What EXE holds is also decoded with the registers that the operation leaves behind.\<close>

lemma ready_after_load:
  assumes r: "ready lo hi img (wbk (Some x) (isa_regs G)) (Some x) pc p" and G: "regs_wf (isa_regs G)"
    and x: "stands_for lo hi x G H" "applies lo hi x G H" "memory_access x = Inr acc"
  shows "ready lo hi img (isa_regs H) None pc p"
proof -
  define y where "y = (case acc of None \<Rightarrow> x | Some a \<Rightarrow> loaded a (isa_mem G) x)"
  have H: "wbk (Some y) (isa_regs G) = isa_regs H"
    using mem_leaves(1) [OF x] by (simp add: wb_stage_def y_def)
  have "decode u (isa_regs H) = Inr e"
    if u: "fetched_at img pc u" "load_free (Some x) e" "decode u (wbk (Some x) (isa_regs G)) = Inr e" for u e
  proof (cases "\<exists>a. acc = Some a \<and> ma_is_load a")
    case True
    then obtain a where a: "acc = Some a" "ma_is_load a" by blast
    have "writeback x = None" using x(2,3) a by (simp add: applies_def)
    then have d: "decode u (isa_regs G) = Inr e" using u(3) by (simp add: wbk_def)
    have "forward_from y e = e"
    proof (cases "\<exists>rd v. writeback y = Some (rd, v) \<and> rd \<noteq> 0")
      case True
      then obtain rd v where w: "writeback y = Some (rd, v)" "rd \<noteq> 0" by blast
      then have "op_rd_index x = Some rd" using a y_def by (auto simp: writeback_def split: option.splits)
      then have "sources_in (- {rd}) e" using u(2) a x(3) w(2) by (auto simp: load_free_def)
      from forward_not_source [OF this, of y] w show ?thesis by simp
    next
      case False
      have "sources_in UNIV e" by (simp add: sources_in_def)
      from forward_not_source [OF this, of y] False show ?thesis by blast
    qed
    moreover have "decode u (wbk (Some y) (isa_regs G)) = Inr (forward_opt (Some y) e)"
      by (rule forward_decode) (use fetched_atD [OF u(1)] G d in \<open>auto simp: regs_wf_def\<close>)
    ultimately show ?thesis using H by (simp add: forward_opt_def)
  next
    case False
    then have "y = x" unfolding y_def loaded_def
      by (cases acc) (auto split: option.splits simp: flat_value_def split: MemoryAccess.splits)
    with H u(3) show ?thesis by simp
  qed
  then have "exe_ready lo hi img (isa_regs H) None pc exe nxt"
    if "exe_ready lo hi img (wbk (Some x) (isa_regs G)) (Some x) pc exe nxt" for exe nxt
    using that by (fastforce simp: exe_ready_def load_free_def split: option.splits)
  with r show ?thesis unfolding ready_def by blast
qed

text \<open>
  A bubble passes through MEM; an operation leaves for WB, or stays with a transaction under way.
\<close>

definition mem_result :: "'rp PipelineProcessor \<Rightarrow> 'rp PipelineProcessor \<Rightarrow> bool" where
  "mem_result p p' \<longleftrightarrow>
     p_icache p' = p_icache p \<and> p_l2_cache p' = p_l2_cache p \<and> p_exe_op p' = p_exe_op p \<and>
     p_int_mul_div_stall_countdown p' = p_int_mul_div_stall_countdown p \<and>
     (if retires (p_mem_op p) = 0 then p_mem_op p' = None \<and> p_dcache p' = p_dcache p
      else retires (p_wb_op p') = 1 \<or>
        p_mem_op p' = p_mem_op p \<and> p_mem_transaction p' \<noteq> MtIdle \<and>
        (p_mem_transaction p \<noteq> MtIdle \<longrightarrow> p_dcache p' = p_dcache p \<and> caller (p_dcache p') \<noteq> None))"

lemma bubble_access: "op_inst x = op_inst placeholder_nop \<Longrightarrow> memory_access x = Inr None"
  by (simp add: memory_access_def placeholder_nop_def generate_nop_def PreDecodeMicroOp_default_def)

context processor
begin

lemma mem_ok:
  assumes y: "psys lo hi img (isa_mem G) dr ir p m h" and l: "mem_link dr (p_mem_transaction p) (p_mem_op p)"
    and w: "after_wb lo hi img G H p"
  shows "\<exists>p' h' dr' N1. pipe_stage_mem R mtry p m h = Inr (p', m, h') \<and> after_mem lo hi img G N1 H p' \<and>
    psys lo hi img (isa_mem N1) dr' ir p' m h' \<and> mem_link dr' (p_mem_transaction p') (p_mem_op p') \<and> mem_result p p' \<and>
    p_if_fsm p' = p_if_fsm p \<and> p_id_op p' = p_id_op p \<and> p_if_pc p' = p_if_pc p \<and> p_hpm p' = p_hpm p \<and> p_halt p' = p_halt p"
proof (cases "p_mem_op p")
  case None
  with w have "after_mem lo hi img G G H p" by (auto simp: after_wb_def after_mem_def wb_stage_def mem_stage_def)
  moreover have "mem_result p p" using None by (simp add: mem_result_def retires_def)
  ultimately show ?thesis using None y l by (auto simp: pipe_stage_mem_def)
next
  case (Some x)
  have a: "isa_regs G = p_id_regs p" "regs_wf (isa_regs G)" "keeps_code {lo..<hi} img (isa_mem G)" "p_wb_op p = None"
    "mem_stage lo hi (p_mem_op p) G H" "predictor_ok lo hi (p_branch_predictor p)" "\<not> p_branch_recover p"
    "ready lo hi img (wbk (p_mem_op p) (isa_regs G)) (p_mem_op p) (isa_pc H) p"
    using w by (auto simp: after_wb_def)
  have x: "stands_for lo hi x G H" "applies lo hi x G H" using a(5) Some by (auto simp: mem_stage_def)
  obtain acc where acc: "memory_access x = Inr acc" using x(2) by (auto simp: applies_def split: sum.splits)
  have len: "length (isa_mem G) = length img" using a(3) by (simp add: keeps_code_def)
  have ok: "access_ok 4 (length img) q \<and> (ma_is_load q \<or> unat (ma_addr q) + ma_len q \<le> lo \<or> hi \<le> unat (ma_addr q))"
    if "acc = Some q" for q using x(2) acc that len by (auto simp: applies_def)
  from mem_stage_ok [OF y l [unfolded Some] Some a(4) acc ok len] obtain p' h' dr' B' t dc where
    s: "pipe_stage_mem R mtry p m h = Inr (p', m, h')" "psys lo hi img B' dr' ir p' m h'" "mem_link dr' t (p_mem_op p')"
    and c: "p' = p\<lparr>p_mem_transaction := t, p_dcache := dc\<rparr> \<and> B' = isa_mem G \<and> acc \<noteq> None \<and>
       t \<noteq> MtIdle \<and> (p_mem_transaction p = MtIdle \<or> dc = p_dcache p \<and> caller dc \<noteq> None) \<or>
     p' = p\<lparr>p_mem_transaction := t, p_dcache := dc, p_mem_op := None,
            p_wb_op := Some (case acc of None \<Rightarrow> x | Some a \<Rightarrow> loaded a (isa_mem G) x)\<rparr> \<and> t = MtIdle \<and>
       (acc = None \<longrightarrow> dc = p_dcache p) \<and>
       B' = (case acc of None \<Rightarrow> isa_mem G | Some a \<Rightarrow> flat_store a (isa_mem G))" by blast
  have bubble: "retires (Some x) = 0 \<Longrightarrow> acc = None"
    using x(1) acc bubble_access [of x] by (auto simp: stands_for_def retires_def split: if_splits)
  from c show ?thesis
  proof (rule disjE; elim conjE)
    assume p: "p' = p\<lparr>p_mem_transaction := t, p_dcache := dc\<rparr>" "B' = isa_mem G" "acc \<noteq> None"
      and t: "t \<noteq> MtIdle" "p_mem_transaction p = MtIdle \<or> dc = p_dcache p \<and> caller dc \<noteq> None"
    have "mem_result p p'" using p(1,3) t bubble Some by (auto simp: mem_result_def)
    have "writeback x = None" using x(2) acc p(3) by (auto simp: applies_def)
    then have "after_mem lo hi img G G H p'"
      using a Some p(1) by (simp add: after_mem_def wb_stage_def ready_def wbk_def)
    with \<open>mem_result p p'\<close> s p show ?thesis by (intro exI [of _ p'] exI [of _ h'] exI [of _ dr'] exI [of _ G]) simp
  next
    assume p: "p' = p\<lparr>p_mem_transaction := t, p_dcache := dc, p_mem_op := None,
            p_wb_op := Some (case acc of None \<Rightarrow> x | Some a \<Rightarrow> loaded a (isa_mem G) x)\<rparr>"
      "B' = (case acc of None \<Rightarrow> isa_mem G | Some a \<Rightarrow> flat_store a (isa_mem G))" "acc = None \<longrightarrow> dc = p_dcache p"
    have "mem_result p p'"
      using p(1,3) bubble Some by (auto simp: mem_result_def retires_def split: option.splits)
    have r: "ready lo hi img (isa_regs H) None (isa_pc H) p"
      using ready_after_load [OF _ a(2) x acc] a(8) Some by simp
    have "after_mem lo hi img G H H p'"
      using a p(1) r mem_leaves(1) [OF x acc] by (simp add: after_mem_def mem_stage_def ready_def)
    with \<open>mem_result p p'\<close> s p mem_leaves(2) [OF x acc] show ?thesis
      by (intro exI [of _ p'] exI [of _ h'] exI [of _ dr'] exI [of _ H]) simp
  qed
qed

end

end
