(* ===== verification/Pipeline_Front.thy ===== *)
theory Pipeline_Front
  imports Pipeline_Refines
begin

text \<open>
  The stages from EXE back to IF against the reference machine: execution and branch resolution, the
  load-use check, decode, fetch and bubble insertion.
\<close>

subsection \<open>Execute\<close>

definition after_exe :: "nat \<Rightarrow> nat \<Rightarrow> u8 list \<Rightarrow> Arch \<Rightarrow> Arch \<Rightarrow> Arch \<Rightarrow> 'rp PipelineProcessor \<Rightarrow> bool" where
  "after_exe lo hi img N G H p \<longleftrightarrow>
     p_id_regs p = isa_regs N \<and> regs_wf (isa_regs N) \<and> keeps_code {lo..<hi} img (isa_mem N) \<and>
     wb_stage lo hi (p_wb_op p) N G \<and> mem_stage lo hi (p_mem_op p) G H \<and>
     predictor_ok lo hi (p_branch_predictor p) \<and>
     (\<exists>pc. front lo hi img (isa_regs N) (p_wb_op p) (p_mem_op p) pc p \<and>
        (if p_branch_recover p
         then retires (p_mem_op p) = 1 \<and> p_branch_flushes p = 3 \<and> p_branch_destination p = isa_pc H
         else pc = isa_pc H))"

lemma after_exe_pipe_inv: "after_exe lo hi img N G H p \<Longrightarrow> pipe_inv lo hi img N G H p"
  by (auto simp: after_exe_def pipe_inv_def)

text \<open>What EXE does not touch.\<close>

definition same_rest :: "'rp PipelineProcessor \<Rightarrow> 'rp PipelineProcessor \<Rightarrow> bool" where
  "same_rest p p' \<longleftrightarrow>
     p_wb_op p' = p_wb_op p \<and> p_mem_transaction p' = p_mem_transaction p \<and> p_icache p' = p_icache p \<and>
     p_dcache p' = p_dcache p \<and> p_l2_cache p' = p_l2_cache p \<and> p_if_fsm p' = p_if_fsm p \<and>
     p_id_op p' = p_id_op p \<and> p_if_pc p' = p_if_pc p \<and> p_halt p' = p_halt p \<and>
     p_id_regs p' = p_id_regs p \<and> p_branch_predictor p' = p_branch_predictor p \<and>
     inst_retire (p_hpm p') = inst_retire (p_hpm p)"

lemma no_writeback:
  "writeback x = None \<Longrightarrow> wbk (Some x) rs = rs" "writeback x = None \<Longrightarrow> forward_opt (Some x) e = e"
  by (simp_all add: wbk_def forward_opt_def forward_from_def)

lemma after_mem_front:
  assumes "after_mem lo hi img N G H p"
  shows "front lo hi img (isa_regs N) (p_wb_op p) (p_mem_op p) (isa_pc H) p"
proof -
  note a = assms [unfolded after_mem_def]
  have "exe_stage lo hi img (isa_regs N) (p_wb_op p) (p_mem_op p) (isa_pc H) exe nxt"
    if r: "exe_ready lo hi img (isa_regs G) (p_mem_op p) (isa_pc H) exe nxt" for exe nxt
  proof -
    have "decode u (wbk (p_mem_op p) (wbk (p_wb_op p) (isa_regs N))) =
        Inr (forward_opt (p_mem_op p) (forward_opt (p_wb_op p) e))"
      if u: "fetched_at img (isa_pc H) u" "decode u (isa_regs G) = Inr e" for u e
    proof (cases "p_mem_op p")
      case None
      have G: "wbk (p_wb_op p) (isa_regs N) = isa_regs G" using a by (auto simp: wb_stage_def split: option.splits)
      then have "wbk (p_wb_op p) (isa_regs G) = isa_regs G" using wbk_idem [of "p_wb_op p" "isa_regs N"] by simp
      moreover have "length (isa_regs G) = 32" using a G length_wbk by (metis regs_wf_def)
      ultimately show ?thesis
        using forward_decode [OF fetched_atD(2,5,6) [OF u(1)] _ u(2), of "p_wb_op p"] G None by simp
    next
      case (Some x)
      with a have "writeback x = None" "G = N" "p_wb_op p = None" by auto
      with Some u(2) show ?thesis by (simp add: no_writeback)
    qed
    with r show ?thesis by (fastforce simp: exe_ready_def exe_stage_def split: option.splits)
  qed
  then show ?thesis using a unfolding ready_def front_def by blast
qed

lemma placeholder_executes:
  "op_placeholder placeholder_nop" "\<not> is_ecall (op_inst placeholder_nop)" "m_extension_stall (op_inst placeholder_nop) = None"
  "alu_operands placeholder_nop = Inr (0, 0)" "branch_resolution_inputs (executed placeholder_nop 0 0) = Inr None"
  "stands_for lo hi (executed placeholder_nop 0 0) A A" "applies lo hi (executed placeholder_nop 0 0) A A"
  by (simp_all add: placeholder_nop_def generate_nop_def PreDecodeMicroOp_default_def alu_operands_def
      branch_resolution_inputs_def stands_for_def rd_ok_def applies_def memory_access_def wbk_def writeback_def Let_def)

text \<open>The operation that leaves EXE.\<close>

lemma exe_leaves:
  assumes u: "fetched_at img (isa_pc H) u" "decode u (isa_regs H) = Inr e"
    and H: "isa_step lo hi H = Some H'" "regs_wf (isa_regs H)" "keeps_code {lo..<hi} img (isa_mem H)" "code_ok lo hi img"
  shows "is_ecall (op_inst e) \<Longrightarrow> mem_stage lo hi (Some e) H H' \<and> predicted_pc u = isa_pc H'"
    "\<not> is_ecall (op_inst e) \<Longrightarrow> \<exists>a b. alu_operands e = Inr (a, b) \<and> mem_stage lo hi (Some (executed e a b)) H H' \<and>
       resolves (executed e a b) (isa_pc H') \<and> predicted_pc (executed e a b) = predicted_pc u"
proof -
  from isa_stepD [OF H(1)] obtain i where i: "in_code lo hi 2 (isa_pc H)" "isa_inst H = Inr i" "isa_exec lo hi i H = Some H'" .
  have "isa_inst H = Inr (op_inst u)"
    by (rule fetched_inst [OF u(1) in_code_mono [OF i(1)] H(4,3)]) simp
  with i have ex: "isa_exec lo hi (op_inst u) H = Some H'" and inst: "isa_inst H = Inr (op_inst u)" by simp_all
  note k = decode_keeps [OF u(2)]
  have rd: "rd_ok e" using decode_rd_index_less [OF u(2) fetched_atD(7) [OF u(1)]] by (simp add: rd_ok_def)
  have ec: "is_ecall (op_inst u) \<longleftrightarrow> (\<exists>i. op_inst u = Ecall i)" by (cases "op_inst u") auto
  have st: "stands_for lo hi x H H'"
    if "op_inst x = op_inst e" "op_placeholder x = op_placeholder e" "op_rd_index x = op_rd_index e" for x
    using that rd H(1) k fetched_atD(11) [OF u(1)] inst ec by (auto simp: stands_for_def rd_ok_def)
  show "mem_stage lo hi (Some e) H H' \<and> predicted_pc u = isa_pc H'" if "is_ecall (op_inst e)"
  proof -
    have c: "is_ecall (op_inst u)" using that k(1) by simp
    have "e = u" using ecall_correct(1) [OF u(1) c ex] u(2) by simp
    with ecall_correct(2,3) [OF u(1) c ex] st [of e] show ?thesis by (simp add: mem_stage_def)
  qed
  show "\<exists>a b. alu_operands e = Inr (a, b) \<and> mem_stage lo hi (Some (executed e a b)) H H' \<and>
       resolves (executed e a b) (isa_pc H') \<and> predicted_pc (executed e a b) = predicted_pc u"
    if "\<not> is_ecall (op_inst e)"
  proof -
    from executed_correct [OF u H(2) ex] that k(1) obtain a b where
      x: "alu_operands e = Inr (a, b)" "applies lo hi (executed e a b) H H'" "resolves (executed e a b) (isa_pc H')" by auto
    then show ?thesis using st [of "executed e a b"] k(2,4) by (auto simp: mem_stage_def predicted_pc_def split: option.splits)
  qed
qed

text \<open>Branch resolution: either fetch went the right way, or a recovery is requested.\<close>

lemma resolve_branch_ok:
  assumes "resolves x pc'" "\<not> p_branch_recover p"
  shows "\<exists>inputs p'. branch_resolution_inputs x = Inr inputs \<and> resolve_branch inputs p = Inr p' \<and> same_rest p p' \<and>
    p_exe_op p' = p_exe_op p \<and>
    (if p_branch_recover p' then p_branch_flushes p' = 3 \<and> p_branch_destination p' = pc' else predicted_pc x = pc')"
proof -
  from assms(1) obtain inputs where i: "branch_resolution_inputs x = Inr inputs"
    by (auto simp: resolves_def split: sum.splits)
  show ?thesis
  proof (cases inputs)
    case None
    with i assms show ?thesis by (auto simp: resolves_def resolve_branch_def same_rest_def)
  next
    case (Some br)
    with i assms(1) obtain t where t: "branch_taken (br_inst br) (br_rs1 br) (br_rs2 br) = Some t"
      "recovery_destination br t = pc'" "\<not> needs_recovery br t \<longrightarrow> predicted_pc x = pc'"
      by (auto simp: resolves_def split: option.splits)
    with i Some assms(2) show ?thesis
      by (auto simp: resolve_branch_def same_rest_def Let_def solve_branch_def)
  qed
qed

lemma front_moved:
  assumes "exe_ready lo hi img rs mem pc (Some e) nxt" "id_stage lo hi img nxt (p_id_op p) (p_if_pc p)" "p_exe_op p' = None"
    "p_id_op p' = p_id_op p" "p_if_pc p' = p_if_pc p"
  shows "front lo hi img rs' wb' mem' nxt p'"
  using assms by (simp add: front_def exe_stage_def)

lemma exe_ok:
  assumes m: "after_mem lo hi img N G H p" and H: "isa_step lo hi H = Some H1" and c: "code_ok lo hi img"
  shows "\<exists>p' H'. pipe_stage_exe p = Inr p' \<and> after_exe lo hi img N G H' p' \<and> same_rest p p' \<and>
    (H' = H \<or> H' = H1) \<and> (p_mem_op p' = p_mem_op p \<or> p_mem_op p = None)"
proof -
  define q where "q = p\<lparr>p_int_mul_div_stall_countdown := countdown_step (p_int_mul_div_stall_countdown p)\<rparr>"
  note a = m [unfolded after_mem_def]
  have stay: "after_exe lo hi img N G H (p\<lparr>p_int_mul_div_stall_countdown := n\<rparr>)"
    "same_rest p (p\<lparr>p_int_mul_div_stall_countdown := n\<rparr>)" for n
    using a after_mem_front [OF m] by (auto simp: after_exe_def front_def same_rest_def)
  show ?thesis
  proof (cases "p_mem_op p \<noteq> None \<or> p_exe_op p = None")
    case True
    then have "pipe_stage_exe p = Inr q" by (auto simp: pipe_stage_exe_def q_def Let_def split: option.splits)
    with stay show ?thesis unfolding q_def by fastforce
  next
    case False
    then obtain e where e: "p_mem_op p = None" "p_exe_op p = Some e" by auto
    have HG: "H = G" using a e(1) by (simp add: mem_stage_def)
    from a e obtain nxt where r: "exe_ready lo hi img (isa_regs H) None (isa_pc H) (Some e) nxt"
      "id_stage lo hi img nxt (p_id_op p) (p_if_pc p)" using HG by (auto simp: ready_def)
    have hi: "hi \<le> length img" using c by (simp add: code_ok_def)
    have k: "regs_wf (isa_regs H)" "keeps_code {lo..<hi} img (isa_mem H)"
      using wb_stage_keeps [of lo hi "p_wb_op p" N G img] a hi HG by auto
    have moved: "after_exe lo hi img N G H' p'"
      if "same_rest p p'" "p_exe_op p' = None" "p_mem_op p' = Some x" "mem_stage lo hi (Some x) H H'"
        "if p_branch_recover p' then \<not> op_placeholder x \<and> p_branch_flushes p' = 3 \<and> p_branch_destination p' = isa_pc H'
         else nxt = isa_pc H'"
      for p' x H'
      using that a HG front_moved [OF r that(2)]
      by (auto simp: after_exe_def same_rest_def retires_def intro!: exI [of _ nxt])
    from r(1) consider (bubble) "e = placeholder_nop" "nxt = isa_pc H" |
      (op) u where "fetched_at img (isa_pc H) u" "nxt = predicted_pc u" "decode u (isa_regs H) = Inr e"
      by (auto simp: exe_ready_def)
    then show ?thesis
    proof cases
      case bubble
      let ?p = "q\<lparr>p_mem_op := Some (executed placeholder_nop 0 0), p_exe_op := None\<rparr>"
      have "pipe_stage_exe p = Inr ?p"
        using e bubble(1) placeholder_executes by (simp add: pipe_stage_exe_def q_def Let_def resolve_branch_def)
      moreover have "after_exe lo hi img N G H ?p"
        by (rule moved) (use placeholder_executes(6,7) bubble(2) a in \<open>auto simp: q_def same_rest_def mem_stage_def\<close>)
      ultimately show ?thesis using e by (auto simp: q_def same_rest_def)
    next
      case (op u)
      note x = exe_leaves [OF op(1,3) H k c]
      consider (ecall) "is_ecall (op_inst e)" |
        (stall) "\<not> is_ecall (op_inst e)" "m_extension_stall (op_inst e) \<noteq> None" "p_int_mul_div_stall_countdown q = None" |
        (go) "\<not> is_ecall (op_inst e)" "\<not> (m_extension_stall (op_inst e) \<noteq> None \<and> p_int_mul_div_stall_countdown q = None)"
        by argo
      then show ?thesis
      proof cases
        case ecall
        let ?p = "q\<lparr>p_mem_op := Some e, p_exe_op := None\<rparr>"
        have "pipe_stage_exe p = Inr ?p" using e ecall by (simp add: pipe_stage_exe_def q_def Let_def)
        moreover have "after_exe lo hi img N G H1 ?p"
          by (rule moved) (use x(1) [OF ecall] op(2) a in \<open>auto simp: q_def same_rest_def\<close>)
        ultimately show ?thesis using e by (auto simp: q_def same_rest_def)
      next
        case stall
        then have "pipe_stage_exe p = Inr (q\<lparr>p_int_mul_div_stall_countdown := m_extension_stall (op_inst e)\<rparr>)"
          using e by (simp add: pipe_stage_exe_def q_def Let_def)
        with stay show ?thesis unfolding q_def by fastforce
      next
        case go
        from x(2) [OF go(1)] obtain v w where vw: "alu_operands e = Inr (v, w)"
          "mem_stage lo hi (Some (executed e v w)) H H1" "resolves (executed e v w) (isa_pc H1)"
          "predicted_pc (executed e v w) = predicted_pc u" by blast
        define q1 where "q1 = (if m_extension_stall (op_inst e) \<noteq> None then q\<lparr>p_int_mul_div_stall_countdown := None\<rparr> else q)"
        have q1: "same_rest p q1" "\<not> p_branch_recover q1" using a by (auto simp: q1_def q_def same_rest_def)
        from resolve_branch_ok [OF vw(3) q1(2)] obtain inputs p2 where
          b: "branch_resolution_inputs (executed e v w) = Inr inputs" "resolve_branch inputs q1 = Inr p2" "same_rest q1 p2"
            "if p_branch_recover p2 then p_branch_flushes p2 = 3 \<and> p_branch_destination p2 = isa_pc H1
             else predicted_pc (executed e v w) = isa_pc H1" by blast
        let ?p = "p2\<lparr>p_mem_op := Some (executed e v w), p_exe_op := None\<rparr>"
        have s: "same_rest p ?p" using q1(1) b(3) by (simp add: same_rest_def)
        have "pipe_stage_exe p = Inr ?p"
          using e go vw(1) b(1,2)
          by (cases "m_extension_stall (op_inst e)") (auto simp: pipe_stage_exe_def q_def q1_def Let_def)
        moreover have "after_exe lo hi img N G H1 ?p"
          by (rule moved [OF s])
            (use vw(2,4) b(4) op(2) decode_keeps(5) [OF op(3)] fetched_atD(11) [OF op(1)] in auto)
        ultimately show ?thesis using e s by blast
      qed
    qed
  qed
qed

subsection \<open>Load-use check and decode\<close>

lemma load_use_total:
  assumes "mem_stage lo hi (p_mem_op p) G H" "id_stage lo hi img pc (p_id_op p) nxt"
  shows "\<exists>stall. pipe_load_use_hazard_handle p = Inr stall"
proof (cases "p_exe_op p = None \<and> p_id_op p \<noteq> None \<and> p_mem_op p \<noteq> None")
  case True
  then obtain u x where ux: "p_exe_op p = None" "p_id_op p = Some u" "p_mem_op p = Some x" by auto
  have f: "fetched_at img pc u" using assms(2) ux(2) by (simp add: id_stage_def)
  obtain acc where acc: "memory_access x = Inr acc"
    using assms(1) ux(3) by (auto simp: mem_stage_def applies_def split: sum.splits)
  from raw_binary_to_inst_word(2) [OF fetched_atD(1,2) [OF f]] obtain oc where
    "OpcodeMap_try_from (ucast (op_raw_inst u AND 0x7f)) = Some oc" using fetched_atD(4) [OF f] by (auto simp: opcode_of_def)
  with ux acc show ?thesis
    by (auto simp: pipe_load_use_hazard_handle_def op_is_load_def Let_def split: option.splits)
next
  case False
  then show ?thesis by (auto simp: pipe_load_use_hazard_handle_def split: option.splits)
qed

lemma sources_in_mono: "sources_in S e \<Longrightarrow> S \<subseteq> T \<Longrightarrow> sources_in T e"
  unfolding sources_in_def by blast

lemma load_use_clear:
  assumes "pipe_load_use_hazard_handle p = Inr False" "p_exe_op p = None" "p_id_op p = Some u"
    and u: "fetched_at img pc u" "decode u rs = Inr e"
  shows "load_free (p_mem_op p) e"
  unfolding load_free_def
proof (intro allI impI)
  fix x a rd
  assume x: "p_mem_op p = Some x" "memory_access x = Inr (Some a)" "ma_is_load a" "op_rd_index x = Some rd"
  note f = fetched_atD [OF u(1)]
  from raw_binary_to_inst_word(2) [OF f(1,2)] f(4) obtain oc where
    oc: "OpcodeMap_try_from (ucast (op_raw_inst u AND 0x7f)) = Some oc" "reads_registers oc \<longleftrightarrow> reads (op_inst u)"
    by (auto simp: opcode_of_def)
  have s: "sources_in (if reads (op_inst u) then {raw_rs1 (op_raw_inst u), raw_rs2 (op_raw_inst u)} else {}) e"
    using decode_sources [OF u(2) f(5,6,2)] unfolding f(4,13) .
  show "rd = 0 \<or> sources_in (- {rd}) e"
  proof (cases "rd = 0 \<or> \<not> reads (op_inst u)")
    case True
    with sources_in_mono [OF s, of "- {rd}"] show ?thesis by auto
  next
    case False
    with assms(1-3) x oc have "raw_rs1 (op_raw_inst u) \<noteq> rd" "raw_rs2 (op_raw_inst u) \<noteq> rd"
      by (auto simp: pipe_load_use_hazard_handle_def op_is_load_def destination_register_def raw_rs1_def raw_rs2_def Let_def)
    with sources_in_mono [OF s, of "- {rd}"] show ?thesis by auto
  qed
qed

lemma decode_ok:
  assumes "after_exe lo hi img N G H p"
  shows "\<exists>stall p' i e. pipe_load_use_hazard_handle p = Inr stall \<and> pipe_stage_decode stall p = Inr p' \<and>
    after_exe lo hi img N G H p' \<and> (stall \<longrightarrow> p_exe_op p' = None) \<and> p' = p\<lparr>p_id_op := i, p_exe_op := e\<rparr> \<and>
    (i = p_id_op p \<or> i = None)"
proof -
  note a = assms [unfolded after_exe_def]
  from a obtain pc nxt where f: "exe_stage lo hi img (isa_regs N) (p_wb_op p) (p_mem_op p) pc (p_exe_op p) nxt"
    "id_stage lo hi img nxt (p_id_op p) (p_if_pc p)"
    "if p_branch_recover p then retires (p_mem_op p) = 1 \<and> p_branch_flushes p = 3 \<and> p_branch_destination p = isa_pc H
     else pc = isa_pc H" by (auto simp: front_def)
  from load_use_total [OF _ f(2)] a obtain stall where stall: "pipe_load_use_hazard_handle p = Inr stall" by blast
  have ex: "stall \<longrightarrow> p_exe_op p = None"
    using stall by (auto simp: pipe_load_use_hazard_handle_def split: option.splits)
  show ?thesis
  proof (cases "p_exe_op p = None \<and> \<not> stall \<and> p_id_op p \<noteq> None")
    case True
    then obtain u where u: "p_exe_op p = None" "\<not> stall" "p_id_op p = Some u" by auto
    have pc: "nxt = pc" "fetched_at img pc u" "steers lo hi u" "p_if_pc p = predicted_pc u"
      using f(1,2) u by (simp_all add: exe_stage_def id_stage_def)
    note fd = fetched_atD [OF pc(2)]
    from decode_legal [OF fd(2)] obtain e where e: "decode u (isa_regs N) = Inr e" by blast
    have len: "length (isa_regs N) = 32" using a by (simp add: regs_wf_def)
    note d1 = forward_decode [OF fd(2,5,6) len e, of "p_wb_op p"]
    have d: "decode u (wbk (p_mem_op p) (wbk (p_wb_op p) (isa_regs N))) =
        Inr (forward_opt (p_mem_op p) (forward_opt (p_wb_op p) e))"
      by (rule forward_decode [OF fd(2,5,6) _ d1]) (use len in simp)
    have lf: "load_free (p_mem_op p) e"
      using load_use_clear [OF _ u(1,3) pc(2) e] stall u(2) by simp
    let ?p = "p\<lparr>p_id_op := None, p_exe_op := Some e\<rparr>"
    have "front lo hi img (isa_regs N) (p_wb_op p) (p_mem_op p) pc ?p"
      using pc d lf by (auto simp: front_def exe_stage_def id_stage_def)
    then have "after_exe lo hi img N G H ?p" using a f(3) by (auto simp: after_exe_def)
    moreover have "pipe_stage_decode stall p = Inr ?p"
      using u e a by (simp add: pipe_stage_decode_def)
    ultimately show ?thesis using stall u(2) by blast
  next
    case False
    then have "pipe_stage_decode stall p = Inr p" by (auto simp: pipe_stage_decode_def split: option.splits)
    moreover have "p = p\<lparr>p_id_op := p_id_op p, p_exe_op := p_exe_op p\<rparr>" by simp
    ultimately show ?thesis using stall ex assms by blast
  qed
qed

subsection \<open>Fetch and bubbles\<close>

lemma front_in_code:
  assumes "front lo hi img rs wb mem pc p" "in_code lo hi 2 pc" "hi \<le> 2 ^ 32"
  shows "in_code lo hi 0 (p_if_pc p)"
proof -
  from assms(1) obtain nxt where f: "exe_stage lo hi img rs wb mem pc (p_exe_op p) nxt"
    "id_stage lo hi img nxt (p_id_op p) (p_if_pc p)" by (auto simp: front_def)
  have "in_code lo hi (Suc 1) pc" using assms(2) by (simp add: numeral_2_eq_2)
  then have "in_code lo hi (Suc 0) nxt"
    using f(1) predicted_in_code [of img pc _ lo hi 1] in_code_mono [OF assms(2)] assms(3)
    by (auto simp: exe_stage_def split: option.splits)
  then show ?thesis
    using f(2) predicted_in_code [of img nxt _ lo hi 0] in_code_mono [of lo hi 1 nxt 0] assms(3)
    by (auto simp: id_stage_def split: option.splits)
qed

lemma after_exe_fetched:
  assumes a: "after_exe lo hi img N G H p" and "p_id_op p = None" "fetched_at img (p_if_pc p) u" "steers lo hi u"
  shows "after_exe lo hi img N G H (p\<lparr>p_icache := ic, p_if_fsm := f, p_if_raw_inst_buffer := b, p_hpm := st,
    p_if_pc := predicted_pc u, p_id_op := Some u\<rparr>)"
  using assms unfolding after_exe_def front_def by (auto simp: id_stage_def)

lemma after_exe_waiting:
  "after_exe lo hi img N G H (p\<lparr>p_icache := ic, p_if_fsm := f, p_if_raw_inst_buffer := b\<rparr>) = after_exe lo hi img N G H p"
  by (simp add: after_exe_def front_def)

lemma bubble_ok:
  assumes "after_exe lo hi img N G H p" "stall \<longrightarrow> p_exe_op p = None"
  shows "\<exists>e. insert_bubble stall p = Inr (p\<lparr>p_exe_op := e\<rparr>) \<and> after_exe lo hi img N G H (p\<lparr>p_exe_op := e\<rparr>)"
proof (cases stall)
  case True
  then have "after_exe lo hi img N G H (p\<lparr>p_exe_op := Some placeholder_nop\<rparr>)"
    using assms unfolding after_exe_def front_def by (auto simp: exe_stage_def)
  with True assms(2) show ?thesis by (auto simp: insert_bubble_def)
next
  case False
  with assms(1) show ?thesis by (intro exI [of _ "p_exe_op p"]) (simp add: insert_bubble_def)
qed

lemma mem_link_empty: "mem_link dr t None \<Longrightarrow> mem_link dr t x"
  by (auto simp: mem_link_def split: MemoryTransaction.splits)

lemma fetch_link_cong:
  "p_if_fsm p' = p_if_fsm p \<Longrightarrow> p_id_op p' = p_id_op p \<Longrightarrow> p_if_pc p' = p_if_pc p \<Longrightarrow>
   fetch_link ir p' = fetch_link ir p"
  by (simp add: fetch_link_def split: PipelineMemoryFSM.split)

lemma pipe_inv_caches:
  "pipe_inv lo hi img N G H (p\<lparr>p_icache := ic, p_dcache := dc, p_l2_cache := c2\<rparr>) \<longleftrightarrow> pipe_inv lo hi img N G H p"
  by (simp add: pipe_inv_def front_def)

subsection \<open>What moves\<close>

text \<open>
  Where the operations go in EXE and ID: with MEM free, EXE sends its operation on, or counts a
  multiplication or division first; ID sends its operation on unless EXE is taken or a load is ahead.
\<close>

definition exe_result :: "'rp PipelineProcessor \<Rightarrow> 'rp PipelineProcessor \<Rightarrow> bool" where
  "exe_result p p' \<longleftrightarrow>
     (if p_mem_op p \<noteq> None then p_mem_op p' = p_mem_op p \<and> p_exe_op p' = p_exe_op p \<and> \<not> p_branch_recover p'
      else if retires (p_exe_op p) = 0 then retires (p_mem_op p') = 0 \<and> p_exe_op p' = None \<and> \<not> p_branch_recover p'
      else retires (p_mem_op p') = 1 \<or>
        p_exe_op p' = p_exe_op p \<and> p_int_mul_div_stall_countdown p = None \<and> p_int_mul_div_stall_countdown p' \<noteq> None)"

lemma countdown_step_None [simp]: "countdown_step c = None \<longleftrightarrow> c = None"
  by (simp add: countdown_step_def)

lemma retires_bubble [simp]: "retires (Some (executed placeholder_nop a b)) = 0"
  by (simp add: retires_def placeholder_executes(1))

lemma exe_moves:
  assumes "pipe_stage_exe p = Inr p'" "after_mem lo hi img N G H p"
  shows "exe_result p p'"
proof -
  have nr: "\<not> p_branch_recover p" using assms(2) by (simp add: after_mem_def)
  have b: "e = placeholder_nop" if "p_exe_op p = Some e" "op_placeholder e" for e
    using assms(2) that fetched_atD(11) decode_keeps(5)
    by (fastforce simp: after_mem_def ready_def exe_ready_def)
  show ?thesis
  proof (cases "p_mem_op p = None \<and> retires (p_exe_op p) = 0")
    case True
    then have "p_exe_op p = None \<or> p_exe_op p = Some placeholder_nop"
      using b by (auto simp: retires_def split: option.splits if_splits)
    with True assms(1) nr placeholder_executes show ?thesis
      by (auto simp: exe_result_def pipe_stage_exe_def Let_def resolve_branch_def retires_def)
  next
    case False
    with assms(1) nr show ?thesis
      by (auto simp: exe_result_def pipe_stage_exe_def Let_def retires_def bindR_eq_Inr split: option.splits if_splits)
  qed
qed

lemma load_ahead:
  assumes "pipe_load_use_hazard_handle p = Inr True" "mem_stage lo hi (p_mem_op p) G H"
  shows "p_exe_op p = None \<and> retires (p_mem_op p) = 1"
proof -
  from assms(1) obtain x where x: "p_exe_op p = None" "p_mem_op p = Some x" "op_is_load x = Inr True"
    by (auto simp: pipe_load_use_hazard_handle_def bindR_eq_Inr split: option.splits if_splits)
  then have "\<not> op_placeholder x"
    using assms(2) bubble_access [of x] by (auto simp: mem_stage_def stands_for_def op_is_load_def)
  with x show ?thesis by (simp add: retires_def)
qed

lemma decode_moves:
  assumes "pipe_stage_decode stall p = Inr p'" "after_exe lo hi img N G H p"
  shows "if p_exe_op p = None \<and> p_id_op p \<noteq> None \<and> \<not> stall
    then \<exists>e. p' = p\<lparr>p_id_op := None, p_exe_op := Some e\<rparr> \<and> \<not> op_placeholder e else p' = p"
proof -
  have "\<not> op_placeholder u" if "p_id_op p = Some u" for u
    using assms(2) that fetched_atD(11) by (fastforce simp: after_exe_def front_def id_stage_def)
  with assms(1) show ?thesis
    by (auto simp: pipe_stage_decode_def decode_keeps(5) split: option.splits sum.splits if_splits)
qed

end
