(* ===== verification/Pipeline_Cycle.thy ===== *)
theory Pipeline_Cycle
  imports Pipeline_Front
begin

text \<open>
  A whole clock cycle of the processor against the reference machine.
\<close>

subsection \<open>One cycle\<close>

text \<open>The processor, its caches and its main memory are clocked once.\<close>

definition cpu_cycle ::
  "'rp rp_ops \<Rightarrow> 'm lower \<Rightarrow> ('m \<Rightarrow> cells \<Rightarrow> ('m \<times> cells) res) \<Rightarrow> 'rp PipelineProcessor \<Rightarrow> 'm \<Rightarrow> cells \<Rightarrow>
   ('rp PipelineProcessor \<times> 'm \<times> cells) res" where
  "cpu_cycle R mtry mtick p m h =
     bindR (pipe_tick R mtry p m h) (\<lambda>(p1, m1, h1). bindR (mtick m1 h1) (\<lambda>(m2, h2). Inr (p1, m2, h2)))"

text \<open>Where recovery, forwarding, WB and MEM leave the operations and the caches.\<close>

definition back_result :: "'rp PipelineProcessor \<Rightarrow> 'rp PipelineProcessor \<Rightarrow> bool" where
  "back_result p p' \<longleftrightarrow>
     p_icache p' = p_icache p \<and> p_l2_cache p' = p_l2_cache p \<and>
     (\<not> p_branch_recover p \<longrightarrow>
        p_if_fsm p' = p_if_fsm p \<and> p_id_op p' = p_id_op p \<and> retires (p_exe_op p') = retires (p_exe_op p) \<and>
        p_int_mul_div_stall_countdown p' = p_int_mul_div_stall_countdown p) \<and>
     (if retires (p_mem_op p) = 0 then p_mem_op p' = None \<and> p_dcache p' = p_dcache p
      else retires (p_wb_op p') = 1 \<or>
        p_mem_op p' = p_mem_op p \<and> p_mem_transaction p' \<noteq> MtIdle \<and>
        (p_mem_transaction p \<noteq> MtIdle \<longrightarrow> p_dcache p' = p_dcache p \<and> caller (p_dcache p') \<noteq> None))"

text \<open>
  How far the oldest operation is from retiring, and how much the front of the pipeline can still do
  while that operation waits.
\<close>

definition rank :: "'rp PipelineProcessor \<Rightarrow> nat" where
  "rank p =
     (if retires (p_wb_op p) = 1 then 0
      else if retires (p_mem_op p) = 1 then (if p_mem_transaction p \<noteq> MtIdle \<and> \<not> p_branch_recover p then 1 else 2)
      else if retires (p_exe_op p) = 1 then (if p_int_mul_div_stall_countdown p \<noteq> None then 3 else 4)
      else if p_id_op p \<noteq> None then 5 else 6)"

lemma rank_mem:
  "retires (p_wb_op p) = 0 \<Longrightarrow> retires (p_mem_op p) = 1 \<Longrightarrow>
   rank p = 1 \<and> p_mem_transaction p \<noteq> MtIdle \<and> \<not> p_branch_recover p \<or> rank p = 2"
  by (simp add: rank_def)

definition slack :: "'rp PipelineProcessor \<Rightarrow> nat" where
  "slack p = (if retires (p_exe_op p) = 1 then 0 else 3) + (if p_id_op p = None then 3 else 0) + phase (p_if_fsm p)"

text \<open>The oldest operation advances, or the front does, or both wait for a cache.\<close>

definition advances :: "'rp PipelineProcessor \<Rightarrow> 'rp PipelineProcessor \<Rightarrow> bool" where
  "advances p p' \<longleftrightarrow> rank p' < rank p \<or> rank p' = rank p \<and>
     (slack p' < slack p \<or>
      slack p' = slack p \<and> work (p_icache p') = work (p_icache p) \<and> p_dcache p' = p_dcache p \<and>
      p_l2_cache p' = p_l2_cache p \<and> (caller (p_icache p') \<noteq> None \<or> caller (p_dcache p') \<noteq> None))"

lemma retires_simps [simp]: "retires None = 0" "retires (Some x) = (if op_placeholder x then 0 else 1)"
  by (simp_all add: retires_def)

lemma retires_cases: "retires z = 0 \<or> retires z = 1"
  by (cases z) auto

lemma phase_le: "phase f \<le> 2"
  by (cases f) auto

lemma fetch_result_cases [consumes 1, case_names waits issues]:
  assumes "fetch_result lo hi img p p'"
  obtains ic fs bf where "p' = p\<lparr>p_icache := ic, p_if_fsm := fs, p_if_raw_inst_buffer := bf\<rparr>"
      "phase fs < phase (p_if_fsm p) \<or>
       fs = p_if_fsm p \<and> work ic = work (p_icache p) \<and> (p_id_op p = None \<longrightarrow> caller ic \<noteq> None)" |
    ic fs bf u where "p_id_op p = None" "p' = p\<lparr>p_icache := ic, p_if_fsm := fs, p_if_raw_inst_buffer := bf,
       p_hpm := inst_fetch (p_hpm p), p_if_pc := predicted_pc u, p_id_op := Some u\<rparr>"
proof -
  from assms show thesis unfolding fetch_result_def
  proof
    assume "\<exists>ic f b. p' = p\<lparr>p_icache := ic, p_if_fsm := f, p_if_raw_inst_buffer := b\<rparr> \<and>
        (phase f < phase (p_if_fsm p) \<or>
         f = p_if_fsm p \<and> work ic = work (p_icache p) \<and> (p_id_op p = None \<longrightarrow> caller ic \<noteq> None))"
    then show thesis by (elim exE conjE) (rule that(1))
  next
    assume "\<exists>ic f b u. p_id_op p = None \<and> fetched_at img (p_if_pc p) u \<and> steers lo hi u \<and>
        p' = p\<lparr>p_icache := ic, p_if_fsm := f, p_if_raw_inst_buffer := b, p_hpm := inst_fetch (p_hpm p),
               p_if_pc := predicted_pc u, p_id_op := Some u\<rparr>"
    then show thesis by (elim exE conjE) (rule that(2))
  qed
qed

text \<open>The front while MEM waits: no operation is lost, and the fetch stage works on.\<close>

lemma front_advances:
  assumes d: "if p_exe_op p4 = None \<and> p_id_op p4 \<noteq> None \<and> \<not> stall
      then \<exists>e. p5 = p4\<lparr>p_id_op := None, p_exe_op := Some e\<rparr> \<and> \<not> op_placeholder e else p5 = p4"
    and f: "fetch_result lo hi img p5 p6" and b: "insert_bubble stall p6 = Inr p'" and st: "stall \<longrightarrow> p_exe_op p4 = None"
  shows "slack p' < slack p4 \<or> slack p' = slack p4 \<and> work (p_icache p') = work (p_icache p4) \<and>
      (p_id_op p' = None \<longrightarrow> caller (p_icache p') \<noteq> None)"
    "p_wb_op p' = p_wb_op p4" "p_mem_op p' = p_mem_op p4" "p_mem_transaction p' = p_mem_transaction p4"
    "p_branch_recover p' = p_branch_recover p4" "p_int_mul_div_stall_countdown p' = p_int_mul_div_stall_countdown p4"
    "p_dcache p' = p_dcache p4" "p_l2_cache p' = p_l2_cache p4"
    "p_exe_op p4 \<noteq> None \<Longrightarrow> p_exe_op p' = p_exe_op p4"
    "p_id_op p4 \<noteq> None \<Longrightarrow> p_exe_op p4 = None \<Longrightarrow> \<not> stall \<Longrightarrow> retires (p_exe_op p') = 1"
    "p_id_op p4 = None \<Longrightarrow> \<not> stall \<Longrightarrow> p_exe_op p' = p_exe_op p4"
proof -
  have p': "p' = (if stall then p6\<lparr>p_exe_op := Some placeholder_nop\<rparr> else p6)" "stall \<longrightarrow> p_exe_op p6 = None"
    using b by (auto simp: insert_bubble_def bindR_eq_Inr assertR_eq_Inr split: if_splits)
  show "slack p' < slack p4 \<or> slack p' = slack p4 \<and> work (p_icache p') = work (p_icache p4) \<and>
      (p_id_op p' = None \<longrightarrow> caller (p_icache p') \<noteq> None)"
  proof (cases rule: fetch_result_cases [OF f, case_names waits issues])
    case (waits ic fs bf)
    then show ?thesis using d p' placeholder_executes(1) st
      by (cases "p_exe_op p4 = None \<and> p_id_op p4 \<noteq> None \<and> \<not> stall"; cases stall) (auto simp: slack_def)
  next
    case (issues ic fs bf u)
    then show ?thesis using d p' placeholder_executes(1) st phase_le [of fs]
      by (cases "p_exe_op p4 = None \<and> p_id_op p4 \<noteq> None \<and> \<not> stall"; cases stall) (auto simp: slack_def)
  qed
  show "p_wb_op p' = p_wb_op p4" "p_mem_op p' = p_mem_op p4" "p_mem_transaction p' = p_mem_transaction p4"
    "p_branch_recover p' = p_branch_recover p4" "p_int_mul_div_stall_countdown p' = p_int_mul_div_stall_countdown p4"
    "p_dcache p' = p_dcache p4" "p_l2_cache p' = p_l2_cache p4"
    "p_exe_op p4 \<noteq> None \<Longrightarrow> p_exe_op p' = p_exe_op p4"
    "p_id_op p4 \<noteq> None \<Longrightarrow> p_exe_op p4 = None \<Longrightarrow> \<not> stall \<Longrightarrow> retires (p_exe_op p') = 1"
    "p_id_op p4 = None \<Longrightarrow> \<not> stall \<Longrightarrow> p_exe_op p' = p_exe_op p4"
    using d p' st by (cases rule: fetch_result_cases [OF f]; auto split: if_splits)+
qed

lemma stages_advance:
  assumes r: "retires (p_wb_op p) = 0" "p_branch_recover p \<longrightarrow> retires (p_mem_op p) = 1"
    and b: "back_result p p3" and e: "exe_result p3 p4" "same_rest p3 p4"
    and st: "stall \<longrightarrow> p_exe_op p4 = None \<and> retires (p_mem_op p4) = 1"
    and d: "if p_exe_op p4 = None \<and> p_id_op p4 \<noteq> None \<and> \<not> stall
      then \<exists>e. p5 = p4\<lparr>p_id_op := None, p_exe_op := Some e\<rparr> \<and> \<not> op_placeholder e else p5 = p4"
    and f: "fetch_result lo hi img p5 p6" "insert_bubble stall p6 = Inr p'"
  shows "advances p p'"
proof -
  have "stall \<longrightarrow> p_exe_op p4 = None" using st by blast
  note w = front_advances [OF d f this]
  note s = e(2) [unfolded same_rest_def]
  consider (wb) "retires (p_wb_op p3) = 1" |
    (mem) "retires (p_mem_op p) = 1" "retires (p_wb_op p3) = 0" |
    (exe) "retires (p_mem_op p) = 0" "retires (p_exe_op p) = 1" "retires (p_wb_op p3) = 0" |
    (front) "retires (p_mem_op p) = 0" "retires (p_exe_op p) = 0" "retires (p_wb_op p3) = 0"
    using retires_cases by metis
  then show ?thesis
  proof cases
    case wb
    with r w(2) s show ?thesis by (simp add: advances_def rank_def)
  next
    case mem
    with b have m: "p_mem_op p3 = p_mem_op p" "p_mem_transaction p3 \<noteq> MtIdle"
      "p_mem_transaction p \<noteq> MtIdle \<longrightarrow> p_dcache p3 = p_dcache p \<and> caller (p_dcache p3) \<noteq> None"
      by (auto simp: back_result_def)
    with mem have "p_mem_op p3 \<noteq> None" by (cases "p_mem_op p") auto
    with e(1) have x: "p_mem_op p4 = p_mem_op p3" "p_exe_op p4 = p_exe_op p3" "\<not> p_branch_recover p4"
      by (auto simp: exe_result_def)
    have rk: "rank p' = 1" using mem m x w(2-5) s by (simp add: rank_def)
    show ?thesis
    proof (cases "rank p = 1")
      case True
      have "p_mem_transaction p \<noteq> MtIdle \<and> \<not> p_branch_recover p"
        using True rank_mem [OF r(1) mem(1)] by simp
      then have p: "p_mem_transaction p \<noteq> MtIdle" "\<not> p_branch_recover p" by blast+
      with b x(2) s have "slack p4 = slack p" by (simp add: slack_def back_result_def)
      moreover have "p_dcache p3 = p_dcache p" "caller (p_dcache p3) \<noteq> None" using m(3) p(1) by blast+
      then have "p_dcache p' = p_dcache p" "caller (p_dcache p') \<noteq> None" using w(7) s by simp_all
      moreover have "p_l2_cache p' = p_l2_cache p" "p_icache p4 = p_icache p" using w(8) b s by (simp_all add: back_result_def)
      ultimately show ?thesis using w(1) rk True by (simp add: advances_def) blast
    next
      case False
      then have "rank p = 2" using rank_mem [OF r(1) mem(1)] by blast
      with rk show ?thesis by (simp add: advances_def)
    qed
  next
    case exe
    with b r(2) have m: "p_mem_op p3 = None" "retires (p_exe_op p3) = 1"
      "p_int_mul_div_stall_countdown p3 = p_int_mul_div_stall_countdown p" by (auto simp: back_result_def)
    with e(1) consider "retires (p_mem_op p4) = 1" |
      "p_exe_op p4 = p_exe_op p3" "p_int_mul_div_stall_countdown p = None" "p_int_mul_div_stall_countdown p4 \<noteq> None"
      by (auto simp: exe_result_def)
    then show ?thesis
    proof cases
      case 1
      with exe r w(2,3) s show ?thesis by (simp add: advances_def rank_def)
    next
      case 2
      then have "p_exe_op p' = p_exe_op p4" using w(9) m(2) by (cases "p_exe_op p3") auto
      with 2 exe m r w(2,3,6) s show ?thesis by (simp add: advances_def rank_def)
    qed
  next
    case front
    with b r(2) have m: "p_mem_op p3 = None" "retires (p_exe_op p3) = 0" "p_dcache p3 = p_dcache p"
      "p_if_fsm p3 = p_if_fsm p" "p_id_op p3 = p_id_op p" "p_icache p3 = p_icache p" "p_l2_cache p3 = p_l2_cache p"
      by (auto simp: back_result_def)
    with e(1) have x: "retires (p_mem_op p4) = 0" "p_exe_op p4 = None" by (auto simp: exe_result_def)
    then have ns: "\<not> stall" using st by auto
    show ?thesis
    proof (cases "p_id_op p")
      case None
      then have "rank p = 6" "p_exe_op p' = None" "slack p4 = slack p"
        using front r m x s w(11) ns by (auto simp: rank_def slack_def)
      moreover have "rank p' = 6 \<or> rank p' < 6" by (simp add: rank_def)
      moreover have "rank p' = 6 \<Longrightarrow> p_id_op p' = None" by (auto simp: rank_def split: if_splits)
      ultimately show ?thesis using w(1,7,8) m s by (auto simp: advances_def)
    next
      case (Some u)
      then have "retires (p_exe_op p') = 1" using w(10) m x s ns by simp
      with front r Some show ?thesis by (simp add: advances_def rank_def)
    qed
  qed
qed

context processor
begin

definition cpu_inv ::
  "nat \<Rightarrow> nat \<Rightarrow> u8 list \<Rightarrow> Arch \<Rightarrow> Arch \<Rightarrow> Arch \<Rightarrow> 'rp PipelineProcessor \<Rightarrow> 'm \<Rightarrow> cells \<Rightarrow> bool" where
  "cpu_inv lo hi img N G H p m h \<longleftrightarrow> pipe_inv lo hi img N G H p \<and>
     (\<exists>dr ir. psys lo hi img (isa_mem G) dr ir p m h \<and> mem_link dr (p_mem_transaction p) (p_mem_op p) \<and> fetch_link ir p)"

text \<open>Recovery, forwarding, WB and MEM.\<close>

lemma back_ok:
  assumes i: "cpu_inv lo hi img N G H p m h" and c: "code_ok lo hi img" and pc: "in_code lo hi 2 (isa_pc H)"
  shows "\<exists>p1 p2 p3 h3 dr ir G3.
    pipe_branch_recovery (p\<lparr>p_hpm := stat_tick (p_hpm p)\<rparr>) = Inr p1 \<and>
    pipe_stage_wb (pipe_normal_data_hazard_resolve p1) = Inr p2 \<and> pipe_stage_mem R mtry p2 m h = Inr (p3, m, h3) \<and>
    after_mem lo hi img G G3 H p3 \<and> psys lo hi img (isa_mem G3) dr ir p3 m h3 \<and>
    mem_link dr (p_mem_transaction p3) (p_mem_op p3) \<and> fetch_link ir p3 \<and> back_result p p3 \<and>
    inst_retire (p_hpm p3) = inst_retire (p_hpm p) + retires (p_wb_op p) \<and>
    p_halt p3 = (p_halt p \<or> (\<exists>x. p_wb_op p = Some x \<and> is_ecall (op_inst x) \<and> isa_regs N ! 10 = 0))"
proof -
  from i obtain dr ir where inv: "pipe_inv lo hi img N G H p" and y: "psys lo hi img (isa_mem G) dr ir p m h"
    and l: "mem_link dr (p_mem_transaction p) (p_mem_op p)" "fetch_link ir p" by (auto simp: cpu_inv_def)
  have hi: "hi \<le> length img" using c by (auto simp: code_ok_def)
  from recovery_ok [OF inv pc] obtain p0 where
    r: "pipe_branch_recovery (p\<lparr>p_hpm := stat_tick (p_hpm p)\<rparr>) = Inr p0" "pipe_inv lo hi img N G H p0"
      "\<not> p_branch_recover p0" "same_back p p0"
      "p_branch_recover p \<and> p_if_fsm p0 = IfIdle \<and> p_id_op p0 = None \<or>
       \<not> p_branch_recover p \<and> p0 = p\<lparr>p_hpm := stat_tick (p_hpm p)\<rparr>" by blast
  note s0 = r(4) [unfolded same_back_def]
  obtain ir0 where f0: "psys lo hi img (isa_mem G) dr ir0 p0 m h" "fetch_link ir0 p0"
  proof (cases "p_branch_recover p \<and> p_if_fsm p0 = IfIdle \<and> p_id_op p0 = None")
    case True
    have "psys lo hi img (isa_mem G) dr NoFetch p0 m h" using split.sys_no_fetch [OF conjunct1 [OF y]] y s0 by simp
    with True that [of NoFetch] show ?thesis by (simp add: fetch_link_def)
  next
    case False
    with r(5) y s0 l(2) that [of ir] fetch_link_cong [of p0 p] show ?thesis by simp
  qed
  from wb_ok [OF r(2,3) hi] obtain p2 where
    w: "pipe_stage_wb (pipe_normal_data_hazard_resolve p0) = Inr p2" "after_wb lo hi img G H p2"
      "p_mem_op p2 = p_mem_op p0" "p_mem_transaction p2 = p_mem_transaction p0"
      "p_icache p2 = p_icache p0" "p_dcache p2 = p_dcache p0" "p_l2_cache p2 = p_l2_cache p0"
      "p_if_fsm p2 = p_if_fsm p0" "p_id_op p2 = p_id_op p0" "p_if_pc p2 = p_if_pc p0"
      "inst_retire (p_hpm p2) = inst_retire (p_hpm p0) + retires (p_wb_op p0)"
      "p_halt p2 = (p_halt p0 \<or> (\<exists>x. p_wb_op p0 = Some x \<and> is_ecall (op_inst x) \<and> isa_regs N ! 10 = 0))"
      "retires (p_exe_op p2) = retires (p_exe_op p0)"
      "p_int_mul_div_stall_countdown p2 = p_int_mul_div_stall_countdown p0" by blast
  have y2: "psys lo hi img (isa_mem G) dr ir0 p2 m h" "mem_link dr (p_mem_transaction p2) (p_mem_op p2)" "fetch_link ir0 p2"
    using f0 l(1) s0 w fetch_link_cong [of p2 p0] by simp_all
  from mem_ok [OF y2(1,2) w(2)] obtain p3 h3 dr3 G3 where
    m3: "pipe_stage_mem R mtry p2 m h = Inr (p3, m, h3)" "after_mem lo hi img G G3 H p3"
      "psys lo hi img (isa_mem G3) dr3 ir0 p3 m h3" "mem_link dr3 (p_mem_transaction p3) (p_mem_op p3)"
      "p_if_fsm p3 = p_if_fsm p2" "p_id_op p3 = p_id_op p2" "p_if_pc p3 = p_if_pc p2" "p_hpm p3 = p_hpm p2"
      "p_halt p3 = p_halt p2" "mem_result p2 p3" by blast
  have "fetch_link ir0 p3" using y2(3) m3(5-7) fetch_link_cong [of p3 p2] by simp
  moreover have "back_result p p3"
    using m3(5,6,10) r(5) w(3-9,13,14) s0 by (auto simp: back_result_def mem_result_def)
  ultimately show ?thesis
    using r(1) w(1,11,12) m3(1-4,8,9) s0
    by (intro exI [of _ p0] exI [of _ p2] exI [of _ p3] exI [of _ h3] exI [of _ dr3] exI [of _ ir0] exI [of _ G3]) simp
qed

text \<open>EXE, the load-use check, ID, IF and the bubble.\<close>

lemma front_ok:
  assumes a: "after_mem lo hi img N G H p" and y: "psys lo hi img (isa_mem G) dr ir p m h"
    and l: "mem_link dr (p_mem_transaction p) (p_mem_op p)" "fetch_link ir p"
    and c: "code_ok lo hi img" and H: "isa_step lo hi H = Some H1"
  shows "\<exists>p4 stall p5 p6 p' h' H'. pipe_stage_exe p = Inr p4 \<and> pipe_load_use_hazard_handle p4 = Inr stall \<and>
    pipe_stage_decode stall p4 = Inr p5 \<and> pipe_stage_fetch R mtry p5 m h = Inr (p6, m, h') \<and>
    insert_bubble stall p6 = Inr p' \<and> cpu_inv lo hi img N G H' p' m h' \<and>
    after_exe lo hi img N G H' p4 \<and> same_rest p p4 \<and> fetch_result lo hi img p5 p6 \<and>
    inst_retire (p_hpm p') = inst_retire (p_hpm p) \<and> p_halt p' = p_halt p"
proof -
  have pc: "in_code lo hi 2 (isa_pc H)" using isa_stepD [OF H] by blast
  have "hi \<le> 2 ^ 32" using c by (auto simp: code_ok_def)
  note pc3 = front_in_code [OF after_mem_front [OF a] pc this]
  from exe_ok [OF a H c] obtain p4 H4 where
    e4: "pipe_stage_exe p = Inr p4" "after_exe lo hi img N G H4 p4" "same_rest p p4"
      "p_mem_op p4 = p_mem_op p \<or> p_mem_op p = None" by blast
  have l4: "mem_link dr (p_mem_transaction p4) (p_mem_op p4)"
    using l(1) e4(3,4) mem_link_empty by (auto simp: same_rest_def)
  from decode_ok [OF e4(2)] obtain stall p5 i5 x5 where
    d5: "pipe_load_use_hazard_handle p4 = Inr stall" "pipe_stage_decode stall p4 = Inr p5" "after_exe lo hi img N G H4 p5"
      "stall \<longrightarrow> p_exe_op p5 = None" "p5 = p4\<lparr>p_id_op := i5, p_exe_op := x5\<rparr>" "i5 = p_id_op p4 \<or> i5 = None" by blast
  have y5: "psys lo hi img (isa_mem G) dr ir p5 m h" "fetch_link ir p5" "in_code lo hi 0 (p_if_pc p5)"
    using y l(2) e4(3) d5(5,6) pc3
    by (auto simp: same_rest_def fetch_link_def split: PipelineMemoryFSM.splits)
  have bp: "predictor_ok lo hi (p_branch_predictor p5)" using d5(3) by (simp add: after_exe_def)
  from fetch_stage_ok [OF y5(1,2) c y5(3) bp] obtain p6 h6 ir6 where
    f6: "pipe_stage_fetch R mtry p5 m h = Inr (p6, m, h6)" "psys lo hi img (isa_mem G) dr ir6 p6 m h6" "fetch_link ir6 p6"
      "fetch_result lo hi img p5 p6" by blast
  then obtain ic f b where
    c6: "p6 = p5\<lparr>p_icache := ic, p_if_fsm := f, p_if_raw_inst_buffer := b\<rparr> \<or>
     (\<exists>u. p_id_op p5 = None \<and> fetched_at img (p_if_pc p5) u \<and> steers lo hi u \<and>
       p6 = p5\<lparr>p_icache := ic, p_if_fsm := f, p_if_raw_inst_buffer := b, p_hpm := inst_fetch (p_hpm p5),
              p_if_pc := predicted_pc u, p_id_op := Some u\<rparr>)" unfolding fetch_result_def by blast
  have a6: "after_exe lo hi img N G H4 p6"
    using c6 d5(3) after_exe_waiting after_exe_fetched [OF d5(3)] by blast
  have k6: "p_exe_op p6 = p_exe_op p5" "p_mem_op p6 = p_mem_op p5" "p_mem_transaction p6 = p_mem_transaction p5"
    "p_halt p6 = p_halt p5" "inst_retire (p_hpm p6) = inst_retire (p_hpm p5)"
    using c6 by (auto simp: inst_fetch_def)
  from bubble_ok [OF a6, of stall] d5(4) k6(1) obtain x7 where
    b7: "insert_bubble stall p6 = Inr (p6\<lparr>p_exe_op := x7\<rparr>)" "after_exe lo hi img N G H4 (p6\<lparr>p_exe_op := x7\<rparr>)" by auto
  let ?p = "p6\<lparr>p_exe_op := x7\<rparr>"
  have "mem_link dr (p_mem_transaction ?p) (p_mem_op ?p)" using l4 k6 d5(5) by simp
  moreover have "fetch_link ir6 ?p" using f6(3) fetch_link_cong [of ?p p6] by simp
  ultimately have "cpu_inv lo hi img N G H4 ?p m h6"
    using after_exe_pipe_inv [OF b7(2)] f6(2) by (auto simp: cpu_inv_def)
  moreover have "inst_retire (p_hpm ?p) = inst_retire (p_hpm p)" "p_halt ?p = p_halt p"
    using k6 d5(5) e4(3) by (simp_all add: same_rest_def)
  ultimately show ?thesis using e4(1-3) d5(1,2) f6(1,4) b7(1) by blast
qed

lemma stages_ok:
  assumes i: "cpu_inv lo hi img N G H p m h" and c: "code_ok lo hi img" and H: "isa_step lo hi H = Some H1"
  shows "\<exists>p' h' G' H'. pipe_stages R mtry p m h = Inr (p', m, h') \<and> cpu_inv lo hi img G G' H' p' m h' \<and>
    inst_retire (p_hpm p') = inst_retire (p_hpm p) + retires (p_wb_op p) \<and>
    p_halt p' = (p_halt p \<or> (\<exists>x. p_wb_op p = Some x \<and> is_ecall (op_inst x) \<and> isa_regs N ! 10 = 0)) \<and>
    (retires (p_wb_op p) = 0 \<longrightarrow> advances p p')"
proof -
  have pc: "in_code lo hi 2 (isa_pc H)" using isa_stepD [OF H] by blast
  from back_ok [OF i c pc] obtain p1 p2 p3 h3 dr ir G3 where
    b: "pipe_branch_recovery (p\<lparr>p_hpm := stat_tick (p_hpm p)\<rparr>) = Inr p1"
      "pipe_stage_wb (pipe_normal_data_hazard_resolve p1) = Inr p2" "pipe_stage_mem R mtry p2 m h = Inr (p3, m, h3)"
      "after_mem lo hi img G G3 H p3" "psys lo hi img (isa_mem G3) dr ir p3 m h3"
      "mem_link dr (p_mem_transaction p3) (p_mem_op p3)" "fetch_link ir p3"
      "inst_retire (p_hpm p3) = inst_retire (p_hpm p) + retires (p_wb_op p)"
      "p_halt p3 = (p_halt p \<or> (\<exists>x. p_wb_op p = Some x \<and> is_ecall (op_inst x) \<and> isa_regs N ! 10 = 0))"
      "back_result p p3" by blast
  from front_ok [OF b(4-7) c H] obtain p4 stall p5 p6 p' h' H' where
    f: "pipe_stage_exe p3 = Inr p4" "pipe_load_use_hazard_handle p4 = Inr stall" "pipe_stage_decode stall p4 = Inr p5"
    "pipe_stage_fetch R mtry p5 m h3 = Inr (p6, m, h')" "insert_bubble stall p6 = Inr p'"
    "cpu_inv lo hi img G G3 H' p' m h'" "inst_retire (p_hpm p') = inst_retire (p_hpm p3)" "p_halt p' = p_halt p3"
    and a: "after_exe lo hi img G G3 H' p4" "same_rest p3 p4" "fetch_result lo hi img p5 p6" by blast
  have "advances p p'" if "retires (p_wb_op p) = 0"
  proof (rule stages_advance [OF that _ b(10) exe_moves [OF f(1) b(4)] a(2) _ decode_moves [OF f(3) a(1)] a(3) f(5)])
    show "p_branch_recover p \<longrightarrow> retires (p_mem_op p) = 1" using i by (simp add: cpu_inv_def pipe_inv_def)
    show "stall \<longrightarrow> p_exe_op p4 = None \<and> retires (p_mem_op p4) = 1"
      using load_ahead [of p4] f(2) a(1) by (auto simp: after_exe_def)
  qed
  with b f show ?thesis
    by (intro exI [of _ p'] exI [of _ h'] exI [of _ G3] exI [of _ H']) (simp add: pipe_stages_def)
qed

text \<open>
  The order in which cycles that retire nothing descend: the oldest operation comes closer to WB, or
  the front closer to standing still, or the caches closer to answering.
\<close>

definition waiting :: "(('rp PipelineProcessor \<times> 'm) \<times> ('rp PipelineProcessor \<times> 'm)) set" where
  "waiting = measures [\<lambda>(p, m). rank p, \<lambda>(p, m). slack p,
     \<lambda>(p, m). split.effort (p_icache p) (p_dcache p) (p_l2_cache p, m)]"

lemma waiting_wf: "wf waiting"
  by (simp add: waiting_def)

lemma cycle_ok:
  assumes i: "cpu_inv lo hi img N G H p m h" and c: "code_ok lo hi img" and H: "isa_step lo hi H \<noteq> None"
  shows "\<exists>p' m' h' G' H'. cpu_cycle R mtry mtick p m h = Inr (p', m', h') \<and> cpu_inv lo hi img G G' H' p' m' h' \<and>
    inst_retire (p_hpm p') = inst_retire (p_hpm p) + retires (p_wb_op p) \<and>
    p_halt p' = (p_halt p \<or> (\<exists>x. p_wb_op p = Some x \<and> is_ecall (op_inst x) \<and> isa_regs N ! 10 = 0)) \<and>
    (retires (p_wb_op p) = 0 \<longrightarrow> ((p', m'), (p, m)) \<in> waiting)"
proof -
  from stages_ok [OF i c] H obtain p1 h1 G' H' where
    s: "pipe_stages R mtry p m h = Inr (p1, m, h1)" "cpu_inv lo hi img G G' H' p1 m h1"
      "inst_retire (p_hpm p1) = inst_retire (p_hpm p) + retires (p_wb_op p)"
      "p_halt p1 = (p_halt p \<or> (\<exists>x. p_wb_op p = Some x \<and> is_ecall (op_inst x) \<and> isa_regs N ! 10 = 0))"
      "retires (p_wb_op p) = 0 \<longrightarrow> advances p p1" by blast
  from s(2) obtain dr ir where y: "psys lo hi img (isa_mem G') dr ir p1 m h1"
    "mem_link dr (p_mem_transaction p1) (p_mem_op p1)" "fetch_link ir p1" "pipe_inv lo hi img G G' H' p1"
    by (auto simp: cpu_inv_def)
  from clocks_ok [OF y(1)] obtain ic dc c2 m' h' where
    k: "bindR (tick_icache R mtry p1 m h1) (\<lambda>(p2, m2, h2).
    bindR (tick_dcache R mtry p2 m2 h2) (\<lambda>(p3, m3, h3).
    bindR (tick_l2_cache R mtry p3 m3 h3) (\<lambda>(p4, m4, h4).
    bindR (mtick m4 h4) (\<lambda>(m5, h5). Inr (p4, m5, h5))))) =
      Inr (p1\<lparr>p_icache := ic, p_dcache := dc, p_l2_cache := c2\<rparr>, m', h')"
    "psys lo hi img (isa_mem G') dr ir (p1\<lparr>p_icache := ic, p_dcache := dc, p_l2_cache := c2\<rparr>) m' h'"
    and ef: "caller (p_icache p1) \<noteq> None \<or> caller (p_dcache p1) \<noteq> None \<longrightarrow>
       split.effort ic dc (c2, m') < split.effort (p_icache p1) (p_dcache p1) (p_l2_cache p1, m)" by blast
  let ?p = "p1\<lparr>p_icache := ic, p_dcache := dc, p_l2_cache := c2\<rparr>"
  have "cpu_cycle R mtry mtick p m h = Inr (?p, m', h')"
    using s(1) k(1)
    by (auto simp: cpu_cycle_def pipe_tick_def bindR_def split: sum.splits prod.splits)
  moreover have "cpu_inv lo hi img G G' H' ?p m' h'"
  proof -
    have "pipe_inv lo hi img G G' H' ?p" using y(4) pipe_inv_caches by blast
    moreover have "fetch_link ir ?p" using y(3) fetch_link_cong [of ?p p1] by simp
    ultimately show ?thesis using y(2) k(2) unfolding cpu_inv_def by auto
  qed
  moreover have "((?p, m'), (p, m)) \<in> waiting" if "retires (p_wb_op p) = 0"
  proof -
    have "rank ?p = rank p1" "slack ?p = slack p1" by (simp_all add: rank_def slack_def)
    moreover have "split.effort ic dc (c2, m') < split.effort (p_icache p) (p_dcache p) (p_l2_cache p, m)"
      if "work (p_icache p1) = work (p_icache p)" "p_dcache p1 = p_dcache p" "p_l2_cache p1 = p_l2_cache p"
        "caller (p_icache p1) \<noteq> None \<or> caller (p_dcache p1) \<noteq> None"
      using ef [THEN mp, OF that(4)] that(1-3) by (simp add: split.effort_def)
    moreover have "advances p p1" using s(5) that by blast
    ultimately show ?thesis unfolding advances_def waiting_def by auto
  qed
  ultimately show ?thesis using s(3,4) by (intro exI [of _ ?p] exI [of _ m'] exI [of _ h'] exI [of _ G'] exI [of _ H']) simp
qed

end

end
