(* ===== verification/Elf_Loader.thy ===== *)
theory Elf_Loader
  imports Prelude
begin

text \<open>
  The program loader (\<open>sim/elf.rs\<close>).  Reading the file and parsing it are the standard library's and
  the \<open>object\<close> crate's: the parsed file is a record of what the loader asks of it, and the parser is
  an argument.  Addresses and sizes of segments are \<open>u64\<close>; \<open>usize\<close> has 64 bits on the host.
\<close>

record ElfSegment =
  seg_address :: u64
  seg_size :: u64
  seg_data :: "u8 list option"   \<comment> \<open>\<open>data()\<close>, \<open>None\<close> for its error\<close>

record ObjectFile =
  obj_is_elf32 :: bool
  obj_is_riscv32 :: bool
  obj_is_executable :: bool
  obj_is_little_endian :: bool
  obj_segments :: "ElfSegment list"
  obj_entry :: u64

record ProgramInfo =
  entry_pc :: u32
  prog_body :: "u8 list"

definition ELF_MEM_SIZE :: nat where
  "ELF_MEM_SIZE = 0x40000"

definition load_segment :: "ElfSegment \<Rightarrow> u8 list \<Rightarrow> u8 list res" where
  "load_segment sg prog =
     (let end64 = seg_address sg + seg_size sg in
      bindR (assertR (unat end64 < ELF_MEM_SIZE) SegmentOutOfMemory) (\<lambda>_.
      let start_addr = unat (seg_address sg); end_addr = unat end64 in
      bindR (unwrapR UnwrapNone (seg_data sg)) (\<lambda>data.
      let seg_data_len = length data;
          len_diff = unat (end64 - seg_address sg - of_nat seg_data_len)
      in if len_diff > 0 then
           (if seg_data_len = 0 then set_range prog start_addr end_addr (replicate (unat (seg_size sg)) 0)
            else bindR (set_range prog start_addr (start_addr + seg_data_len) data) (\<lambda>prog1.
                 set_range prog1 (start_addr + seg_data_len) end_addr (replicate len_diff 0)))
         else set_range prog start_addr end_addr data)))"

fun load_segments :: "ElfSegment list \<Rightarrow> u8 list \<Rightarrow> u8 list res" where
  "load_segments [] prog = Inr prog"
| "load_segments (sg # sgs) prog = bindR (load_segment sg prog) (load_segments sgs)"

definition elf_loader :: "(u8 list \<Rightarrow> ObjectFile option) \<Rightarrow> u8 list option \<Rightarrow> ProgramInfo res" where
  "elf_loader parse file =
     bindR (unwrapR FileUnreadable file) (\<lambda>bytes.
     bindR (unwrapR ElfUnparsable (parse bytes)) (\<lambda>object_parse.
     bindR (assertR (obj_is_elf32 object_parse) NotElf32) (\<lambda>_.
     bindR (assertR (obj_is_riscv32 object_parse) NotRiscv32) (\<lambda>_.
     bindR (assertR (obj_is_executable object_parse) NotExecutable) (\<lambda>_.
     bindR (assertR (obj_is_little_endian object_parse) NotLittleEndian) (\<lambda>_.
     bindR (load_segments (obj_segments object_parse) (replicate ELF_MEM_SIZE 0)) (\<lambda>prog.
     Inr \<lparr>entry_pc = ucast (obj_entry object_parse), prog_body = prog\<rparr>)))))))"

subsection \<open>The loaded image\<close>

text \<open>The byte a segment defines at address \<open>a\<close>: its data, then zeros up to its size.\<close>

definition segment_byte :: "ElfSegment \<Rightarrow> nat \<Rightarrow> u8 option" where
  "segment_byte sg a =
     (let start = unat (seg_address sg); d = (case seg_data sg of None \<Rightarrow> [] | Some d \<Rightarrow> d) in
      if start \<le> a \<and> a < start + unat (seg_size sg)
      then Some (if a - start < length d then d ! (a - start) else 0) else None)"

text \<open>The last segment in file order that covers an address decides; uncovered bytes are zero.\<close>

fun image_byte :: "ElfSegment list \<Rightarrow> nat \<Rightarrow> u8 option" where
  "image_byte [] a = None"
| "image_byte (sg # sgs) a = (case image_byte sgs a of Some b \<Rightarrow> Some b | None \<Rightarrow> segment_byte sg a)"

text \<open>
  The segments the loader accepts: readable, ending inside the memory without wrapping around, with no
  more data than their size.
\<close>

definition segment_ok :: "ElfSegment \<Rightarrow> bool" where
  "segment_ok sg \<longleftrightarrow>
     (case seg_data sg of
        None \<Rightarrow> False
      | Some d \<Rightarrow> unat (seg_address sg) + unat (seg_size sg) < ELF_MEM_SIZE \<and> length d \<le> unat (seg_size sg))"

lemma u64_less: "unat (x :: u64) < 2 ^ 64"
  using unsigned_less [where ?'a = nat, of x] by simp

lemma len_diff_value:
  assumes "length d \<le> unat (sz :: u64)" "unat sz < ELF_MEM_SIZE"
  shows "unat (sz - of_nat (length d)) = unat sz - length d"
proof -
  have u: "unat (of_nat (length d) :: u64) = length d"
    using assms by (simp add: unat_of_nat take_bit_nat_eq_self ELF_MEM_SIZE_def)
  have "(of_nat (length d) :: u64) \<le> sz" unfolding word_le_nat_alt u using assms(1) by simp
  then show ?thesis using u by (simp add: unat_sub)
qed

lemma load_segment_unfold:
  assumes "seg_data sg = Some d" "unat (seg_address sg + seg_size sg) < ELF_MEM_SIZE"
  shows "load_segment sg prog =
    (let s = unat (seg_address sg); e = unat (seg_address sg + seg_size sg);
         ld = unat (seg_size sg - of_nat (length d)) in
     if ld > 0 then
         (if length d = 0 then set_range prog s e (replicate (unat (seg_size sg)) 0)
          else bindR (set_range prog s (s + length d) d) (\<lambda>prog1.
                 set_range prog1 (s + length d) e (replicate ld 0)))
       else set_range prog s e d)"
  using assms by (simp add: load_segment_def Let_def)

lemma load_segment_accepted:
  assumes "load_segment sg prog = Inr prog'"
  shows "segment_ok sg"
proof -
  let ?s = "unat (seg_address sg)" and ?e = "unat (seg_address sg + seg_size sg)"
  from assms obtain d where d: "seg_data sg = Some d" and e: "?e < ELF_MEM_SIZE"
    by (auto simp: load_segment_def Let_def assertR_def unwrapR_def bindR_def split: if_splits option.splits)
  have se: "?s \<le> ?e" and dl: "length d \<le> ?e - ?s"
    using assms unfolding load_segment_unfold [OF d e] Let_def
    by (auto simp: set_range_def bindR_def split: if_splits)
  have "?e = ?s + unat (seg_size sg) \<or> ?e + 2 ^ 64 = ?s + unat (seg_size sg)"
    using unat_plus_if' [of "seg_address sg" "seg_size sg"] u64_less [of "seg_address sg"]
      u64_less [of "seg_size sg"] by (auto split: if_splits)
  then have "?e = ?s + unat (seg_size sg)" using se u64_less [of "seg_size sg"] by linarith
  with d e dl show ?thesis by (simp add: segment_ok_def)
qed

lemma load_segment_result:
  assumes "segment_ok sg" "length prog = ELF_MEM_SIZE"
  obtains d where "seg_data sg = Some d" "length d \<le> unat (seg_size sg)"
    "unat (seg_address sg) + unat (seg_size sg) < ELF_MEM_SIZE"
    "load_segment sg prog = Inr (put_seg (unat (seg_address sg)) (d @ replicate (unat (seg_size sg) - length d) 0) prog)"
proof -
  let ?s = "unat (seg_address sg)" and ?n = "unat (seg_size sg)"
  from assms(1) obtain d where d: "seg_data sg = Some d" "?s + ?n < ELF_MEM_SIZE" "length d \<le> ?n"
    by (auto simp: segment_ok_def split: option.splits)
  have e: "unat (seg_address sg + seg_size sg) = ?s + ?n"
    using d(2) unat_plus_if' [of "seg_address sg" "seg_size sg"] by (auto simp: ELF_MEM_SIZE_def split: if_splits)
  have ld: "unat (seg_size sg - of_nat (length d)) = ?n - length d"
    using d(2,3) by (intro len_diff_value) auto
  have two: "put_seg (?s + length d) (replicate (?n - length d) 0) (put_seg ?s d prog) =
      put_seg ?s (d @ replicate (?n - length d) 0) prog"
    using d(2,3) assms(2) by (intro nth_equalityI) (auto simp: nth_put_seg nth_append)
  have "load_segment sg prog = Inr (put_seg ?s (d @ replicate (?n - length d) 0) prog)"
    using d(2,3) assms(2) two e ld
    by (subst load_segment_unfold [OF d(1)]) (auto simp: Let_def set_range_def bindR_def)
  with d that show thesis by blast
qed

lemma load_segment_spec:
  assumes "segment_ok sg" "length prog = ELF_MEM_SIZE"
  obtains prog' where "load_segment sg prog = Inr prog'" "length prog' = ELF_MEM_SIZE"
    "\<forall>a < ELF_MEM_SIZE. prog' ! a = (case segment_byte sg a of Some b \<Rightarrow> b | None \<Rightarrow> prog ! a)"
proof (rule load_segment_result [OF assms])
  fix d :: "u8 list"
  let ?s = "unat (seg_address sg)" and ?n = "unat (seg_size sg)"
  let ?z = "d @ replicate (?n - length d) 0"
  assume d: "seg_data sg = Some d" "length d \<le> ?n" "?s + ?n < ELF_MEM_SIZE"
    and l: "load_segment sg prog = Inr (put_seg ?s ?z prog)"
  have "segment_byte sg a = (if ?s \<le> a \<and> a < ?s + length ?z then Some (?z ! (a - ?s)) else None)" for a
    using d(2) by (auto simp: segment_byte_def d(1) nth_append)
  then have "\<forall>a < ELF_MEM_SIZE. put_seg ?s ?z prog ! a = (case segment_byte sg a of Some b \<Rightarrow> b | None \<Rightarrow> prog ! a)"
    using d assms(2) by (auto simp: nth_put_seg)
  with l d assms(2) show thesis by (intro that) auto
qed

lemma load_segments_accepted: "load_segments sgs prog = Inr prog' \<Longrightarrow> list_all segment_ok sgs"
  by (induction sgs arbitrary: prog) (auto simp: bindR_eq_Inr dest: load_segment_accepted)

lemma load_segments_spec:
  "list_all segment_ok sgs \<Longrightarrow> length prog = ELF_MEM_SIZE \<Longrightarrow>
   \<exists>prog'. load_segments sgs prog = Inr prog' \<and> length prog' = ELF_MEM_SIZE \<and>
   (\<forall>a < ELF_MEM_SIZE. prog' ! a = (case image_byte sgs a of Some b \<Rightarrow> b | None \<Rightarrow> prog ! a))"
proof (induction sgs arbitrary: prog)
  case Nil
  then show ?case by simp
next
  case (Cons sg sgs)
  from Cons.prems have "segment_ok sg" by simp
  from load_segment_spec [OF this Cons.prems(2)] obtain p1 where p1: "load_segment sg prog = Inr p1"
    "length p1 = ELF_MEM_SIZE"
    "\<forall>a < ELF_MEM_SIZE. p1 ! a = (case segment_byte sg a of Some b \<Rightarrow> b | None \<Rightarrow> prog ! a)" .
  from Cons.prems(1) Cons.IH [OF _ p1(2)] obtain prog' where "load_segments sgs p1 = Inr prog'"
    "length prog' = ELF_MEM_SIZE"
    "\<forall>a < ELF_MEM_SIZE. prog' ! a = (case image_byte sgs a of Some b \<Rightarrow> b | None \<Rightarrow> p1 ! a)" by auto
  with p1 show ?case by (auto split: option.splits)
qed

text \<open>The image of a list of accepted segments.\<close>

definition elf_image :: "ElfSegment list \<Rightarrow> u8 list" where
  "elf_image sgs = map (\<lambda>a. case image_byte sgs a of Some b \<Rightarrow> b | None \<Rightarrow> 0) [0..<ELF_MEM_SIZE]"

lemma load_segments_image:
  assumes "list_all segment_ok sgs"
  shows "load_segments sgs (replicate ELF_MEM_SIZE 0) = Inr (elf_image sgs)"
proof -
  from load_segments_spec [OF assms, of "replicate ELF_MEM_SIZE 0"] obtain p where
    "load_segments sgs (replicate ELF_MEM_SIZE 0) = Inr p" "length p = ELF_MEM_SIZE"
    "\<forall>a < ELF_MEM_SIZE. p ! a = (case image_byte sgs a of Some b \<Rightarrow> b | None \<Rightarrow> replicate ELF_MEM_SIZE 0 ! a)"
    by auto
  moreover from this(2,3) have "p = elf_image sgs"
    by (intro nth_equalityI) (simp_all add: elf_image_def split: option.splits)
  ultimately show ?thesis by simp
qed

definition elf_ok :: "ObjectFile \<Rightarrow> bool" where
  "elf_ok obj \<longleftrightarrow> obj_is_elf32 obj \<and> obj_is_riscv32 obj \<and> obj_is_executable obj \<and> obj_is_little_endian obj \<and>
     list_all segment_ok (obj_segments obj)"

lemma elf_loader_Inr_iff:
  "elf_loader parse file = Inr info \<longleftrightarrow>
   (\<exists>bytes obj. file = Some bytes \<and> parse bytes = Some obj \<and> elf_ok obj \<and>
      info = \<lparr>entry_pc = ucast (obj_entry obj), prog_body = elf_image (obj_segments obj)\<rparr>)" (is "?l = ?r")
proof
  assume ?l
  then obtain bytes obj prog where o: "file = Some bytes" "parse bytes = Some obj" "obj_is_elf32 obj" "obj_is_riscv32 obj"
    "obj_is_executable obj" "obj_is_little_endian obj"
    and p: "load_segments (obj_segments obj) (replicate ELF_MEM_SIZE 0) = Inr prog"
    and i: "info = \<lparr>entry_pc = ucast (obj_entry obj), prog_body = prog\<rparr>"
    by (auto simp: elf_loader_def unwrapR_def assertR_def bindR_def split: option.splits if_splits sum.splits)
  with load_segments_accepted [OF p] load_segments_image [of "obj_segments obj"] show ?r by (auto simp: elf_ok_def)
next
  assume ?r
  then show ?l by (auto simp: elf_loader_def elf_ok_def unwrapR_def load_segments_image)
qed

text \<open>
  C26. The program loader.  It returns exactly for a readable, parsable little-endian 32-bit RISC-V
  executable all of whose segments end inside the memory and have no more data than their size, and
  panics on every other file.  The image it returns has exactly the size of the simulated memory, and each
  byte is the one its last covering segment defines (file data followed by zero fill), or zero if no
  segment covers it.
\<close>

theorem elf_loader_image:
  "elf_loader parse file = Inr info \<longleftrightarrow>
   (\<exists>bytes obj. file = Some bytes \<and> parse bytes = Some obj \<and> obj_is_elf32 obj \<and> obj_is_riscv32 obj \<and>
      obj_is_executable obj \<and> obj_is_little_endian obj \<and> list_all segment_ok (obj_segments obj) \<and>
      entry_pc info = ucast (obj_entry obj) \<and> length (prog_body info) = ELF_MEM_SIZE \<and>
      (\<forall>a < ELF_MEM_SIZE. prog_body info ! a =
         (case image_byte (obj_segments obj) a of Some b \<Rightarrow> b | None \<Rightarrow> 0)))"
proof -
  have "info = \<lparr>entry_pc = e, prog_body = elf_image sgs\<rparr> \<longleftrightarrow>
      entry_pc info = e \<and> length (prog_body info) = ELF_MEM_SIZE \<and>
      (\<forall>a < ELF_MEM_SIZE. prog_body info ! a = (case image_byte sgs a of Some b \<Rightarrow> b | None \<Rightarrow> 0))" for e sgs
    by (cases info) (auto simp: elf_image_def list_eq_iff_nth_eq)
  then show ?thesis unfolding elf_loader_Inr_iff elf_ok_def by blast
qed

definition sample_object :: ObjectFile where
  "sample_object =
     \<lparr>obj_is_elf32 = True, obj_is_riscv32 = True, obj_is_executable = True, obj_is_little_endian = True,
      obj_segments = [\<lparr>seg_address = 2, seg_size = 3, seg_data = Some [7, 8]\<rparr>], obj_entry = 2\<rparr>"

theorem elf_loader_image_witness:
  "\<exists>info. elf_loader (\<lambda>_. Some sample_object) (Some []) = Inr info \<and> prog_body info ! 3 = 8 \<and>
     length (prog_body info) = ELF_MEM_SIZE"
proof -
  have "elf_loader (\<lambda>_. Some sample_object) (Some []) =
      Inr \<lparr>entry_pc = 2, prog_body = put_seg 4 [0] (put_seg 2 [7, 8] (replicate ELF_MEM_SIZE 0))\<rparr>"
    by (simp add: elf_loader_def sample_object_def unwrapR_def load_segment_def set_range_def
        ELF_MEM_SIZE_def Let_def)
  then obtain info where i: "elf_loader (\<lambda>_. Some sample_object) (Some []) = Inr info" by blast
  then have "prog_body info ! 3 = 8" "length (prog_body info) = ELF_MEM_SIZE"
    unfolding elf_loader_image by (auto simp: sample_object_def segment_byte_def ELF_MEM_SIZE_def)
  with i show ?thesis by blast
qed

end
