(* ===== verification/Runner.thy ===== *)
theory Runner
  imports Pipeline Elf_Loader
begin

text \<open>
  The simulation runner, the command line and the wiring of the program (\<open>sim/runner.rs\<close>,
  \<open>sim/cli.rs\<close>, \<open>main.rs\<close>): configurations and their validation, the conversion of command-line
  arguments, and the run loop.  The loop runs until the processor halts and may not end, so it takes
  \<open>fuel\<close>, a number of cycles; \<open>None\<close> is the outcome of a run that is still going when it is used up.
  The random number generator of the random policy is an argument.
\<close>

subsection \<open>Configuration\<close>

datatype ReplacementPolicyKind = RpFifo | RpRandom | RpPlru

datatype BranchPredictorKind = BpDummy | BpBimodal

fun BranchPredictorKind_build :: "BranchPredictorKind \<Rightarrow> Predictor" where
  "BranchPredictorKind_build BpDummy = DummyPredictor"
| "BranchPredictorKind_build BpBimodal = Bimodal BimodalPredictor_new"

datatype BackingMemoryKind = BmSimpleMem | BmSimpleDram DramTiming

record CacheLevelConfig =
  lv_total_size :: nat
  lv_block_size :: nat
  lv_num_of_way :: nat
  lv_miss_penalty :: nat

definition CacheLevelConfig_new :: "nat \<Rightarrow> nat \<Rightarrow> nat \<Rightarrow> nat \<Rightarrow> CacheLevelConfig" where
  "CacheLevelConfig_new ts bs nw mp =
     \<lparr>lv_total_size = ts, lv_block_size = bs, lv_num_of_way = nw, lv_miss_penalty = mp\<rparr>"

definition into_general_cache_config ::
  "CacheLevelConfig \<Rightarrow> string \<Rightarrow> WritePolicy \<Rightarrow> PrefetcherKind \<Rightarrow>
   GeneralCacheConfigError + GeneralCacheConfig" where
  "into_general_cache_config lv name wp pk =
     (case GeneralCacheConfig_new name (lv_total_size lv) (lv_block_size lv) (lv_num_of_way lv) of
        Inl e \<Rightarrow> Inl e
      | Inr c \<Rightarrow> Inr (with_prefetcher_kind pk (with_write_policy wp
                        (with_miss_penalty (lv_miss_penalty lv) c))))"

record SimulationConfig =
  sc_l1i :: CacheLevelConfig
  sc_l1d :: CacheLevelConfig
  sc_l2 :: CacheLevelConfig
  sc_replacement_policy :: ReplacementPolicyKind
  sc_write_policy :: WritePolicy
  sc_prefetcher_kind :: PrefetcherKind
  sc_backing_memory :: BackingMemoryKind
  sc_branch_predictor :: BranchPredictorKind

datatype SimulationConfigError =
    CacheError string GeneralCacheConfigError
  | PseudoLruAssociativity string nat

text \<open>The loop over the levels stops at the first associativity that is no power of two.\<close>

fun check_levels :: "(string \<times> nat) list \<Rightarrow> SimulationConfigError + unit" where
  "check_levels [] = Inr ()"
| "check_levels ((level, nw) # ls) =
     (if \<not> is_power_of_two nw then Inl (PseudoLruAssociativity level nw) else check_levels ls)"

definition validate_replacement_policy :: "SimulationConfig \<Rightarrow> SimulationConfigError + unit" where
  "validate_replacement_policy c =
     (if sc_replacement_policy c \<noteq> RpPlru then Inr ()
      else check_levels [(''L1-I$'', lv_num_of_way (sc_l1i c)), (''L1-D$'', lv_num_of_way (sc_l1d c)),
                         (''L2$'', lv_num_of_way (sc_l2 c))])"

definition level_config ::
  "SimulationConfig \<Rightarrow> CacheLevelConfig \<Rightarrow> string \<Rightarrow> SimulationConfigError + GeneralCacheConfig" where
  "level_config c lv level =
     (case into_general_cache_config lv level (sc_write_policy c) (sc_prefetcher_kind c) of
        Inl e \<Rightarrow> Inl (CacheError level e) | Inr g \<Rightarrow> Inr g)"

definition cache_configs ::
  "SimulationConfig \<Rightarrow>
   SimulationConfigError + (GeneralCacheConfig \<times> GeneralCacheConfig \<times> GeneralCacheConfig)" where
  "cache_configs c =
     (case validate_replacement_policy c of
        Inl e \<Rightarrow> Inl e
      | Inr _ \<Rightarrow>
          (case level_config c (sc_l1i c) ''L1-I$'' of
             Inl e \<Rightarrow> Inl e
           | Inr l1i \<Rightarrow>
               (case level_config c (sc_l1d c) ''L1-D$'' of
                  Inl e \<Rightarrow> Inl e
                | Inr l1d \<Rightarrow>
                    (case level_config c (sc_l2 c) ''L2$'' of
                       Inl e \<Rightarrow> Inl e
                     | Inr l2 \<Rightarrow> Inr (l1i, l1d, l2)))))"

definition SimulationConfig_default :: SimulationConfig where
  "SimulationConfig_default =
     \<lparr>sc_l1i = CacheLevelConfig_new 2048 32 4 2, sc_l1d = CacheLevelConfig_new 256 32 2 2,
      sc_l2 = CacheLevelConfig_new 16384 64 4 10, sc_replacement_policy = RpFifo,
      sc_write_policy = default_write_policy, sc_prefetcher_kind = default_prefetcher_kind,
      sc_backing_memory = BmSimpleMem, sc_branch_predictor = BpBimodal\<rparr>"

subsection \<open>Command line\<close>

datatype ReplacementPolicyArg = ArgFifo | ArgRandom | ArgPlru
datatype WritePolicyArg = WbWa | WbNwa | WtWa | WtNwa
datatype PrefetcherArg = ArgNull | ArgNextLine
datatype BranchPredictorArg = ArgDummy | ArgBimodal
datatype BackingMemoryArg = ArgSimpleMem | ArgDram

fun rp_from_arg :: "ReplacementPolicyArg \<Rightarrow> ReplacementPolicyKind" where
  "rp_from_arg ArgFifo = RpFifo"
| "rp_from_arg ArgRandom = RpRandom"
| "rp_from_arg ArgPlru = RpPlru"

fun wp_from_arg :: "WritePolicyArg \<Rightarrow> WritePolicy" where
  "wp_from_arg WbWa = WriteBackWriteAllocate"
| "wp_from_arg WbNwa = WriteBackNoWriteAllocate"
| "wp_from_arg WtWa = WriteThroughWriteAllocate"
| "wp_from_arg WtNwa = WriteThroughNoWriteAllocate"

fun prefetcher_from_arg :: "PrefetcherArg \<Rightarrow> PrefetcherKind" where
  "prefetcher_from_arg ArgNull = PrefetchNull"
| "prefetcher_from_arg ArgNextLine = PrefetchNextLine"

fun bp_from_arg :: "BranchPredictorArg \<Rightarrow> BranchPredictorKind" where
  "bp_from_arg ArgDummy = BpDummy"
| "bp_from_arg ArgBimodal = BpBimodal"

fun memory_from_arg :: "BackingMemoryArg \<Rightarrow> BackingMemoryKind" where
  "memory_from_arg ArgSimpleMem = BmSimpleMem"
| "memory_from_arg ArgDram = BmSimpleDram educational_default"

text \<open>The arguments that reach the simulation (paths and the program name do not).\<close>

record Args =
  l1i_size :: nat
  l1i_block :: nat
  l1i_ways :: nat
  l1i_penalty :: nat
  l1d_size :: nat
  l1d_block :: nat
  l1d_ways :: nat
  l1d_penalty :: nat
  l2_size :: nat
  l2_block :: nat
  l2_ways :: nat
  l2_penalty :: nat
  arg_rp :: ReplacementPolicyArg
  arg_wp :: WritePolicyArg
  arg_prefetcher :: PrefetcherArg
  arg_bp :: BranchPredictorArg
  arg_memory :: BackingMemoryArg

text \<open>The values \<open>clap\<close> fills in when no option is given.\<close>

definition Args_default :: Args where
  "Args_default =
     \<lparr>l1i_size = 2048, l1i_block = 32, l1i_ways = 4, l1i_penalty = 2,
      l1d_size = 256, l1d_block = 32, l1d_ways = 2, l1d_penalty = 2,
      l2_size = 16384, l2_block = 64, l2_ways = 4, l2_penalty = 10,
      arg_rp = ArgFifo, arg_wp = WbWa, arg_prefetcher = ArgNull, arg_bp = ArgBimodal,
      arg_memory = ArgSimpleMem\<rparr>"

definition simulation_config :: "Args \<Rightarrow> SimulationConfig" where
  "simulation_config a =
     \<lparr>sc_l1i = CacheLevelConfig_new (l1i_size a) (l1i_block a) (l1i_ways a) (l1i_penalty a),
      sc_l1d = CacheLevelConfig_new (l1d_size a) (l1d_block a) (l1d_ways a) (l1d_penalty a),
      sc_l2 = CacheLevelConfig_new (l2_size a) (l2_block a) (l2_ways a) (l2_penalty a),
      sc_replacement_policy = rp_from_arg (arg_rp a), sc_write_policy = wp_from_arg (arg_wp a),
      sc_prefetcher_kind = prefetcher_from_arg (arg_prefetcher a),
      sc_backing_memory = memory_from_arg (arg_memory a),
      sc_branch_predictor = bp_from_arg (arg_bp a)\<rparr>"

subsection \<open>Running\<close>

datatype BackingMemoryReport = ReportSimpleMem | ReportSimpleDram nat nat

record SimulationReport =
  rep_pipeline :: StatisticInfo
  rep_l1i :: CacheStatistic
  rep_l1d :: CacheStatistic
  rep_l2 :: CacheStatistic
  rep_backing_memory :: BackingMemoryReport
  rep_final_registers :: "u32 list"

fun run_cpu ::
  "'rp rp_ops \<Rightarrow> 'm lower \<Rightarrow> ('m \<Rightarrow> cells \<Rightarrow> ('m \<times> cells) res) \<Rightarrow> nat \<Rightarrow> 'rp PipelineProcessor \<Rightarrow> 'm \<Rightarrow> cells \<Rightarrow>
   ('rp PipelineProcessor \<times> 'm \<times> cells) option res" where
  "run_cpu R mtry mtick fuel cpu m h =
     (if p_halt cpu then Inr (Some (cpu, m, h))
      else case fuel of
        0 \<Rightarrow> Inr None
      | Suc n \<Rightarrow>
          bindR (pipe_tick R mtry cpu m h) (\<lambda>(cpu1, m1, h1).
          bindR (mtick m1 h1) (\<lambda>(m2, h2). run_cpu R mtry mtick n cpu1 m2 h2)))"

declare run_cpu.simps [simp del]

definition final_report ::
  "BackingMemoryReport \<Rightarrow> 'rp PipelineProcessor \<Rightarrow> SimulationReport" where
  "final_report memory_report cpu =
     \<lparr>rep_pipeline = get_statistic_info cpu,
      rep_l1i = GeneralCache_statistic_info (p_icache cpu),
      rep_l1d = GeneralCache_statistic_info (p_dcache cpu),
      rep_l2 = GeneralCache_statistic_info (p_l2_cache cpu),
      rep_backing_memory = memory_report, rep_final_registers = p_id_regs cpu\<rparr>"

type_synonym run_outcome = "(SimulationConfigError + SimulationReport) option res"

definition run_with_memory ::
  "'rp rp_ops \<Rightarrow> 'm lower \<Rightarrow> ('m \<Rightarrow> cells \<Rightarrow> ('m \<times> cells) res) \<Rightarrow> nat \<Rightarrow> u32 \<Rightarrow> 'm \<Rightarrow> SimulationConfig \<Rightarrow>
   ('m \<Rightarrow> BackingMemoryReport) \<Rightarrow> run_outcome" where
  "run_with_memory R mtry mtick fuel entry memory config memory_report =
     (case cache_configs config of
        Inl e \<Rightarrow> Inr (Some (Inl e))
      | Inr (l1i_cfg, l1d_cfg, l2_cfg) \<Rightarrow>
          bindR (new_with_predictor R entry l1i_cfg l1d_cfg l2_cfg
                   (BranchPredictorKind_build (sc_branch_predictor config))) (\<lambda>cpu.
          bindR (run_cpu R mtry mtick fuel cpu memory []) (\<lambda>outcome.
          case outcome of
            None \<Rightarrow> Inr None
          | Some (cpu1, m1, _) \<Rightarrow> Inr (Some (Inr (final_report (memory_report m1) cpu1))))))"

definition run_with_policy ::
  "'rp rp_ops \<Rightarrow> nat \<Rightarrow> u32 \<Rightarrow> u8 list \<Rightarrow> SimulationConfig \<Rightarrow> run_outcome" where
  "run_with_policy R fuel entry body config =
     (case sc_backing_memory config of
        BmSimpleMem \<Rightarrow>
          run_with_memory R SimpleMem_try_register_req SimpleMem_tick fuel entry (SimpleMem_new body) config
            (\<lambda>_. ReportSimpleMem)
      | BmSimpleDram timing \<Rightarrow>
          bindR (SimpleDram_new body timing) (\<lambda>dram.
          run_with_memory R SimpleDram_try_register_req SimpleDram_tick fuel entry dram config
            (\<lambda>d. ReportSimpleDram (row_buffer_hit_cnt d) (row_buffer_miss_cnt d))))"

definition run :: "(nat \<Rightarrow> 'g \<Rightarrow> nat \<times> 'g) \<Rightarrow> 'g \<Rightarrow> nat \<Rightarrow> ProgramInfo \<Rightarrow> SimulationConfig \<Rightarrow> run_outcome" where
  "run random_range g fuel program config =
     (case sc_replacement_policy config of
        RpFifo \<Rightarrow> run_with_policy fifo_ops fuel (entry_pc program) (prog_body program) config
      | RpRandom \<Rightarrow>
          run_with_policy (random_ops random_range g) fuel (entry_pc program) (prog_body program) config
      | RpPlru \<Rightarrow> run_with_policy plru_ops fuel (entry_pc program) (prog_body program) config)"

text \<open>\<open>main\<close>, up to printing: load the program, then run it with the configuration of the arguments.\<close>

definition main_run ::
  "(u8 list \<Rightarrow> ObjectFile option) \<Rightarrow> (nat \<Rightarrow> 'g \<Rightarrow> nat \<times> 'g) \<Rightarrow> 'g \<Rightarrow> nat \<Rightarrow> u8 list option \<Rightarrow> Args \<Rightarrow> run_outcome" where
  "main_run parse random_range g fuel file args =
     bindR (elf_loader parse file) (\<lambda>program. run random_range g fuel program (simulation_config args))"

subsection \<open>Configuration results\<close>

text \<open>
  The command line without options means the default configuration of the library: the values
  the argument parser fills in convert to \<open>SimulationConfig::default()\<close>.
\<close>

lemma default_args_default_config: "simulation_config Args_default = SimulationConfig_default"
  by (simp add: simulation_config_def Args_default_def SimulationConfig_default_def
      default_write_policy_def default_prefetcher_kind_def)

lemma default_geometries:
  "CacheGeometry_new 2048 32 4 = Inr \<lparr>geo_block_size = 32, geo_num_of_way = 4, geo_num_sets = 16,
     geo_offset_bit_width = 5, geo_index_bit_width = 4\<rparr>"
  "CacheGeometry_new 256 32 2 = Inr \<lparr>geo_block_size = 32, geo_num_of_way = 2, geo_num_sets = 4,
     geo_offset_bit_width = 5, geo_index_bit_width = 2\<rparr>"
  "CacheGeometry_new 16384 64 4 = Inr \<lparr>geo_block_size = 64, geo_num_of_way = 4, geo_num_sets = 64,
     geo_offset_bit_width = 6, geo_index_bit_width = 6\<rparr>"
  by (simp_all add: CacheGeometry_new_def usize_checked_mul_def small_powers ilog2.simps)

lemma level_config_Inr_iff:
  "level_config c lv level = Inr g \<longleftrightarrow>
   geometry_ok (lv_total_size lv) (lv_block_size lv) (lv_num_of_way lv) (cfg_geometry g) \<and>
   g = \<lparr>cfg_name = level, cfg_geometry = cfg_geometry g, cfg_miss_penalty = lv_miss_penalty lv,
        cfg_write_policy = sc_write_policy c, cfg_prefetcher_kind = sc_prefetcher_kind c\<rparr>"
  by (auto simp: level_config_def into_general_cache_config_def GeneralCacheConfig_new_def
      with_miss_penalty_def with_write_policy_def with_prefetcher_kind_def
      CacheGeometry_accept_iff [symmetric] split: sum.splits)

lemma validate_Inr_iff:
  "validate_replacement_policy c = Inr () \<longleftrightarrow>
   (sc_replacement_policy c = RpPlru \<longrightarrow>
      is_power_of_two (lv_num_of_way (sc_l1i c)) \<and> is_power_of_two (lv_num_of_way (sc_l1d c)) \<and>
      is_power_of_two (lv_num_of_way (sc_l2 c)))"
  by (auto simp: validate_replacement_policy_def)

lemma cache_configs_Inr_iff:
  "cache_configs c = Inr (g1, g2, g3) \<longleftrightarrow>
   validate_replacement_policy c = Inr () \<and> level_config c (sc_l1i c) ''L1-I$'' = Inr g1 \<and>
   level_config c (sc_l1d c) ''L1-D$'' = Inr g2 \<and> level_config c (sc_l2 c) ''L2$'' = Inr g3"
  by (auto simp: cache_configs_def split: sum.splits)

text \<open>
  C25.  A simulation configuration is accepted exactly when every level's sizes form a consistent
  geometry and, under the pseudo-LRU policy, every associativity is a power of two.
\<close>

theorem cache_configs_accepted_iff:
  "(\<exists>g. cache_configs c = Inr g) \<longleftrightarrow>
     (sc_replacement_policy c = RpPlru \<longrightarrow>
        is_power_of_two (lv_num_of_way (sc_l1i c)) \<and> is_power_of_two (lv_num_of_way (sc_l1d c)) \<and>
        is_power_of_two (lv_num_of_way (sc_l2 c))) \<and>
     list_all (\<lambda>lv. \<exists>g. geometry_ok (lv_total_size lv) (lv_block_size lv) (lv_num_of_way lv) g)
       [sc_l1i c, sc_l1d c, sc_l2 c]"
proof -
  have lv: "(\<exists>g. level_config c lv level = Inr g) \<longleftrightarrow>
      (\<exists>g. geometry_ok (lv_total_size lv) (lv_block_size lv) (lv_num_of_way lv) g)" for lv level
    by (auto simp: level_config_def into_general_cache_config_def GeneralCacheConfig_new_def
        CacheGeometry_accept_iff [symmetric] split: sum.splits)
  have "(\<exists>g. cache_configs c = Inr g) \<longleftrightarrow> (\<exists>g1 g2 g3. cache_configs c = Inr (g1, g2, g3))"
    by (metis prod_cases3)
  then show ?thesis
    unfolding cache_configs_Inr_iff validate_Inr_iff
    using lv [of "sc_l1i c" "''L1-I$''"] lv [of "sc_l1d c" "''L1-D$''"] lv [of "sc_l2 c" "''L2$''"] by auto
qed

theorem cache_configs_accepted_iff_witness:
  "\<exists>g. cache_configs SimulationConfig_default = Inr g"
  using cache_configs_accepted_iff [of SimulationConfig_default]
    default_geometries [unfolded CacheGeometry_accept_iff]
  by (auto simp add: SimulationConfig_default_def CacheLevelConfig_new_def)

lemma GeneralCache_new_total:
  assumes "rp_new R (geo_num_of_way (cfg_geometry cfg)) = Inr rp"
  shows "\<exists>c. GeneralCache_new R cfg = Inr c"
proof -
  have "\<exists>ss. sets_new R (geo_num_of_way (cfg_geometry cfg)) b k = Inr ss" for b k
    by (induction k) (auto simp: SetUnit_new_def assms)
  then obtain ss where "sets_new R (geo_num_of_way (cfg_geometry cfg)) (geo_block_size (cfg_geometry cfg))
      (geo_num_sets (cfg_geometry cfg)) = Inr ss" by blast
  then show ?thesis by (simp add: GeneralCache_new_def Let_def)
qed

lemma new_with_predictor_total:
  assumes "cache_configs c = Inr (g1, g2, g3)"
    and "\<And>n. n \<in> {lv_num_of_way (sc_l1i c), lv_num_of_way (sc_l1d c), lv_num_of_way (sc_l2 c)} \<Longrightarrow>
      \<exists>rp. rp_new R n = Inr rp"
  shows "\<exists>cpu. new_with_predictor R pc g1 g2 g3 bp = Inr cpu"
proof -
  have "geo_num_of_way (cfg_geometry g1) = lv_num_of_way (sc_l1i c)"
    "geo_num_of_way (cfg_geometry g2) = lv_num_of_way (sc_l1d c)"
    "geo_num_of_way (cfg_geometry g3) = lv_num_of_way (sc_l2 c)"
    using assms(1) unfolding cache_configs_Inr_iff level_config_Inr_iff by (auto simp: geometry_ok_def)
  with assms(2) obtain c1 c2 c3 where "GeneralCache_new R g1 = Inr c1" "GeneralCache_new R g2 = Inr c2"
    "GeneralCache_new R g3 = Inr c3" using GeneralCache_new_total [of R] by (metis insertCI)
  then show ?thesis by (simp add: new_with_predictor_def)
qed

text \<open>
  An accepted configuration always builds its processor with the policy it selects: no
  constructor panics, and in particular the power-of-two assertion of pseudo-LRU never fires.
\<close>

lemma accepted_config_builds:
  assumes "cache_configs c = Inr (g1, g2, g3)"
  shows "case sc_replacement_policy c of
      RpFifo \<Rightarrow> \<exists>cpu. new_with_predictor fifo_ops pc g1 g2 g3 bp = Inr cpu
    | RpRandom \<Rightarrow> \<exists>cpu. new_with_predictor (random_ops random_range g) pc g1 g2 g3 bp = Inr cpu
    | RpPlru \<Rightarrow> \<exists>cpu. new_with_predictor plru_ops pc g1 g2 g3 bp = Inr cpu"
proof (cases "sc_replacement_policy c")
  case RpFifo
  with new_with_predictor_total [OF assms, of fifo_ops] show ?thesis
    by (simp add: fifo_ops_def FifoRP_new_def)
next
  case RpRandom
  with new_with_predictor_total [OF assms, of "random_ops random_range g"] show ?thesis
    by (simp add: random_ops_def RandomRP_new_def)
next
  case RpPlru
  with assms have "is_power_of_two n" if "n \<in> {lv_num_of_way (sc_l1i c), lv_num_of_way (sc_l1d c), lv_num_of_way (sc_l2 c)}" for n
    using that unfolding cache_configs_Inr_iff validate_Inr_iff by auto
  with new_with_predictor_total [OF assms, of plru_ops] RpPlru show ?thesis
    by (simp add: plru_ops_def PseudoLruRP_new_def)
qed

subsection \<open>Fuel\<close>

lemma run_cpu_more_fuel:
  "run_cpu R mtry mtick n cpu m h = Inr (Some r) \<Longrightarrow> n \<le> n' \<Longrightarrow> run_cpu R mtry mtick n' cpu m h = Inr (Some r)"
proof (induction n arbitrary: n' cpu m h)
  case 0
  then show ?case by (auto simp: run_cpu.simps split: if_splits)
next
  case (Suc n)
  then obtain k where "n' = Suc k" "n \<le> k" by (cases n') auto
  with Suc show ?case
    by (auto simp: run_cpu.simps [of R mtry mtick "Suc _"] bindR_def split: if_splits sum.splits prod.splits)
qed

end
