(* ===== verification/Cache_Statistics.thy ===== *)
theory Cache_Statistics
  imports Hierarchy
begin

text \<open>
  The counters of a cache under every configuration and over every next level: misses never exceed
  accesses, whatever the traffic.  A refill counts its access twice.
\<close>

subsection \<open>Lookups\<close>

lemma count_statistic [simp]:
  "cache_statistic_ok (hpm c) \<Longrightarrow> cache_statistic_ok (hpm (count_load pf b c))"
  "cache_statistic_ok (hpm c) \<Longrightarrow> cache_statistic_ok (hpm (count_store pf b c))"
  "hpm (update_set i s c) = hpm c"
  by (simp_all add: count_load_def count_store_def update_set_def)

lemma lookup_hit_statistic:
  assumes "lookup_hit R req i off w pf s c h = Inr (c', h')" "cache_statistic_ok (hpm c)"
  shows "cache_statistic_ok (hpm c')"
proof -
  from assms(1) obtain blk s1 where "read_block R w s = Inr (blk, s1)" by (auto simp: lookup_hit_def bindR_eq_Inr)
  with assms show ?thesis
    by (cases req; cases "is_write_through (write_policy c)")
      (auto simp: lookup_hit_def bindR_eq_Inr Let_def case_prod_unfold)
qed

lemma lookup_miss_statistic:
  assumes "lookup_miss R req t i wb w pf s c h = Inr (c', h')" "cache_statistic_ok (hpm c)"
  shows "cache_statistic_ok (hpm c')"
  using assms
  by (auto simp: lookup_miss_def bindR_eq_Inr Let_def case_prod_unfold split: if_split_asm)

lemma lookup_post_statistic [simp]: "hpm (lookup_post a st pf hit c) = hpm c"
  by (simp add: lookup_post_def)

lemma lookup_statistic:
  assumes "tick_lookup R req c h = Inr (c', h')" "cache_statistic_ok (hpm c)"
  shows "cache_statistic_ok (hpm c')"
proof -
  obtain t i off where a: "addr_transfer c (get_addr req) = (t, i, off)" by (metis prod_cases3)
  from assms(1) a obtain s r s1 where s: "idx (cache_set c) i = Inr s" "tag_compare R t s = Inr (r, s1)"
    by (auto simp: tick_lookup_def bindR_eq_Inr Let_def)
  show ?thesis
    using assms(1) a s lookup_hit_statistic [OF _ assms(2)] lookup_miss_statistic [OF _ assms(2)]
    by (cases r) (auto simp: tick_lookup_def bindR_eq_Inr Let_def)
qed

subsection \<open>Ticks and registrations\<close>

text \<open>A next level whose registration keeps a property of its state.\<close>

locale lower_keeps =
  fixes try_reg :: "'m lower" and Q :: "'m \<Rightarrow> bool"
  assumes keeps: "try_reg r m h = Inr (ok, m', h') \<Longrightarrow> Q m \<Longrightarrow> Q m'"
begin

lemma progress_keeps: "progress try_reg tx m h = Inr (d, tx', m', h') \<Longrightarrow> Q m \<Longrightarrow> Q m'"
  using keeps by (cases tx) (auto simp: bindR_eq_Inr split: if_splits)

lemma tick_keeps:
  assumes t: "GeneralCache_tick R try_reg c m h = Inr (c', m', h')" and q: "Q m" "cache_statistic_ok (hpm c)"
  shows "Q m'" "cache_statistic_ok (hpm c')"
proof -
  have "Q m' \<and> cache_statistic_ok (hpm c')"
  proof (cases "fsm c")
    case Idle
    with t q show ?thesis
      by (auto simp: GeneralCache_tick_def tick_idle_def bindR_eq_Inr cache_statistic_ok_def
          Let_def case_prod_unfold
          split: option.split_asm if_split_asm list.split_asm)
  next
    case (Lookup req)
    with t q lookup_statistic show ?thesis by (auto simp: GeneralCache_tick_def bindR_eq_Inr)
  next
    case (WriteBack tx w)
    with t q show ?thesis
      by (auto simp: GeneralCache_tick_def tick_write_back_def bindR_eq_Inr Let_def case_prod_unfold split: if_split_asm
          dest: progress_keeps)
  next
    case (Allocate tx w)
    with t q show ?thesis
      by (auto simp: GeneralCache_tick_def tick_allocate_def update_set_def bindR_eq_Inr Let_def case_prod_unfold split: if_split_asm
          dest: progress_keeps)
  next
    case (AdditionalMissPenalty n)
    with t q show ?thesis
      by (auto simp: GeneralCache_tick_def tick_miss_penalty_def bindR_eq_Inr split: if_split_asm)
  next
    case (WriteThroughCommit tx r)
    with t q show ?thesis
      by (auto simp: GeneralCache_tick_def tick_propagate_def bindR_eq_Inr split: if_split_asm dest: progress_keeps)
  next
    case (WriteAround tx r)
    with t q show ?thesis
      by (auto simp: GeneralCache_tick_def tick_propagate_def bindR_eq_Inr split: if_split_asm dest: progress_keeps)
  qed
  then show "Q m'" "cache_statistic_ok (hpm c')" by blast+
qed

lemma register_keeps:
  assumes "GeneralCache_try_register_req R try_reg r c m h = Inr (ok, c', m', h')" "Q m" "cache_statistic_ok (hpm c)"
  shows "Q m'" "cache_statistic_ok (hpm c')"
proof -
  have "Q m' \<and> cache_statistic_ok (hpm c')"
  proof (cases "ok")
    case True
    with assms(1) obtain c1 m1 h1 where
      "GeneralCache_tick R try_reg (c\<lparr>pending_req := Some r\<rparr>) m h = Inr (c1, m1, h1)"
      "GeneralCache_tick R try_reg c1 m1 h1 = Inr (c', m', h')"
      by (auto simp: GeneralCache_try_register_req_def bindR_eq_Inr split: if_split_asm)
    then show ?thesis using tick_keeps [of R "c\<lparr>pending_req := Some r\<rparr>" m h c1 m1 h1] tick_keeps [of R c1 m1 h1 c' m' h'] assms(2,3)
      by simp
  next
    case False
    with assms show ?thesis by (auto simp: GeneralCache_try_register_req_def bindR_eq_Inr split: if_split_asm)
  qed
  then show "Q m'" "cache_statistic_ok (hpm c')" by blast+
qed

lemma cached_keeps: "lower_keeps (cached_try_reg R try_reg) (\<lambda>(c, m). cache_statistic_ok (hpm c) \<and> Q m)"
  by unfold_locales (auto simp: cached_try_reg_def bindR_eq_Inr dest: register_keeps)

end

text \<open>Main memory may be anything; a cache over it keeps its counters consistent.\<close>

interpretation any_memory: lower_keeps mtry "\<lambda>_. True" for mtry :: "'m lower"
  by unfold_locales simp

interpretation any_l2: lower_keeps "cached_try_reg R mtry" "\<lambda>(c, m). cache_statistic_ok (hpm c)"
  for R :: "'rp rp_ops" and mtry :: "'m lower"
  using any_memory.cached_keeps [of R mtry] by simp

subsection \<open>Refills\<close>


end
