(* ===== verification/Pipeline_Statistics.thy ===== *)
theory Pipeline_Statistics
  imports Pipeline_Cycle Runner Cache_Statistics
begin

text \<open>
  What holds of every run, whatever the program, the configuration and the memory: the register file
  keeps its shape, and the counters of the report account for every fetched instruction and every cycle.
\<close>

subsection \<open>Accounts\<close>

text \<open>Instructions between IF and WB; bubbles do not count.\<close>

definition flying :: "'rp PipelineProcessor \<Rightarrow> nat" where
  "flying p = (if p_id_op p = None then 0 else 1) + retires (p_exe_op p) + retires (p_mem_op p) + retires (p_wb_op p)"

definition tally :: "'rp PipelineProcessor \<Rightarrow> bool" where
  "tally p \<longleftrightarrow>
     length (p_id_regs p) = 32 \<and> p_id_regs p ! 0 = 0 \<and>
     (\<forall>u. p_id_op p = Some u \<longrightarrow> \<not> op_placeholder u) \<and>
     inst_fetched (p_hpm p) = inst_retire (p_hpm p) + actual_flushed_inst_cnt (p_hpm p) + flying p \<and>
     branch_miss_cnt (p_hpm p) \<le> branch_inst_cnt (p_hpm p)"

text \<open>A pending recovery flushes IF, ID and EXE, and finds no bubble there.\<close>

definition recovery_tally :: "'rp PipelineProcessor \<Rightarrow> bool" where
  "recovery_tally p \<longleftrightarrow> (p_branch_recover p \<longrightarrow>
     p_branch_flushes p = 3 \<and> (\<forall>e. p_exe_op p = Some e \<longrightarrow> \<not> op_placeholder e))"

definition counters :: "'rp PipelineProcessor \<Rightarrow> nat \<times> nat" where
  "counters p = (total_ticked_cycle (p_hpm p), inst_retire (p_hpm p))"

lemmas stat_defs = stat_tick_def inst_fetch_def inst_ret_def solve_branch_def inst_flush_def

subsection \<open>Stages\<close>

lemma recovery_tally_ok:
  assumes "pipe_branch_recovery p = Inr p'" "tally p" "recovery_tally p"
  shows "tally p'" "\<not> p_branch_recover p'" "counters p' = counters p"
  using assms
  by (auto simp: pipe_branch_recovery_def flush_stages_def Let_def bindR_eq_Inr tally_def recovery_tally_def
      counters_def flying_def stat_defs split: if_splits option.splits)

lemma hazard_tally: "tally (pipe_normal_data_hazard_resolve p) = tally p"
  "counters (pipe_normal_data_hazard_resolve p) = counters p"
  by (auto simp: hazard_resolve tally_def flying_def counters_def retires_def forward_opt_def forward_from_def
      split: option.splits)

lemma wb_tally:
  assumes "pipe_stage_wb p = Inr p'" "tally p"
  shows "tally p'" "fst (counters p') = fst (counters p)" "snd (counters p') \<le> Suc (snd (counters p))"
    "p_branch_recover p' = p_branch_recover p"
proof -
  have z: "unat i = 0 \<longleftrightarrow> i = 0" for i :: u8 by (simp add: unat_eq_zero)
  show "tally p'" "fst (counters p') = fst (counters p)" "snd (counters p') \<le> Suc (snd (counters p))"
    "p_branch_recover p' = p_branch_recover p"
    using assms
    by (auto simp: pipe_stage_wb_def bindR_eq_Inr write_register_def upd_eq_Inr tally_def flying_def counters_def
        stat_defs is_placeholder_def nth_list_update z split: option.splits if_splits)
qed

lemma mem_finish_tally:
  assumes "p_mem_op p = Some x" "tally p"
  shows "tally (mem_finish v x p)" "counters (mem_finish v x p) = counters p"
    "p_branch_recover (mem_finish v x p) = p_branch_recover p"
  using assms by (auto simp: mem_finish_def tally_def flying_def counters_def Let_def set_writeback_value_def split: option.splits)

lemma mem_tally:
  assumes "pipe_stage_mem R mtry p m h = Inr (p', m', h')" "tally p"
  shows "tally p'" "counters p' = counters p" "p_branch_recover p' = p_branch_recover p"
proof -
  have w: "tally (p\<lparr>p_mem_transaction := t, p_dcache := dc, p_l2_cache := c2\<rparr>)" for t dc c2
    using assms(2) by (simp add: tally_def flying_def)
  from assms(1) consider "p' = p" |
    x v where "p_mem_op p = Some x" "p' = mem_finish v x p" |
    t dc c2 where "p' = p\<lparr>p_mem_transaction := t, p_dcache := dc, p_l2_cache := c2\<rparr>" |
    x v t dc c2 where "p_mem_op p = Some x" "p' = mem_finish v x (p\<lparr>p_mem_transaction := t, p_dcache := dc, p_l2_cache := c2\<rparr>)"
  proof (cases "p_mem_op p")
    case None
    with assms(1) have "p' = p" by (simp add: pipe_stage_mem_def)
    then show ?thesis by (rule that(1))
  next
    case (Some x)
    with assms(1) obtain acc where acc: "memory_access x = Inr acc"
      by (auto simp: pipe_stage_mem_def bindR_eq_Inr)
    show ?thesis
    proof (cases acc)
      case None
      with assms(1) Some acc have "p' = mem_finish None x p" by (simp add: pipe_stage_mem_def)
      with that(2) Some show ?thesis by blast
    next
      case (Some a)
      with assms(1) \<open>p_mem_op p = Some x\<close> acc obtain st t dc c2 m1 h1 where
        r: "mt_progress (cached_try_reg R (cached_try_reg R mtry)) (p_mem_transaction p) a (p_dcache p, p_l2_cache p, m) h =
           Inr (st, t, (dc, c2, m1), h1)"
        by (cases "mt_progress (cached_try_reg R (cached_try_reg R mtry)) (p_mem_transaction p) a (p_dcache p, p_l2_cache p, m) h")
          (auto simp: pipe_stage_mem_def)
      show ?thesis
        by (cases st) (use assms(1) \<open>p_mem_op p = Some x\<close> acc Some r that(3,4) in \<open>auto simp: pipe_stage_mem_def\<close>)
    qed
  qed
  then have "tally p' \<and> counters p' = counters p \<and> p_branch_recover p' = p_branch_recover p"
  proof cases
    case (2 x v)
    with mem_finish_tally [OF 2(1) assms(2)] show ?thesis by simp
  next
    case (4 x v t dc c2)
    with mem_finish_tally [OF _ w, where x = x and v = v] show ?thesis by (simp add: counters_def)
  qed (use assms(2) w in \<open>auto simp: counters_def\<close>)
  then show "tally p'" "counters p' = counters p" "p_branch_recover p' = p_branch_recover p" by blast+
qed

lemma control_flow_no_access: "is_control_flow (op_inst x) \<Longrightarrow> memory_access x = Inr None"
  by (cases "op_inst x") (auto simp: memory_access_def)

lemma executed_keeps [simp]: "op_placeholder (executed e a b) = op_placeholder e"
  by (simp add: executed_def Let_def set_writeback_value_def)

lemma resolve_branch_tally:
  assumes "resolve_branch inputs p = Inr p'"
  shows "p_id_regs p' = p_id_regs p" "p_id_op p' = p_id_op p" "p_wb_op p' = p_wb_op p" "counters p' = counters p"
    "inst_fetched (p_hpm p') = inst_fetched (p_hpm p)"
    "actual_flushed_inst_cnt (p_hpm p') = actual_flushed_inst_cnt (p_hpm p)"
    "branch_miss_cnt (p_hpm p) \<le> branch_inst_cnt (p_hpm p) \<Longrightarrow> branch_miss_cnt (p_hpm p') \<le> branch_inst_cnt (p_hpm p')"
    "p_branch_recover p' \<Longrightarrow> p_branch_recover p \<or> inputs \<noteq> None \<and> p_branch_flushes p' = 3"
  using assms
  by (auto simp: resolve_branch_def bindR_eq_Inr Let_def counters_def stat_defs split: option.splits if_splits)

lemma exe_tally:
  assumes "pipe_stage_exe p = Inr p'" "tally p" "\<not> p_branch_recover p"
  shows "tally p'" "counters p' = counters p"
    "p_branch_recover p' \<Longrightarrow> p_branch_flushes p' = 3 \<and> p_exe_op p' = None \<and>
       (\<exists>x. p_mem_op p' = Some x \<and> memory_access x = Inr None)"
proof -
  define q where "q = p\<lparr>p_int_mul_div_stall_countdown := countdown_step (p_int_mul_div_stall_countdown p)\<rparr>"
  have q: "tally q" "counters q = counters p" "\<not> p_branch_recover q"
    using assms(2,3) by (simp_all add: q_def tally_def counters_def flying_def)
  note d = assms(1) [unfolded pipe_stage_exe_def Let_def q_def [symmetric]]
  have "tally p' \<and> counters p' = counters p \<and> (p_branch_recover p' \<longrightarrow> p_branch_flushes p' = 3 \<and> p_exe_op p' = None \<and>
       (\<exists>x. p_mem_op p' = Some x \<and> memory_access x = Inr None))"
  proof (cases "p_mem_op q = None \<and> (\<exists>e. p_exe_op q = Some e \<and> \<not> is_ecall (op_inst e) \<and>
      \<not> (m_extension_stall (op_inst e) \<noteq> None \<and> p_int_mul_div_stall_countdown q = None))")
    case True
    then obtain e where e: "p_mem_op q = None" "p_exe_op q = Some e" "\<not> is_ecall (op_inst e)"
      "\<not> (m_extension_stall (op_inst e) \<noteq> None \<and> p_int_mul_div_stall_countdown q = None)" by blast
    define q1 where "q1 = (if m_extension_stall (op_inst e) \<noteq> None then q\<lparr>p_int_mul_div_stall_countdown := None\<rparr> else q)"
    have q1: "tally q1" "counters q1 = counters p" "\<not> p_branch_recover q1" "p_exe_op q1 = Some e" "p_mem_op q1 = None"
      using q e by (auto simp: q1_def tally_def counters_def flying_def)
    from d e obtain a b inputs p2 where
      r: "branch_resolution_inputs (executed e a b) = Inr inputs" "resolve_branch inputs q1 = Inr p2"
        "p' = p2\<lparr>p_mem_op := Some (executed e a b), p_exe_op := None\<rparr>"
      by (auto simp: q1_def bindR_eq_Inr)
    note s = resolve_branch_tally [OF r(2)]
    have "memory_access (executed e a b) = Inr None" if "inputs \<noteq> None"
      using r(1) that control_flow_no_access by (auto simp: branch_resolution_inputs_def split: if_splits)
    then show ?thesis using r(3) s q1 by (auto simp: tally_def counters_def flying_def)
  next
    case False
    with d q show ?thesis by (auto simp: tally_def counters_def flying_def split: option.splits if_splits)
  qed
  then show "tally p'" "counters p' = counters p"
    "p_branch_recover p' \<Longrightarrow> p_branch_flushes p' = 3 \<and> p_exe_op p' = None \<and>
       (\<exists>x. p_mem_op p' = Some x \<and> memory_access x = Inr None)" by blast+
qed

lemma decode_tally:
  assumes "pipe_stage_decode stall p = Inr p'" "tally p"
  shows "tally p'" "counters p' = counters p" "p_branch_recover p' = p_branch_recover p"
    "p_branch_flushes p' = p_branch_flushes p"
    "p_exe_op p = None \<Longrightarrow> p_exe_op p' = Some e \<Longrightarrow> \<not> op_placeholder e"
  using assms
  by (auto simp: pipe_stage_decode_def tally_def counters_def flying_def decode_keeps(5)
      split: option.splits if_splits sum.splits)

text \<open>What the request half of IF and the clocks of the caches leave alone.\<close>

definition same_core :: "'rp PipelineProcessor \<Rightarrow> 'rp PipelineProcessor \<Rightarrow> bool" where
  "same_core p p' \<longleftrightarrow>
     p_id_regs p' = p_id_regs p \<and> p_id_op p' = p_id_op p \<and> p_exe_op p' = p_exe_op p \<and> p_mem_op p' = p_mem_op p \<and>
     p_wb_op p' = p_wb_op p \<and> p_hpm p' = p_hpm p \<and> p_branch_recover p' = p_branch_recover p \<and>
     p_branch_flushes p' = p_branch_flushes p"

lemma same_core_tally:
  assumes "same_core p p'"
  shows "tally p' = tally p" "counters p' = counters p" "recovery_tally p' = recovery_tally p"
  using assms by (simp_all add: same_core_def tally_def counters_def recovery_tally_def flying_def)

lemma same_core_trans: "same_core p q \<Longrightarrow> same_core q p' \<Longrightarrow> same_core p p'"
  by (simp add: same_core_def)

lemma icache_register_core: "icache_register R mtry r p m h = Inr (ok, p', m', h') \<Longrightarrow> same_core p p'"
  by (auto simp: icache_register_def bindR_eq_Inr same_core_def)

lemma fetch_accepted_core: "fetch_accepted r p h = Inr (rd, p') \<Longrightarrow> same_core p p'"
  by (auto simp: fetch_accepted_def bindR_eq_Inr same_core_def split: if_splits)

lemma fetch_send_core:
  assumes "bindR (icache_register R mtry r p m h) (\<lambda>(ok, p1, m1, h1).
      if \<not> ok then Inr (False, F p1, m1, h1)
      else bindR (fetch_accepted r p1 h1) (\<lambda>(ready, p2). Inr (ready, p2, m1, h1))) = Inr (rd, p', m', h')"
    and F: "\<And>q. same_core q (F q)"
  shows "same_core p p'"
proof -
  from assms(1) obtain ok p1 m1 h1 where i: "icache_register R mtry r p m h = Inr (ok, p1, m1, h1)"
    "if \<not> ok then p' = F p1 else fetch_accepted r p1 h1 = Inr (rd, p')"
    by (auto simp: bindR_eq_Inr split: if_splits)
  then have "same_core p1 p'" using F fetch_accepted_core by (auto split: if_splits)
  with icache_register_core [OF i(1)] show ?thesis by (rule same_core_trans)
qed

lemma fetch_request_core:
  assumes "fetch_request R mtry p m h = Inr (rd, p', m', h')"
  shows "same_core p p'"
proof (cases "p_if_fsm p")
  case IfIdle
  obtain r h0 where r: "MemoryReqType_load (p_if_pc p) 4 h = (r, h0)" by fastforce
  show ?thesis
    by (rule fetch_send_core [of R mtry r p m h0 "\<lambda>q. q\<lparr>p_if_fsm := IfSendingReq r\<rparr>" rd p' m' h'])
      (use assms IfIdle r in \<open>simp_all add: fetch_request_def same_core_def\<close>)
next
  case (IfSendingReq r)
  show ?thesis
    by (rule fetch_send_core [of R mtry r p m h "\<lambda>q. q" rd p' m' h'])
      (use assms IfSendingReq in \<open>simp_all add: fetch_request_def same_core_def\<close>)
next
  case (IfWaitingComplete r)
  with assms show ?thesis
    by (auto simp: fetch_request_def bindR_eq_Inr same_core_def split: if_splits)
qed

lemma fetched_no_bubble:
  "\<not> op_placeholder (fetched w i pc)" "\<not> op_placeholder (fetched_branch w i pc bp)"
  by (simp_all add: fetched_def fetched_branch_def PreDecodeMicroOp_default_def)

lemma fetch_issue_tally:
  assumes "fetch_issue p = Inr p'" "tally p"
  shows "tally p'" "counters p' = counters p" "p_branch_recover p' = p_branch_recover p"
    "p_branch_flushes p' = p_branch_flushes p" "p_exe_op p' = p_exe_op p"
  using assms fetched_no_bubble
  by (auto simp: fetch_issue_def Let_def bindR_eq_Inr tally_def counters_def flying_def inst_fetch_def split: if_splits)

lemma fetch_tally:
  assumes "pipe_stage_fetch R mtry p m h = Inr (p', m', h')" "tally p"
  shows "tally p'" "counters p' = counters p" "p_branch_recover p' = p_branch_recover p"
    "p_branch_flushes p' = p_branch_flushes p" "p_exe_op p' = p_exe_op p"
proof -
  from assms(1) obtain rd p1 h1 where r: "fetch_request R mtry p m h = Inr (rd, p1, m', h')"
    "if rd then fetch_issue p1 = Inr p' else p' = p1"
    by (auto simp: pipe_stage_fetch_def bindR_eq_Inr split: if_splits)
  note c = fetch_request_core [OF r(1)]
  then have t: "tally p1" using same_core_tally(1) assms(2) by blast
  show "tally p'" "counters p' = counters p" "p_branch_recover p' = p_branch_recover p"
    "p_branch_flushes p' = p_branch_flushes p" "p_exe_op p' = p_exe_op p"
    using r(2) t same_core_tally(2) [OF c] c fetch_issue_tally [of p1 p'] by (auto simp: same_core_def split: if_splits)
qed

lemma load_use_not_ahead:
  assumes "pipe_load_use_hazard_handle p = Inr stall" "p_mem_op p = Some x" "memory_access x = Inr None"
  shows "\<not> stall"
  using assms by (auto simp: pipe_load_use_hazard_handle_def op_is_load_def split: option.splits)

lemma bubble_tally:
  assumes "insert_bubble stall p = Inr p'" "tally p"
  shows "tally p'" "counters p' = counters p" "\<not> stall \<Longrightarrow> p' = p" "p_branch_recover p' = p_branch_recover p"
  using assms placeholder_executes(1)
  by (auto simp: insert_bubble_def bindR_eq_Inr assertR_eq_Inr tally_def counters_def flying_def split: if_splits)

subsection \<open>Caches\<close>

definition caches_ok :: "'rp PipelineProcessor \<Rightarrow> bool" where
  "caches_ok p \<longleftrightarrow> cache_statistic_ok (hpm (p_icache p)) \<and> cache_statistic_ok (hpm (p_dcache p)) \<and>
     cache_statistic_ok (hpm (p_l2_cache p))"

definition same_caches :: "'rp PipelineProcessor \<Rightarrow> 'rp PipelineProcessor \<Rightarrow> bool" where
  "same_caches p p' \<longleftrightarrow> p_icache p' = p_icache p \<and> p_dcache p' = p_dcache p \<and> p_l2_cache p' = p_l2_cache p"

lemma same_caches_ok: "same_caches p p' \<Longrightarrow> caches_ok p' = caches_ok p"
  by (simp add: same_caches_def caches_ok_def)

text \<open>Only IF, MEM and the clocks reach the caches.\<close>

lemma stages_same_caches:
  "pipe_branch_recovery p = Inr p' \<Longrightarrow> same_caches p p'"
  "same_caches p (pipe_normal_data_hazard_resolve p)"
  "pipe_stage_wb p = Inr p' \<Longrightarrow> same_caches p p'"
  "pipe_stage_decode stall p = Inr p' \<Longrightarrow> same_caches p p'"
  "fetch_issue p = Inr p' \<Longrightarrow> same_caches p p'"
  "insert_bubble stall p = Inr p' \<Longrightarrow> same_caches p p'"
proof -
  show "pipe_branch_recovery p = Inr p' \<Longrightarrow> same_caches p p'"
    by (auto simp: pipe_branch_recovery_def flush_stages_def same_caches_def bindR_eq_Inr Let_def split: if_split_asm)
  show "same_caches p (pipe_normal_data_hazard_resolve p)" by (simp add: hazard_resolve same_caches_def)
  show "pipe_stage_wb p = Inr p' \<Longrightarrow> same_caches p p'"
    by (auto simp: pipe_stage_wb_def same_caches_def bindR_eq_Inr split: option.split_asm)
  show "pipe_stage_decode stall p = Inr p' \<Longrightarrow> same_caches p p'"
    by (auto simp: pipe_stage_decode_def same_caches_def split: if_split_asm option.split_asm sum.split_asm)
  show "fetch_issue p = Inr p' \<Longrightarrow> same_caches p p'"
    by (auto simp: fetch_issue_def same_caches_def bindR_eq_Inr Let_def split: if_split_asm)
  show "insert_bubble stall p = Inr p' \<Longrightarrow> same_caches p p'"
    by (auto simp: insert_bubble_def same_caches_def bindR_eq_Inr split: if_split_asm)
qed

lemma exe_same_caches: "pipe_stage_exe p = Inr p' \<Longrightarrow> same_caches p p'"
proof -
  have "same_caches q p1" if "resolve_branch inputs q = Inr p1" for inputs q p1
    using that by (auto simp: resolve_branch_def bindR_eq_Inr Let_def same_caches_def split: option.split_asm)
  then show "pipe_stage_exe p = Inr p' \<Longrightarrow> same_caches p p'"
    by (fastforce simp: pipe_stage_exe_def bindR_eq_Inr Let_def same_caches_def split: if_split_asm option.split_asm)
qed

lemma icache_register_caches:
  assumes "icache_register R mtry r p m h = Inr (ok, p', m', h')" "caches_ok p"
  shows "caches_ok p'"
  using assms any_l2.register_keeps [of R R mtry r "p_icache p" "(p_l2_cache p, m)" h]
  by (auto simp: icache_register_def bindR_eq_Inr caches_ok_def)

lemma fetch_send_caches:
  assumes "bindR (icache_register R mtry r p m h) (\<lambda>(ok, p1, m1, h1).
      if \<not> ok then Inr (False, F p1, m1, h1)
      else bindR (fetch_accepted r p1 h1) (\<lambda>(ready, p2). Inr (ready, p2, m1, h1))) = Inr (rd, p', m', h')"
    and F: "\<And>q. same_caches q (F q)" and c: "caches_ok p"
  shows "caches_ok p'"
proof -
  from assms(1) obtain ok p1 m1 h1 where i: "icache_register R mtry r p m h = Inr (ok, p1, m1, h1)"
    "if \<not> ok then p' = F p1 else fetch_accepted r p1 h1 = Inr (rd, p')"
    by (auto simp: bindR_eq_Inr split: if_splits)
  have "same_caches p1 p'"
    using i(2) F by (auto simp: fetch_accepted_def bindR_eq_Inr same_caches_def split: if_splits)
  with icache_register_caches [OF i(1) c] same_caches_ok show ?thesis by blast
qed

lemma fetch_caches:
  assumes "pipe_stage_fetch R mtry p m h = Inr (p', m', h')" and c: "caches_ok p"
  shows "caches_ok p'"
proof -
  from assms(1) obtain rd p1 where r: "fetch_request R mtry p m h = Inr (rd, p1, m', h')"
    "if rd then fetch_issue p1 = Inr p' else p' = p1"
    by (auto simp: pipe_stage_fetch_def bindR_eq_Inr split: if_splits)
  have "caches_ok p1"
  proof (cases "p_if_fsm p")
    case IfIdle
    obtain q h0 where q: "MemoryReqType_load (p_if_pc p) 4 h = (q, h0)" by fastforce
    show ?thesis
      by (rule fetch_send_caches [of R mtry q p m h0 "\<lambda>x. x\<lparr>p_if_fsm := IfSendingReq q\<rparr>" rd p1 m' h'])
        (use r(1) IfIdle q c in \<open>simp_all add: fetch_request_def same_caches_def\<close>)
  next
    case (IfSendingReq q)
    show ?thesis
      by (rule fetch_send_caches [of R mtry q p m h "\<lambda>x. x" rd p1 m' h'])
        (use r(1) IfSendingReq c in \<open>simp_all add: fetch_request_def same_caches_def\<close>)
  next
    case (IfWaitingComplete q)
    with r(1) c show ?thesis by (auto simp: fetch_request_def bindR_eq_Inr caches_ok_def split: if_splits)
  qed
  with r(2) stages_same_caches(5) same_caches_ok show ?thesis by (auto split: if_splits)
qed

lemma mt_progress_keeps:
  assumes "mt_progress try_reg t a m h = Inr (st, t', m', h')" "lower_keeps try_reg Q" "Q m"
  shows "Q m'"
proof -
  have "Q m1" if "mt_send try_reg r b m h0 = Inr (st, t1, m1, h1)" for r b h0 t1 m1 h1
    using that lower_keeps.keeps [OF assms(2)] assms(3) by (auto simp: mt_send_def bindR_eq_Inr split: if_splits)
  with assms(1,3) show ?thesis
    by (auto simp: mt_progress_def bindR_eq_Inr case_prod_unfold Let_def split: MemoryTransaction.splits if_splits)
qed

lemma mem_caches:
  assumes "pipe_stage_mem R mtry p m h = Inr (p', m', h')" and c: "caches_ok p"
  shows "caches_ok p'"
proof (cases "p_mem_op p")
  case None
  with assms show ?thesis by (simp add: pipe_stage_mem_def)
next
  case (Some x)
  with assms(1) obtain acc where acc: "memory_access x = Inr acc"
    by (auto simp: pipe_stage_mem_def bindR_eq_Inr)
  have fin: "caches_ok (mem_finish v x q) = caches_ok q" for v q
    by (simp add: mem_finish_def caches_ok_def Let_def)
  show ?thesis
  proof (cases acc)
    case None
    with assms Some acc fin show ?thesis by (auto simp: pipe_stage_mem_def)
  next
    case (Some a)
    let ?reg = "cached_try_reg R (cached_try_reg R mtry)"
    from assms(1) \<open>p_mem_op p = Some x\<close> acc Some obtain st t dc c2 m1 h1 where
      r: "mt_progress ?reg (p_mem_transaction p) a (p_dcache p, p_l2_cache p, m) h = Inr (st, t, (dc, c2, m1), h1)"
      by (cases "mt_progress ?reg (p_mem_transaction p) a (p_dcache p, p_l2_cache p, m) h") (auto simp: pipe_stage_mem_def)
    from mt_progress_keeps [OF r any_l2.cached_keeps] c have
      "cache_statistic_ok (hpm dc)" "cache_statistic_ok (hpm c2)" by (auto simp: caches_ok_def)
    with c have "caches_ok (p\<lparr>p_mem_transaction := t, p_dcache := dc, p_l2_cache := c2\<rparr>)" by (simp add: caches_ok_def)
    with assms(1) \<open>p_mem_op p = Some x\<close> acc Some r fin show ?thesis
      by (cases st) (auto simp: pipe_stage_mem_def)
  qed
qed

lemma stages_caches:
  assumes "pipe_stages R mtry p m h = Inr (p', m', h')" "caches_ok p"
  shows "caches_ok p'"
proof -
  from assms(1) obtain p1 p2 p3 m3 h3 p4 stall p5 p6 where
    d: "pipe_branch_recovery (p\<lparr>p_hpm := stat_tick (p_hpm p)\<rparr>) = Inr p1"
      "pipe_stage_wb (pipe_normal_data_hazard_resolve p1) = Inr p2"
      "pipe_stage_mem R mtry p2 m h = Inr (p3, m3, h3)" "pipe_stage_exe p3 = Inr p4"
      "pipe_stage_decode stall p4 = Inr p5"
      "pipe_stage_fetch R mtry p5 m3 h3 = Inr (p6, m', h')" "insert_bubble stall p6 = Inr p'"
    by (auto simp: pipe_stages_def bindR_eq_Inr)
  have "caches_ok p2"
    using assms(2) same_caches_ok [OF stages_same_caches(1) [OF d(1)]] same_caches_ok [OF stages_same_caches(2), of p1]
      same_caches_ok [OF stages_same_caches(3) [OF d(2)]] by (simp add: caches_ok_def)
  from mem_caches [OF d(3) this] have "caches_ok p5"
    using same_caches_ok [OF exe_same_caches [OF d(4)]] same_caches_ok [OF stages_same_caches(4) [OF d(5)]] by simp
  from fetch_caches [OF d(6) this] show ?thesis using same_caches_ok [OF stages_same_caches(6) [OF d(7)]] by simp
qed

lemma cycle_caches:
  assumes "cpu_cycle R mtry mtick p m h = Inr (p', m', h')" "caches_ok p"
  shows "caches_ok p'"
proof -
  from assms(1) obtain p1 m1 h1 ic c1 m2 h2 dc c2 m3 h3 c3 m4 h4 where
    d: "pipe_stages R mtry p m h = Inr (p1, m1, h1)"
      "GeneralCache_tick R (cached_try_reg R mtry) (p_icache p1) (p_l2_cache p1, m1) h1 = Inr (ic, (c1, m2), h2)"
      "GeneralCache_tick R (cached_try_reg R mtry) (p_dcache p1) (c1, m2) h2 = Inr (dc, (c2, m3), h3)"
      "GeneralCache_tick R mtry c2 m3 h3 = Inr (c3, m4, h4)"
      "p' = p1\<lparr>p_icache := ic, p_dcache := dc, p_l2_cache := c3\<rparr>"
    by (auto simp: cpu_cycle_def pipe_tick_def tick_icache_def tick_dcache_def tick_l2_cache_def bindR_eq_Inr)
  from stages_caches [OF d(1) assms(2)] have c: "caches_ok p1" .
  then show ?thesis
    using any_l2.tick_keeps [OF d(2)] any_l2.tick_keeps [OF d(3)] any_memory.tick_keeps [OF d(4)] d(5)
    by (simp add: caches_ok_def)
qed

subsection \<open>Cycles and runs\<close>

definition accounted :: "'rp PipelineProcessor \<Rightarrow> bool" where
  "accounted p \<longleftrightarrow> tally p \<and> recovery_tally p \<and> inst_retire (p_hpm p) \<le> total_ticked_cycle (p_hpm p)"

lemma stages_accounted:
  assumes s: "pipe_stages R mtry p m h = Inr (p', m', h')" and a: "accounted p"
  shows "accounted p'" "total_ticked_cycle (p_hpm p') = Suc (total_ticked_cycle (p_hpm p))"
proof -
  let ?p = "p\<lparr>p_hpm := stat_tick (p_hpm p)\<rparr>"
  from s obtain p1 p2 p3 m3 h3 p4 stall p5 p6 where
    d: "pipe_branch_recovery ?p = Inr p1" "pipe_stage_wb (pipe_normal_data_hazard_resolve p1) = Inr p2"
      "pipe_stage_mem R mtry p2 m h = Inr (p3, m3, h3)" "pipe_stage_exe p3 = Inr p4"
      "pipe_load_use_hazard_handle p4 = Inr stall" "pipe_stage_decode stall p4 = Inr p5"
      "pipe_stage_fetch R mtry p5 m3 h3 = Inr (p6, m', h')" "insert_bubble stall p6 = Inr p'"
    by (auto simp: pipe_stages_def bindR_eq_Inr)
  have t0: "tally ?p" "recovery_tally ?p" "counters ?p = (Suc (total_ticked_cycle (p_hpm p)), inst_retire (p_hpm p))"
    using a by (simp_all add: accounted_def tally_def recovery_tally_def flying_def counters_def stat_tick_def)
  note t1 = recovery_tally_ok [OF d(1) t0(1,2)]
  have t1': "tally (pipe_normal_data_hazard_resolve p1)" "\<not> p_branch_recover (pipe_normal_data_hazard_resolve p1)"
    using t1 hazard_tally(1) by (auto simp: hazard_resolve)
  note t2 = wb_tally [OF d(2) t1'(1)] and t3 = mem_tally [OF d(3)]
  have r3: "tally p3" "\<not> p_branch_recover p3" using t3 t2 t1'(2) by auto
  note t4 = exe_tally [OF d(4) r3]
  note t5 = decode_tally [OF d(6) t4(1)]
  note t6 = fetch_tally [OF d(7) t5(1)]
  note t7 = bubble_tally [OF d(8) t6(1)]
  have c: "fst (counters p') = Suc (total_ticked_cycle (p_hpm p))" "snd (counters p') \<le> Suc (inst_retire (p_hpm p))"
    using t0(3) t1(3) hazard_tally(2) [of p1] t2(1-3) t3(2) t4(2) t5(2) t6(2) t7(2) by auto
  show "total_ticked_cycle (p_hpm p') = Suc (total_ticked_cycle (p_hpm p))" using c(1) by (simp add: counters_def)
  have "recovery_tally p'"
    unfolding recovery_tally_def
  proof
    assume "p_branch_recover p'"
    then have r: "p_branch_recover p4" using t5(3) t6(3) t7(4) by simp
    from t4(3) [OF r] load_use_not_ahead [OF d(5)] have "\<not> stall" by auto
    then have "p' = p6" using t7(3) by blast
    then show "p_branch_flushes p' = 3 \<and> (\<forall>e. p_exe_op p' = Some e \<longrightarrow> \<not> op_placeholder e)"
      using t4(3) [OF r] t5(4,5) t6(4,5) by auto
  qed
  with c a t7(1) show "accounted p'" by (simp add: accounted_def counters_def)
qed

lemma cycle_accounted:
  assumes s: "cpu_cycle R mtry mtick p m h = Inr (p', m', h')" and a: "accounted p"
  shows "accounted p'" "total_ticked_cycle (p_hpm p') = Suc (total_ticked_cycle (p_hpm p))"
proof -
  from s obtain p1 m1 h1 where d: "pipe_stages R mtry p m h = Inr (p1, m1, h1)" "same_core p1 p'"
    by (auto simp: cpu_cycle_def pipe_tick_def tick_icache_def tick_dcache_def tick_l2_cache_def bindR_eq_Inr same_core_def)
  note t = stages_accounted [OF d(1) a] same_core_tally [OF d(2)]
  show "accounted p'" "total_ticked_cycle (p_hpm p') = Suc (total_ticked_cycle (p_hpm p))"
    using t d(2) by (auto simp: accounted_def same_core_def)
qed

lemma run_cpu_cycle:
  "run_cpu R mtry mtick (Suc fuel) p m h =
     (if p_halt p then Inr (Some (p, m, h))
      else bindR (cpu_cycle R mtry mtick p m h) (\<lambda>(p', m', h'). run_cpu R mtry mtick fuel p' m' h'))"
  by (auto simp: run_cpu.simps [of _ _ _ "Suc fuel"] cpu_cycle_def bindR_def split: sum.splits prod.splits)

lemma run_cpu_accounted:
  "run_cpu R mtry mtick fuel p m h = Inr (Some (p', m', h')) \<Longrightarrow> accounted p \<Longrightarrow> caches_ok p \<Longrightarrow>
   accounted p' \<and> caches_ok p'"
proof (induction fuel arbitrary: p m h)
  case 0
  then show ?case by (auto simp: run_cpu.simps split: if_splits)
next
  case (Suc fuel)
  then show ?case using cycle_accounted(1) [of R mtry mtick p m h] cycle_caches [of R mtry mtick p m h]
    by (auto simp: run_cpu_cycle bindR_eq_Inr split: if_splits)
qed

lemma new_caches: "new_with_predictor R entry g1 g2 g3 bp = Inr p \<Longrightarrow> caches_ok p"
  by (auto simp: new_with_predictor_def bindR_eq_Inr caches_ok_def GeneralCache_new_def Let_def)

lemma new_accounted: "new_with_predictor R entry g1 g2 g3 bp = Inr p \<Longrightarrow> accounted p"
  by (auto simp: new_with_predictor_def bindR_eq_Inr accounted_def tally_def recovery_tally_def flying_def
      StatisticInfo_default_def)

subsection \<open>Reports\<close>

definition report_ok :: "SimulationReport \<Rightarrow> bool" where
  "report_ok rep \<longleftrightarrow>
     (let s = rep_pipeline rep in
      length (rep_final_registers rep) = 32 \<and> rep_final_registers rep ! 0 = 0 \<and>
      inst_retire s + actual_flushed_inst_cnt s \<le> inst_fetched s \<and>
      inst_fetched s \<le> inst_retire s + actual_flushed_inst_cnt s + 4 \<and>
      inst_retire s \<le> total_ticked_cycle s \<and> branch_miss_cnt s \<le> branch_inst_cnt s \<and>
      ipc s = safe_ratio (inst_retire s) (total_ticked_cycle s) \<and>
      branch_miss_rate s = safe_ratio (branch_miss_cnt s) (branch_inst_cnt s)) \<and>
     list_all (\<lambda>s. cache_statistic_ok s \<and> s = finalize_rates s) [rep_l1i rep, rep_l1d rep, rep_l2 rep]"

lemma flying_le: "flying p \<le> 4"
  unfolding flying_def
  using retires_cases [of "p_exe_op p"] retires_cases [of "p_mem_op p"] retires_cases [of "p_wb_op p"] by auto

lemma final_report_ok: "accounted p \<Longrightarrow> caches_ok p \<Longrightarrow> report_ok (final_report r p)"
  using flying_le [of p]
  by (simp add: report_ok_def final_report_def get_statistic_info_def StatisticInfo_finalize_rates_def
      accounted_def tally_def caches_ok_def GeneralCache_statistic_info_def finalize_rates_def cache_statistic_ok_def)

lemma run_with_memory_report:
  assumes "run_with_memory R mtry mtick fuel entry m config f = Inr (Some (Inr rep))"
  shows "report_ok rep"
proof -
  from assms obtain g1 g2 g3 cpu p' m' h' where
    r: "new_with_predictor R entry g1 g2 g3 (BranchPredictorKind_build (sc_branch_predictor config)) = Inr cpu"
    "run_cpu R mtry mtick fuel cpu m [] = Inr (Some (p', m', h'))" "rep = final_report (f m') p'"
    by (auto simp: run_with_memory_def bindR_eq_Inr split: sum.splits prod.splits option.splits)
  then show ?thesis
    using run_cpu_accounted [OF r(2) new_accounted [OF r(1)] new_caches [OF r(1)]] by (simp add: final_report_ok)
qed

lemma run_with_policy_report:
  "run_with_policy R fuel entry body config = Inr (Some (Inr rep)) \<Longrightarrow> report_ok rep"
  by (auto simp: run_with_policy_def bindR_eq_Inr split: BackingMemoryKind.splits intro: run_with_memory_report)

lemma run_report:
  "run random_range gen fuel prog config = Inr (Some (Inr rep)) \<Longrightarrow> report_ok rep"
  by (auto simp: run_def split: ReplacementPolicyKind.splits intro: run_with_policy_report)

end
