(* ===== verification/Pipeline_Correct.thy ===== *)
theory Pipeline_Correct
  imports Pipeline_Statistics
begin

text \<open>
  The simulator executes programs.  A run of the pipeline over its caches and either main memory
  never panics on a program that the reference machine executes, and when it halts its registers and its
  count of retired instructions are those of the reference machine at the halting environment call.
\<close>

subsection \<open>Counting steps of the reference machine\<close>

lemma isa_steps_add:
  "isa_steps lo hi (m + n) A = (case isa_steps lo hi m A of None \<Rightarrow> None | Some B \<Rightarrow> isa_steps lo hi n B)"
  by (induction m arbitrary: A) (auto split: option.splits)

lemma isa_steps_less: "isa_steps lo hi n A \<noteq> None \<Longrightarrow> k \<le> n \<Longrightarrow> isa_steps lo hi k A \<noteq> None"
  using isa_steps_add [of lo hi k "n - k" A] by (auto split: option.splits)

lemma isa_steps_Suc:
  "isa_steps lo hi (Suc n) A = (case isa_steps lo hi n A of None \<Rightarrow> None | Some B \<Rightarrow> isa_step lo hi B)"
  using isa_steps_add [of lo hi n 1 A] by (auto split: option.splits)

declare isa_steps.simps(2) [simp del]

text \<open>Every stage is at most one step.\<close>

lemma wb_stage_steps:
  assumes "wb_stage lo hi wb N G" "isa_steps lo hi n A = Some N"
  shows "isa_steps lo hi (n + retires wb) A = Some G"
  using assms
  by (auto simp: wb_stage_def stands_for_def retires_def isa_steps_Suc split: option.splits if_splits)

lemma mem_stage_steps:
  assumes "mem_stage lo hi mem G H" "isa_steps lo hi n A = Some G"
  shows "isa_steps lo hi (n + retires mem) A = Some H"
  using assms
  by (auto simp: mem_stage_def stands_for_def retires_def isa_steps_Suc split: option.splits if_splits)

lemma retires_le: "retires z \<le> 1"
  by (simp add: retires_def split: option.splits)

text \<open>
  The program halts at step \<open>k\<close>: the first environment call with a zero in register 10.  The
  pipeline looks at most three instructions past it before it stops, so these must be executable too.
\<close>

definition halts_at :: "nat \<Rightarrow> nat \<Rightarrow> Arch \<Rightarrow> nat \<Rightarrow> Arch \<Rightarrow> bool" where
  "halts_at lo hi A k A' \<longleftrightarrow>
     isa_steps lo hi k A = Some A' \<and> isa_halts A' \<and> isa_steps lo hi (k + 3) A \<noteq> None \<and>
     (\<forall>j<k. \<forall>B. isa_steps lo hi j A = Some B \<longrightarrow> \<not> isa_halts B)"

lemma ecall_step: "isa_step lo hi A = Some A' \<Longrightarrow> isa_halts A \<Longrightarrow> isa_regs A' = isa_regs A"
  by (auto simp: isa_step_def isa_halts_def isa_exec_def isa_advance_def split: if_splits)

text \<open>The state in which the simulator starts.\<close>

definition boot :: "u32 \<Rightarrow> u8 list \<Rightarrow> Arch" where
  "boot entry body = \<lparr>isa_pc = entry, isa_regs = replicate 32 0, isa_mem = body\<rparr>"

context processor
begin

lemma step_defined:
  assumes i: "cpu_inv lo hi img N G H p m h" and n: "isa_steps lo hi n A = Some N"
    and k: "isa_steps lo hi (k + 3) A \<noteq> None" "n \<le> k"
  shows "isa_step lo hi H \<noteq> None"
proof -
  have s: "wb_stage lo hi (p_wb_op p) N G" "mem_stage lo hi (p_mem_op p) G H"
    using i by (auto simp: cpu_inv_def dest: pipe_invD)
  let ?n = "n + retires (p_wb_op p) + retires (p_mem_op p)"
  have "isa_steps lo hi ?n A = Some H" by (rule mem_stage_steps [OF s(2) wb_stage_steps [OF s(1) n]])
  moreover have "Suc ?n \<le> k + 3" using k(2) retires_le [of "p_wb_op p"] retires_le [of "p_mem_op p"] by simp
  ultimately show ?thesis using isa_steps_less [OF k(1), of "Suc ?n"] by (simp add: isa_steps_Suc)
qed

text \<open>The instruction that retires is the one the reference machine executes next.\<close>

lemma halting_op:
  assumes "wb_stage lo hi wb N G"
  shows "(\<exists>x. wb = Some x \<and> is_ecall (op_inst x) \<and> isa_regs N ! 10 = 0) \<longleftrightarrow> retires wb = 1 \<and> isa_halts N"
  using assms placeholder_executes(2)
  by (auto simp: wb_stage_def stands_for_def retires_def isa_halts_def split: option.splits if_splits)

text \<open>
  One cycle of a program that halts at step \<open>k\<close>: it ends the run, retires an instruction, or brings the
  next one closer.
\<close>

lemma cycle_refines:
  assumes c: "code_ok lo hi img" and k: "halts_at lo hi A k A'" and i: "cpu_inv lo hi img N G H p m h"
    and n: "isa_steps lo hi (inst_retire (p_hpm p)) A = Some N" "inst_retire (p_hpm p) \<le> k" "\<not> p_halt p"
  shows "\<exists>p' m' h' G' H'. cpu_cycle R mtry mtick p m h = Inr (p', m', h') \<and> cpu_inv lo hi img G G' H' p' m' h' \<and>
    isa_steps lo hi (inst_retire (p_hpm p')) A = Some G \<and>
    (if p_halt p' then p_id_regs p' = isa_regs A' \<and> inst_retire (p_hpm p') = Suc k
     else inst_retire (p_hpm p') \<le> k \<and>
       (inst_retire (p_hpm p') = inst_retire (p_hpm p) \<longrightarrow> ((p', m'), (p, m)) \<in> waiting) \<and>
       inst_retire (p_hpm p) \<le> inst_retire (p_hpm p'))"
proof -
  let ?n = "inst_retire (p_hpm p)"
  have kd: "isa_steps lo hi k A = Some A'" "isa_halts A'" "isa_steps lo hi (k + 3) A \<noteq> None"
    "\<And>j B. j < k \<Longrightarrow> isa_steps lo hi j A = Some B \<Longrightarrow> \<not> isa_halts B" using k by (auto simp: halts_at_def)
  from cycle_ok [OF i c step_defined [OF i n(1) kd(3) n(2)]] obtain p' m' h' G' H' where
    s: "cpu_cycle R mtry mtick p m h = Inr (p', m', h')" "cpu_inv lo hi img G G' H' p' m' h'"
      "inst_retire (p_hpm p') = ?n + retires (p_wb_op p)"
      "p_halt p' = (p_halt p \<or> (\<exists>x. p_wb_op p = Some x \<and> is_ecall (op_inst x) \<and> isa_regs N ! 10 = 0))"
      "retires (p_wb_op p) = 0 \<longrightarrow> ((p', m'), (p, m)) \<in> waiting" by (elim exE conjE) (rule that)
  have wb: "wb_stage lo hi (p_wb_op p) N G" using i by (auto simp: cpu_inv_def dest: pipe_invD)
  have G: "isa_steps lo hi (inst_retire (p_hpm p')) A = Some G"
    using wb_stage_steps [OF wb n(1)] s(3) by simp
  have halt: "p_halt p' \<longleftrightarrow> retires (p_wb_op p) = 1 \<and> isa_halts N"
    using s(4) n(3) halting_op [OF wb] by simp
  have "p_id_regs p' = isa_regs A' \<and> inst_retire (p_hpm p') = Suc k" if "p_halt p'"
  proof -
    have r: "retires (p_wb_op p) = 1" "isa_halts N" using halt that by auto
    then have e: "?n = k" using kd(4) [of ?n N] n(1,2) by fastforce
    then have "N = A'" using kd(1) n(1) by simp
    moreover have "isa_step lo hi N = Some G" using G s(3) r(1) n(1) by (simp add: isa_steps_Suc)
    ultimately have "isa_regs G = isa_regs A'" using ecall_step r(2) by blast
    moreover have "p_id_regs p' = isa_regs G" using s(2) by (auto simp: cpu_inv_def dest: pipe_invD)
    ultimately show ?thesis using s(3) r(1) e by simp
  qed
  moreover have "inst_retire (p_hpm p') \<le> k" if "\<not> p_halt p'"
  proof (cases "?n = k")
    case True
    then have "N = A'" using kd(1) n(1) by simp
    with that halt kd(2) retires_le [of "p_wb_op p"] have "retires (p_wb_op p) = 0" by auto
    with True s(3) show ?thesis by simp
  next
    case False
    with n(2) s(3) retires_le [of "p_wb_op p"] show ?thesis by simp
  qed
  ultimately show ?thesis using s G
    by (intro exI [of _ p'] exI [of _ m'] exI [of _ h'] exI [of _ G'] exI [of _ H']) auto
qed

text \<open>The run takes a fixed number of cycles; with less fuel it is still going.\<close>

definition run_order :: "nat \<Rightarrow> (('rp PipelineProcessor \<times> 'm) \<times> ('rp PipelineProcessor \<times> 'm)) set" where
  "run_order k = inv_image (less_than <*lex*> waiting) (\<lambda>(p, m). (k - inst_retire (p_hpm p), (p, m)))"

lemma run_order_wf: "wf (run_order k)"
  unfolding run_order_def using waiting_wf by (intro wf_inv_image wf_lex_prod) auto

theorem run_cpu_total:
  assumes c: "code_ok lo hi img" and k: "halts_at lo hi A k A'"
  shows "cpu_inv lo hi img N G H p m h \<Longrightarrow> isa_steps lo hi (inst_retire (p_hpm p)) A = Some N \<Longrightarrow>
    inst_retire (p_hpm p) \<le> k \<Longrightarrow> \<not> p_halt p \<Longrightarrow> accounted p \<Longrightarrow>
    \<exists>cycles p' m' h'. p_id_regs p' = isa_regs A' \<and> inst_retire (p_hpm p') = Suc k \<and>
      total_ticked_cycle (p_hpm p') = total_ticked_cycle (p_hpm p) + cycles \<and>
      (\<forall>fuel. run_cpu R mtry mtick fuel p m h = Inr (if fuel < cycles then None else Some (p', m', h')))"
proof (induction "(p, m)" arbitrary: N G H p m h rule: wf_induct_rule [OF run_order_wf [of k]])
  case 1
  from cycle_refines [OF c k 1(2-5)] obtain p1 m1 h1 G1 H1 where
    s: "cpu_cycle R mtry mtick p m h = Inr (p1, m1, h1)" "cpu_inv lo hi img G G1 H1 p1 m1 h1"
      "isa_steps lo hi (inst_retire (p_hpm p1)) A = Some G"
      "if p_halt p1 then p_id_regs p1 = isa_regs A' \<and> inst_retire (p_hpm p1) = Suc k
       else inst_retire (p_hpm p1) \<le> k \<and>
         (inst_retire (p_hpm p1) = inst_retire (p_hpm p) \<longrightarrow> ((p1, m1), (p, m)) \<in> waiting) \<and>
         inst_retire (p_hpm p) \<le> inst_retire (p_hpm p1)" by blast
  note t = cycle_accounted [OF s(1) 1(6)]
  have "\<exists>cycles p' m' h'. p_id_regs p' = isa_regs A' \<and> inst_retire (p_hpm p') = Suc k \<and>
      total_ticked_cycle (p_hpm p') = total_ticked_cycle (p_hpm p1) + cycles \<and>
      (\<forall>fuel. run_cpu R mtry mtick fuel p1 m1 h1 = Inr (if fuel < cycles then None else Some (p', m', h')))"
  proof (cases "p_halt p1")
    case True
    then have "run_cpu R mtry mtick fuel p1 m1 h1 = Inr (if fuel < 0 then None else Some (p1, m1, h1))" for fuel
      by (simp add: run_cpu.simps)
    with True s(4) show ?thesis by (intro exI [of _ 0] exI [of _ p1]) auto
  next
    case False
    then have "((p1, m1), (p, m)) \<in> run_order k" using s(4) 1(4) by (auto simp: run_order_def)
    from 1(1) [OF this s(2,3)] s(4) False t(1) show ?thesis by auto
  qed
  then obtain cycles p' m' h' where r: "p_id_regs p' = isa_regs A'" "inst_retire (p_hpm p') = Suc k"
    "total_ticked_cycle (p_hpm p') = total_ticked_cycle (p_hpm p1) + cycles"
    "\<And>fuel. run_cpu R mtry mtick fuel p1 m1 h1 = Inr (if fuel < cycles then None else Some (p', m', h'))" by blast
  have "run_cpu R mtry mtick fuel p m h = Inr (if fuel < Suc cycles then None else Some (p', m', h'))" for fuel
    using 1(5) s(1) r(4) by (cases fuel) (simp_all add: run_cpu.simps [of _ _ _ 0] run_cpu_cycle)
  moreover have "total_ticked_cycle (p_hpm p') = total_ticked_cycle (p_hpm p) + Suc cycles" using r(3) t(2) by simp
  ultimately show ?case using r(1,2) by blast
qed

subsection \<open>A new processor\<close>

lemma new_cpu:
  assumes m: "minv m []" "mpending m = None" and hi: "hi \<le> length (mcontents m)"
    and g: "usable_config ways_ok (mmax_len m) (length (mcontents m)) g3"
      "usable_config ways_ok (geo_block_size (cfg_geometry g3)) (length (mcontents m)) g1"
      "usable_config ways_ok (geo_block_size (cfg_geometry g3)) (length (mcontents m)) g2"
    and b: "4 \<le> geo_block_size (cfg_geometry g1)" "4 \<le> geo_block_size (cfg_geometry g2)"
    and bp: "predictor_target bp = Map.empty"
  shows "\<exists>cpu. new_with_predictor R entry g1 g2 g3 bp = Inr cpu \<and>
    (let A = boot entry (mcontents m) in cpu_inv lo hi (mcontents m) A A A cpu m []) \<and>
    inst_retire (p_hpm cpu) = 0 \<and> total_ticked_cycle (p_hpm cpu) = 0 \<and> \<not> p_halt cpu"
proof -
  let ?img = "mcontents m"
  from l2.new_cache_inv [OF g(1) m] obtain c2 where
    c2: "GeneralCache_new R g3 = Inr c2" "l2.cinv c2 m []" "caller c2 = None" "view c2 ?img = ?img"
      "blk_bytes c2 = geo_block_size (cfg_geometry g3)" by blast
  have s: "cached_contents mcontents (c2, m) = ?img" "cached_max_len (c2, m) = geo_block_size (cfg_geometry g3)"
    "cached_pending (c2, m) = None"
    using c2 by (simp_all add: cached_contents_def cached_max_len_def cached_pending_def)
  have K: "{lo..<hi} \<subseteq> {..<length ?img}" using hi by auto
  from split.sys_new [of "(c2, m)" g1 g2 "{lo..<hi}"] g(2,3) c2(2) s K obtain ic dc where
    n: "GeneralCache_new R g1 = Inr ic" "GeneralCache_new R g2 = Inr dc"
      "split.sys {lo..<hi} ?img ?img None Free ic dc (c2, m) []"
      "blk_bytes ic = geo_block_size (cfg_geometry g1)" "blk_bytes dc = geo_block_size (cfg_geometry g2)" by auto
  define cpu where "cpu = \<lparr>p_halt = False, p_if_pc = entry, p_if_raw_inst_buffer = None,
          p_branch_predictor = bp, p_id_regs = replicate 32 0,
          p_id_op = None, p_exe_op = None, p_mem_op = None, p_wb_op = None,
          p_if_fsm = IfIdle, p_mem_transaction = MtIdle,
          p_branch_recover = False, p_branch_correct_direction = False,
          p_branch_destination = 0, p_branch_flushes = 0,
          p_int_mul_div_stall_countdown = None,
          p_icache = ic, p_dcache = dc, p_l2_cache = c2, p_hpm = StatisticInfo_default\<rparr>"
  have "new_with_predictor R entry g1 g2 g3 bp = Inr cpu"
    using n(1,2) c2(1) by (simp add: new_with_predictor_def cpu_def)
  moreover have "pipe_inv lo hi ?img (boot entry ?img) (boot entry ?img) (boot entry ?img) cpu"
    using bp by (simp add: pipe_inv_def cpu_def boot_def regs_wf_def keeps_code_def wb_stage_def mem_stage_def
        predictor_ok_def front_def exe_stage_def id_stage_def)
  moreover have "fetch_link Free cpu" "mem_link None (p_mem_transaction cpu) (p_mem_op cpu)"
    by (simp_all add: fetch_link_def mem_link_def cpu_def)
  moreover have "psys lo hi ?img (isa_mem (boot entry ?img)) None Free cpu m []"
    using n(3-5) b by (simp add: cpu_def boot_def)
  ultimately show ?thesis
    unfolding cpu_inv_def Let_def by (intro exI [of _ cpu]) (auto simp: cpu_def StatisticInfo_default_def)
qed

lemma build_no_targets: "predictor_target (BranchPredictorKind_build b) = Map.empty"
  by (cases b) (auto simp: predictor_target_Dummy predictor_target_Bimodal bimodal_target_def BimodalPredictor_new_def)

lemma run_with_memory_total:
  assumes g: "cache_configs config = Inr (g1, g2, g3)" and m: "minv m []" "mpending m = None" "mcontents m = body"
    and u: "usable_config ways_ok (mmax_len m) (length body) g3"
      "usable_config ways_ok (geo_block_size (cfg_geometry g3)) (length body) g1"
      "usable_config ways_ok (geo_block_size (cfg_geometry g3)) (length body) g2"
      "4 \<le> geo_block_size (cfg_geometry g1)" "4 \<le> geo_block_size (cfg_geometry g2)"
    and c: "code_ok lo hi body" and k: "halts_at lo hi (boot entry body) k A'"
  shows "\<exists>cycles rep. rep_final_registers rep = isa_regs A' \<and> inst_retire (rep_pipeline rep) = Suc k \<and>
    total_ticked_cycle (rep_pipeline rep) = cycles \<and>
    (\<forall>fuel. run_with_memory R mtry mtick fuel entry m config f =
       Inr (if fuel < cycles then None else Some (Inr rep)))"
proof -
  have "hi \<le> length (mcontents m)" using c m(3) by (simp add: code_ok_def)
  from new_cpu [OF m(1,2) this, of g3 g1 g2 "BranchPredictorKind_build (sc_branch_predictor config)" entry lo] u m(3)
  obtain cpu where n: "new_with_predictor R entry g1 g2 g3 (BranchPredictorKind_build (sc_branch_predictor config)) = Inr cpu"
    "cpu_inv lo hi body (boot entry body) (boot entry body) (boot entry body) cpu m []"
    "inst_retire (p_hpm cpu) = 0" "total_ticked_cycle (p_hpm cpu) = 0" "\<not> p_halt cpu" by (auto simp: build_no_targets Let_def)
  from run_cpu_total [OF c k n(2)] n(3-5) new_accounted [OF n(1)] obtain cycles p' m' h' where
    r: "p_id_regs p' = isa_regs A'" "inst_retire (p_hpm p') = Suc k" "total_ticked_cycle (p_hpm p') = cycles"
      "\<And>fuel. run_cpu R mtry mtick fuel cpu m [] = Inr (if fuel < cycles then None else Some (p', m', h'))" by auto
  let ?rep = "final_report (f m') p'"
  have "run_with_memory R mtry mtick fuel entry m config f = Inr (if fuel < cycles then None else Some (Inr ?rep))" for fuel
    using g n(1) r(4) by (simp add: run_with_memory_def)
  moreover have "rep_final_registers ?rep = isa_regs A' \<and> inst_retire (rep_pipeline ?rep) = Suc k \<and>
      total_ticked_cycle (rep_pipeline ?rep) = cycles"
    using r(1-3) by (simp add: final_report_def get_statistic_info_def StatisticInfo_finalize_rates_def)
  ultimately show ?thesis by blast
qed

end

subsection \<open>The processor over the memories and policies of the simulator\<close>

interpretation fifo_simple_cpu: processor SimpleMem_try_register_req SimpleMem_tick SimpleMem_inv
  sm_pending_req sm_data "\<lambda>_. {}" sm_stall_countdown "\<lambda>_. MAIN_MEM_LATENCY" "\<lambda>_. MEM_SIZE"
  fifo_ops "\<lambda>n. 0 < n" FifoRP_inv "\<lambda>s. bits_valid (ff_valid s)" ..

interpretation plru_simple_cpu: processor SimpleMem_try_register_req SimpleMem_tick SimpleMem_inv
  sm_pending_req sm_data "\<lambda>_. {}" sm_stall_countdown "\<lambda>_. MAIN_MEM_LATENCY" "\<lambda>_. MEM_SIZE"
  plru_ops is_power_of_two PseudoLruRP_inv "\<lambda>s. bits_valid (plru_valid s)" ..

interpretation fifo_dram_cpu: processor SimpleDram_try_register_req SimpleDram_tick SimpleDram_inv
  dram_pending_req dram_data "\<lambda>_. {}" dram_wait dram_max_wait "\<lambda>d. length (dram_data d)"
  fifo_ops "\<lambda>n. 0 < n" FifoRP_inv "\<lambda>s. bits_valid (ff_valid s)" ..

interpretation plru_dram_cpu: processor SimpleDram_try_register_req SimpleDram_tick SimpleDram_inv
  dram_pending_req dram_data "\<lambda>_. {}" dram_wait dram_max_wait "\<lambda>d. length (dram_data d)"
  plru_ops is_power_of_two PseudoLruRP_inv "\<lambda>s. bits_valid (plru_valid s)" ..

subsection \<open>Whole runs\<close>

text \<open>
  Configurations for which a run is correct: the caches are transparent (no write-back without
  write-allocate, no prefetch), hold words, nest, and cover the memory in whole blocks; the DRAM
  timing passes its assertion.
\<close>

definition usable_simulation :: "nat \<Rightarrow> SimulationConfig \<Rightarrow> bool" where
  "usable_simulation sz c \<longleftrightarrow>
     sc_write_policy c \<noteq> WriteBackNoWriteAllocate \<and>
     sc_prefetcher_kind c = PrefetchNull \<and>
     4 \<le> lv_block_size (sc_l1i c) \<and> lv_block_size (sc_l1i c) \<le> lv_block_size (sc_l2 c) \<and>
     4 \<le> lv_block_size (sc_l1d c) \<and> lv_block_size (sc_l1d c) \<le> lv_block_size (sc_l2 c) \<and>
     lv_block_size (sc_l2 c) dvd sz \<and> 0 < sz \<and> sz \<le> 2 ^ 32 \<and>
     list_all (\<lambda>lv. lv_total_size lv div lv_num_of_way lv < 2 ^ 32) [sc_l1i c, sc_l1d c, sc_l2 c] \<and>
     (case sc_backing_memory c of
        BmSimpleMem \<Rightarrow> sz \<le> MEM_SIZE
      | BmSimpleDram t \<Rightarrow> 1 \<le> t_rcd t \<and> 1 \<le> t_cl t \<and> 1 \<le> t_rp t)"

lemma level_usable:
  assumes g: "level_config c lv level = Inr g" and w: "ways_ok (lv_num_of_way lv)"
    and u: "4 \<le> lv_block_size lv" "lv_block_size lv \<le> ml" "lv_block_size lv dvd sz" "sz \<le> 2 ^ 32"
      "lv_total_size lv div lv_num_of_way lv < 2 ^ 32"
      "sc_write_policy c \<noteq> WriteBackNoWriteAllocate" "sc_prefetcher_kind c = PrefetchNull"
  shows "usable_config ways_ok ml sz g" "geo_block_size (cfg_geometry g) = lv_block_size lv"
proof -
  from g have geo: "geometry_ok (lv_total_size lv) (lv_block_size lv) (lv_num_of_way lv) (cfg_geometry g)"
    and f: "cfg_write_policy g = sc_write_policy c" "cfg_prefetcher_kind g = sc_prefetcher_kind c"
    unfolding level_config_Inr_iff by (metis GeneralCacheConfig.select_convs)+
  let ?o = "geo_offset_bit_width (cfg_geometry g)" and ?i = "geo_index_bit_width (cfg_geometry g)"
  have e: "2 ^ ?o = lv_block_size lv" "2 ^ ?i = geo_num_sets (cfg_geometry g)" "0 < lv_num_of_way lv"
    "lv_total_size lv = geo_num_sets (cfg_geometry g) * lv_num_of_way lv * lv_block_size lv"
    using geo by (auto simp: geometry_ok_def)
  have "lv_total_size lv div lv_num_of_way lv = 2 ^ (?o + ?i)"
    using e by (simp add: power_add e(1,2) mult.assoc mult.left_commute [of "lv_num_of_way lv"])
  then have "(2::nat) ^ (?o + ?i) < 2 ^ 32" using u(5) by simp
  then have b: "?o + ?i < 32" using power_less_imp_less_exp by (metis one_less_numeral_iff semiring_norm(76))
  moreover have "0 < ?o" using e(1) u(1) by (cases ?o) auto
  moreover show "geo_block_size (cfg_geometry g) = lv_block_size lv" using geo by (simp add: geometry_ok_def)
  moreover have "\<exists>t b w. CacheGeometry_new t b w = Inr (cfg_geometry g)" using geo CacheGeometry_accept_iff by blast
  ultimately show "usable_config ways_ok ml sz g"
    using w u f geo unfolding usable_config_def Let_def by (auto simp: geometry_ok_def)
qed

lemma levels_usable:
  assumes g: "cache_configs c = Inr (g1, g2, g3)" and u: "usable_simulation sz c"
    and w: "\<And>n. 0 < n \<Longrightarrow> (sc_replacement_policy c = RpPlru \<longrightarrow> is_power_of_two n) \<Longrightarrow> ways_ok n"
    and ml: "sz \<le> ml"
  shows "usable_config ways_ok ml sz g3" "usable_config ways_ok (geo_block_size (cfg_geometry g3)) sz g1"
    "usable_config ways_ok (geo_block_size (cfg_geometry g3)) sz g2"
    "4 \<le> geo_block_size (cfg_geometry g1)" "4 \<le> geo_block_size (cfg_geometry g2)"
proof -
  note d = u [unfolded usable_simulation_def]
  from g have lv: "level_config c (sc_l1i c) ''L1-I$'' = Inr g1" "level_config c (sc_l1d c) ''L1-D$'' = Inr g2"
    "level_config c (sc_l2 c) ''L2$'' = Inr g3"
    and v: "validate_replacement_policy c = Inr ()" unfolding cache_configs_Inr_iff by auto
  have geo: "geometry_ok (lv_total_size l) (lv_block_size l) (lv_num_of_way l) (cfg_geometry g)"
    if "level_config c l s = Inr g" for l s g using that unfolding level_config_Inr_iff by blast
  have ways: "ways_ok (lv_num_of_way (sc_l1i c))" "ways_ok (lv_num_of_way (sc_l1d c))" "ways_ok (lv_num_of_way (sc_l2 c))"
    using w v geo [OF lv(1)] geo [OF lv(2)] geo [OF lv(3)] unfolding validate_Inr_iff by (auto simp: geometry_ok_def)
  have pow: "\<exists>k. lv_block_size l = 2 ^ k" if "level_config c l s = Inr g" for l s g
    using geo [OF that] unfolding geometry_ok_def by metis
  have dvd: "lv_block_size l dvd sz" if "level_config c l s = Inr g" "lv_block_size l \<le> lv_block_size (sc_l2 c)" for l s g
  proof -
    from pow [OF that(1)] pow [OF lv(3)] obtain i j where ij: "lv_block_size l = 2 ^ i" "lv_block_size (sc_l2 c) = 2 ^ j" by auto
    with that(2) have "i \<le> j" by simp
    with ij have "lv_block_size l dvd lv_block_size (sc_l2 c)" by (simp add: le_imp_power_dvd)
    then show ?thesis using d by (meson dvd_trans)
  qed
  have b2: "lv_block_size (sc_l2 c) \<le> ml" using d ml by (meson dvd_imp_le le_trans)
  have d': "4 \<le> lv_block_size (sc_l2 c)" using d by simp
  note U3 = level_usable [of c "sc_l2 c" _ g3 ways_ok, OF lv(3) ways(3) d' b2]
  show "usable_config ways_ok ml sz g3" using U3(1) d by simp
  have e3: "geo_block_size (cfg_geometry g3) = lv_block_size (sc_l2 c)" using U3(2) [of sz] d by simp
  note U1 = level_usable [of c "sc_l1i c" _ g1 ways_ok "lv_block_size (sc_l2 c)" sz, OF lv(1) ways(1)]
  note U2 = level_usable [of c "sc_l1d c" _ g2 ways_ok "lv_block_size (sc_l2 c)" sz, OF lv(2) ways(2)]
  show "usable_config ways_ok (geo_block_size (cfg_geometry g3)) sz g1" "4 \<le> geo_block_size (cfg_geometry g1)"
    using U1 dvd [OF lv(1)] d e3 by simp_all
  show "usable_config ways_ok (geo_block_size (cfg_geometry g3)) sz g2" "4 \<le> geo_block_size (cfg_geometry g2)"
    using U2 dvd [OF lv(2)] d e3 by simp_all
qed

lemma dram_new:
  assumes "1 \<le> t_rcd t" "1 \<le> t_cl t" "1 \<le> t_rp t"
  obtains d where "SimpleDram_new body t = Inr d" "SimpleDram_inv d []" "dram_pending_req d = None" "dram_data d = body"
  using assms
  by (auto simp: SimpleDram_new_def assert_valid_def SimpleDram_inv_def dram_static_def Bank_new_def
      DEFAULT_ROW_SIZE_BYTES_def u32_of_usize_def)

text \<open>
  One policy, either memory: what a policy has to bring is that it makes the caches of both memories
  transparent, for the associativities validation lets pass.
\<close>

lemma run_with_policy_total:
  assumes simple: "processor SimpleMem_try_register_req SimpleMem_tick SimpleMem_inv sm_pending_req sm_data
      (\<lambda>_. {}) sm_stall_countdown (\<lambda>_. MAIN_MEM_LATENCY) (\<lambda>_. MEM_SIZE) R ways_ok rp_inv rp_valid"
    and dram: "processor SimpleDram_try_register_req SimpleDram_tick SimpleDram_inv dram_pending_req dram_data
      (\<lambda>_. {}) dram_wait dram_max_wait (\<lambda>d. length (dram_data d)) R ways_ok rp_inv rp_valid"
    and w: "\<And>n. 0 < n \<Longrightarrow> (sc_replacement_policy config = RpPlru \<longrightarrow> is_power_of_two n) \<Longrightarrow> ways_ok n"
    and g: "cache_configs config = Inr (g1, g2, g3)" and u: "usable_simulation (length body) config"
    and c: "code_ok lo hi body" and k: "halts_at lo hi (boot entry body) k A'"
  shows "\<exists>cycles rep. rep_final_registers rep = isa_regs A' \<and> inst_retire (rep_pipeline rep) = Suc k \<and>
    total_ticked_cycle (rep_pipeline rep) = cycles \<and>
    (\<forall>fuel. run_with_policy R fuel entry body config = Inr (if fuel < cycles then None else Some (Inr rep)))"
proof -
  note ul = levels_usable [OF g u, of ways_ok, OF w]
  show ?thesis
  proof (cases "sc_backing_memory config")
    case BmSimpleMem
    then have sz: "length body \<le> MEM_SIZE" using u by (simp add: usable_simulation_def)
    show ?thesis
      using processor.run_with_memory_total [OF simple g, of "SimpleMem_new body" body] SimpleMem_new_inv [OF sz]
        ul [of MEM_SIZE] sz c k BmSimpleMem by (simp add: run_with_policy_def)
  next
    case (BmSimpleDram t)
    then have "1 \<le> t_rcd t" "1 \<le> t_cl t" "1 \<le> t_rp t" using u by (auto simp: usable_simulation_def)
    from dram_new [OF this, of body] obtain d where "SimpleDram_new body t = Inr d" "SimpleDram_inv d []"
      "dram_pending_req d = None" "dram_data d = body" .
    then show ?thesis
      using processor.run_with_memory_total [OF dram g, of d body] ul [of "length body"] c k BmSimpleDram
      by (simp add: run_with_policy_def)
  qed
qed

text \<open>Random replacement, for a generator that draws below the bound it is given.\<close>

lemma random_cpus:
  assumes "\<And>n g. 0 < n \<Longrightarrow> fst (random_range n g) < n"
  shows "processor SimpleMem_try_register_req SimpleMem_tick SimpleMem_inv sm_pending_req sm_data
      (\<lambda>_. {}) sm_stall_countdown (\<lambda>_. MAIN_MEM_LATENCY) (\<lambda>_. MEM_SIZE)
      (random_ops random_range gen) (\<lambda>n. 0 < n) RandomRP_inv (\<lambda>s. bits_valid (rnd_valid s))"
    and "processor SimpleDram_try_register_req SimpleDram_tick SimpleDram_inv dram_pending_req dram_data
      (\<lambda>_. {}) dram_wait dram_max_wait (\<lambda>d. length (dram_data d))
      (random_ops random_range gen) (\<lambda>n. 0 < n) RandomRP_inv (\<lambda>s. bits_valid (rnd_valid s))"
  by (intro processor.intro cache_over.intro sm.memory_device_axioms
      dram.memory_device_axioms random_policy assms; assumption)+

lemma run_total:
  fixes random_range :: "nat \<Rightarrow> 'g \<Rightarrow> nat \<times> 'g" and gen :: 'g
  assumes r: "\<And>n g. 0 < n \<Longrightarrow> fst (random_range n g) < n"
    and g: "cache_configs config = Inr g" and u: "usable_simulation (length body) config"
    and c: "code_ok lo hi body" and k: "halts_at lo hi (boot entry body) k A'"
  shows "\<exists>cycles rep. rep_final_registers rep = isa_regs A' \<and> inst_retire (rep_pipeline rep) = Suc k \<and>
    total_ticked_cycle (rep_pipeline rep) = cycles \<and>
    (\<forall>fuel. run random_range gen fuel \<lparr>entry_pc = entry, prog_body = body\<rparr> config =
       Inr (if fuel < cycles then None else Some (Inr rep)))"
proof -
  obtain g1 g2 g3 where g: "cache_configs config = Inr (g1, g2, g3)" using g by (cases g) auto
  show ?thesis
  proof (cases "sc_replacement_policy config")
    case RpFifo
    from run_with_policy_total [OF fifo_simple_cpu.processor_axioms fifo_dram_cpu.processor_axioms _ g u c k]
    show ?thesis using RpFifo by (simp add: run_def)
  next
    case RpRandom
    from run_with_policy_total [OF random_cpus [of random_range gen, OF r] _ g u c k]
    show ?thesis using RpRandom by (simp add: run_def)
  next
    case RpPlru
    from run_with_policy_total [OF plru_simple_cpu.processor_axioms plru_dram_cpu.processor_axioms _ g u c k]
    show ?thesis using RpPlru by (simp add: run_def)
  qed
qed

subsection \<open>Checking the hypotheses on a program\<close>

text \<open>Every word of the code region is a legal instruction.\<close>

definition code_check :: "nat \<Rightarrow> nat \<Rightarrow> u8 list \<Rightarrow> bool" where
  "code_check lo hi img \<longleftrightarrow> hi \<le> length img \<and>
     list_all (\<lambda>k. case raw_binary_to_inst (from_le_bytes (seg (4 * k) 4 img)) of Inr i \<Rightarrow> legal i | Inl _ \<Rightarrow> False)
       [lo div 4..<hi div 4]"

lemma code_ok_check:
  assumes "code_check lo hi img" "length img \<le> 2 ^ 32"
  shows "code_ok lo hi img"
proof -
  have "\<exists>i. raw_binary_to_inst (code_word img pc) = Inr i \<and> legal i" if "in_code lo hi 0 pc" for pc
  proof -
    have "4 * (unat pc div 4) = unat pc" "unat pc div 4 \<in> set [lo div 4..<hi div 4]"
      using that by (auto simp: in_code_def div_le_mono less_eq_div_iff_mult_less_eq Suc_le_eq [symmetric])
    then have "case raw_binary_to_inst (code_word img pc) of Inr i \<Rightarrow> legal i | Inl _ \<Rightarrow> False"
      using assms(1) by (auto simp: code_check_def list_all_iff code_word_def simp del: set_upt dest!: bspec)
    then show ?thesis by (auto split: sum.splits)
  qed
  with assms show ?thesis by (simp add: code_ok_def code_check_def)
qed

text \<open>The reference machine as an interpreter, up to the halting environment call.\<close>

definition at_exit :: "Arch \<Rightarrow> bool" where
  "at_exit A \<longleftrightarrow> (case isa_inst A of Inr (Ecall _) \<Rightarrow> isa_regs A ! 10 = 0 | _ \<Rightarrow> False)"

lemma at_exit_halts: "at_exit A = isa_halts A"
  by (auto simp: at_exit_def isa_halts_def split: sum.splits Instruction.splits)

fun isa_run :: "nat \<Rightarrow> nat \<Rightarrow> nat \<Rightarrow> Arch \<Rightarrow> (nat \<times> Arch) option" where
  "isa_run lo hi fuel A =
     (if at_exit A then Some (0, A)
      else case fuel of
        0 \<Rightarrow> None
      | Suc n \<Rightarrow> (case isa_step lo hi A of
          None \<Rightarrow> None
        | Some B \<Rightarrow> map_option (\<lambda>(k, C). (Suc k, C)) (isa_run lo hi n B)))"

declare isa_run.simps [simp del]

lemma isa_run_halts_at:
  assumes "isa_run lo hi fuel A = Some (k, A')" "isa_steps lo hi 3 A' \<noteq> None"
  shows "halts_at lo hi A k A'"
  using assms(1)
proof (induction fuel arbitrary: A k)
  case 0
  then show ?case using assms(2)
    by (auto simp: isa_run.simps halts_at_def at_exit_halts split: if_splits)
next
  case (Suc fuel)
  show ?case
  proof (cases "at_exit A")
    case True
    with Suc.prems assms(2) show ?thesis by (auto simp: isa_run.simps halts_at_def at_exit_halts)
  next
    case False
    with Suc.prems obtain B j where b: "isa_step lo hi A = Some B" "isa_run lo hi fuel B = Some (j, A')" "k = Suc j"
      by (auto simp: isa_run.simps [of _ _ "Suc _"] split: option.splits)
    note h = Suc.IH [OF b(2), unfolded halts_at_def]
    have st: "isa_steps lo hi (Suc n) A = isa_steps lo hi n B" for n using b(1) by (simp add: isa_steps.simps(2))
    have "\<not> isa_halts C" if "i < Suc j" "isa_steps lo hi i A = Some C" for i C
      using that h False st by (cases i) (auto simp: at_exit_halts)
    then show ?thesis using h unfolding halts_at_def b(3) add_Suc st by blast
  qed
qed

end
