(* ===== verification/Program_Image.thy ===== *)
theory Program_Image
  imports Pipeline_Correct
begin

text \<open>
  Programs in a larger memory.  The loader always builds an image of the whole simulated memory, of which a
  program uses a part: a run of the reference machine on a memory is also one on every extension of
  it, so a program can be run and checked on its own bytes.
\<close>

definition grown :: "u8 list \<Rightarrow> Arch \<Rightarrow> Arch" where
  "grown t A = A\<lparr>isa_mem := isa_mem A @ t\<rparr>"

lemma extend_simps [simp]:
  "isa_pc (grown t A) = isa_pc A" "isa_regs (grown t A) = isa_regs A" "isa_mem (grown t A) = isa_mem A @ t"
  by (simp_all add: grown_def)

lemma seg_append: "a + n \<le> length m \<Longrightarrow> seg a n (m @ t) = seg a n m"
  by (simp add: seg_def)

lemma put_seg_append: "a + length d \<le> length m \<Longrightarrow> put_seg a d (m @ t) = put_seg a d m @ t"
  by (simp add: put_seg_def)

lemma code_word_append: "in_code lo hi n pc \<Longrightarrow> hi \<le> length m \<Longrightarrow> code_word (m @ t) pc = code_word m pc"
  by (simp add: code_word_def in_code_def seg_append)

lemma code_ok_append:
  "code_ok lo hi m \<Longrightarrow> length m + length t \<le> 2 ^ 32 \<Longrightarrow> code_ok lo hi (m @ t)"
  by (simp add: code_ok_def code_word_append)

lemma isa_result_extend: "isa_result rd v (grown t A) = grown t (isa_result rd v A)"
  by (simp add: isa_result_def grown_def)

lemma isa_load_extend: "isa_load n sx i A = Some B \<Longrightarrow> isa_load n sx i (grown t A) = Some (grown t B)"
  by (auto simp: isa_load_def Let_def isa_aligned_def seg_append isa_result_extend split: if_splits)

lemma isa_store_extend:
  "n \<le> 4 \<Longrightarrow> isa_store lo hi n i A = Some B \<Longrightarrow> isa_store lo hi n i (grown t A) = Some (grown t B)"
  by (auto simp: isa_store_def Let_def isa_aligned_def put_seg_append to_le_bytes_def grown_def split: if_splits)

lemma isa_op_extend:
  "isa_op u r (grown t A) = map_option (grown t) (isa_op u r A)"
  "isa_op_imm u i (grown t A) = map_option (grown t) (isa_op_imm u i A)"
  "isa_branch b j (grown t A) = map_option (grown t) (isa_branch b j A)"
  by (simp_all add: isa_op_def isa_op_imm_def isa_branch_def isa_result_extend grown_def isa_result_def)

lemma isa_exec_extend:
  "isa_exec lo hi inst A = Some B \<Longrightarrow> isa_exec lo hi inst (grown t A) = Some (grown t B)"
  by (cases inst; simp add: isa_exec_def isa_op_extend isa_load_extend isa_store_extend isa_result_extend)
    (auto simp: grown_def isa_advance_def)

lemma isa_exec_length: "isa_exec lo hi inst A = Some B \<Longrightarrow> length (isa_mem B) = length (isa_mem A)"
  by (cases inst) (auto simp: isa_exec_defs Let_def isa_aligned_def isa_result_def to_le_bytes_def split: if_splits)

lemma isa_step_extend:
  assumes "isa_step lo hi A = Some B" "hi \<le> length (isa_mem A)"
  shows "isa_step lo hi (grown t A) = Some (grown t B)" "length (isa_mem B) = length (isa_mem A)"
  using assms
  by (auto simp: isa_step_def isa_inst_def code_word_append isa_exec_extend dest: isa_exec_length
      split: if_splits sum.splits)

lemma isa_steps_extend:
  "isa_steps lo hi n A = Some B \<Longrightarrow> hi \<le> length (isa_mem A) \<Longrightarrow>
   isa_steps lo hi n (grown t A) = Some (grown t B) \<and> length (isa_mem B) = length (isa_mem A)"
  by (induction n arbitrary: A) (auto simp: isa_steps.simps isa_step_extend split: option.splits)

lemma isa_halts_extend:
  assumes "isa_step lo hi A \<noteq> None" "hi \<le> length (isa_mem A)"
  shows "isa_halts (grown t A) = isa_halts A"
  using assms by (auto simp: isa_halts_def isa_inst_def isa_step_def code_word_append split: if_splits)

lemma isa_steps_prefix: "isa_steps lo hi n A \<noteq> None \<Longrightarrow> j < n \<Longrightarrow> \<exists>B. isa_steps lo hi j A = Some B \<and> isa_step lo hi B \<noteq> None"
proof (induction n arbitrary: A j)
  case (Suc n)
  then obtain C where C: "isa_step lo hi A = Some C" "isa_steps lo hi n C \<noteq> None"
    by (auto simp: isa_steps.simps split: option.splits)
  with Suc show ?case by (cases j) (auto simp: isa_steps.simps)
qed simp

lemma halts_at_extend:
  assumes h: "halts_at lo hi A k A'" and l: "hi \<le> length (isa_mem A)"
  shows "halts_at lo hi (grown t A) k (grown t A')"
proof -
  note d = h [unfolded halts_at_def]
  have state: "isa_steps lo hi j (grown t A) = Some (grown t B) \<and> isa_halts (grown t B) = isa_halts B"
    if "isa_steps lo hi j A = Some B" "j \<le> k" for j B
  proof -
    from isa_steps_prefix [of lo hi "k + 3" A j] d that have "isa_step lo hi B \<noteq> None" by auto
    with isa_steps_extend [OF that(1) l, of t] isa_halts_extend [of lo hi B t] l show ?thesis by auto
  qed
  have "\<not> isa_halts B" if j: "j < k" "isa_steps lo hi j (grown t A) = Some B" for j B
  proof -
    from isa_steps_prefix [of lo hi "k + 3" A j] d j(1) obtain C where C: "isa_steps lo hi j A = Some C" by auto
    with state [OF C] d j show ?thesis by auto
  qed
  moreover have "isa_steps lo hi (k + 3) (grown t A) \<noteq> None" using d isa_steps_extend [OF _ l] by fastforce
  ultimately show ?thesis using state [of k A'] d unfolding halts_at_def by auto
qed

subsection \<open>Images of one segment\<close>

text \<open>A file with one segment at address 0 is loaded as its bytes followed by zeros.\<close>

lemma elf_image_one:
  assumes "length d < ELF_MEM_SIZE"
  shows "elf_image [\<lparr>seg_address = 0, seg_size = of_nat (length d), seg_data = Some d\<rparr>] =
    d @ replicate (ELF_MEM_SIZE - length d) 0"
    and "segment_ok \<lparr>seg_address = 0, seg_size = of_nat (length d), seg_data = Some d\<rparr>"
proof -
  have u: "unat (of_nat (length d) :: u64) = length d"
    using assms by (simp add: unat_of_nat take_bit_nat_eq_self ELF_MEM_SIZE_def)
  show "elf_image [\<lparr>seg_address = 0, seg_size = of_nat (length d), seg_data = Some d\<rparr>] =
      d @ replicate (ELF_MEM_SIZE - length d) 0"
    using assms by (intro nth_equalityI) (auto simp: elf_image_def segment_byte_def u nth_append)
  show "segment_ok \<lparr>seg_address = 0, seg_size = of_nat (length d), seg_data = Some d\<rparr>"
    using assms by (simp add: segment_ok_def u)
qed

end
