(* ===== verification/Cache_Diagram.thy ===== *)
theory Cache_Diagram
  imports Hierarchy
begin

text \<open>
  The state diagram that documents the cache controller (the comment on \<open>MainStates\<close> in
  \<^verbatim>\<open>general_cache/mod.rs\<close>) as an inductive relation, and the states a controller can reach.  Every tick
  of every configuration, prefetching and all write policies included, follows an edge of the diagram;
  in every reachable state the request a miss set aside, the pending request and the prefetch flag are
  exactly where the \<open>unwrap\<close>s of the code expect them.  Nothing is assumed of the policy, of the next
  level or of the requests.
\<close>

subsection \<open>The diagram\<close>

text \<open>A transaction is sent until the next level accepts it and then waits; its request never changes.\<close>

inductive waits :: "LowerMemoryTransaction \<Rightarrow> LowerMemoryTransaction \<Rightarrow> bool" where
  refused: "waits (Sending r) (Sending r)"
| accepted: "waits (Sending r) (Waiting r)"
| busy: "waits (Waiting r) (Waiting r)"

inductive edge :: "'rp GeneralCache \<Rightarrow> MainStates \<Rightarrow> MainStates \<Rightarrow> bool" for c where
  rest: "pending_req c = None \<Longrightarrow> prefetch_queue c = [] \<or> prefetch_in_flight c \<Longrightarrow> edge c Idle Idle"
| demand: "pending_req c = Some req \<Longrightarrow> edge c Idle (Lookup req)"
| prefetch:
    "pending_req c = None \<Longrightarrow> \<not> prefetch_in_flight c \<Longrightarrow> prefetch_queue c = addr # q \<Longrightarrow>
     \<not> is_store req \<Longrightarrow> get_addr req = addr \<Longrightarrow> get_len req = block_size_bytes c \<Longrightarrow> edge c Idle (Lookup req)"
| hit: "\<not> is_store req \<or> is_write_back (write_policy c) \<Longrightarrow> edge c (Lookup req) Idle"
| store_through:
    "is_store req \<Longrightarrow> is_write_through (write_policy c) \<Longrightarrow> is_store p \<Longrightarrow> get_addr p = get_addr req \<Longrightarrow>
     store_data p = store_data req \<Longrightarrow> edge c (Lookup req) (WriteThroughCommit (Sending p) req)"
| store_around:
    "is_store req \<Longrightarrow> is_no_write_allocate (write_policy c) \<Longrightarrow> is_store p \<Longrightarrow> get_addr p = get_addr req \<Longrightarrow>
     store_data p = store_data req \<Longrightarrow> edge c (Lookup req) (WriteAround (Sending p) req)"
| dirty_victim:
    "\<not> (is_store req \<and> is_no_write_allocate (write_policy c)) \<Longrightarrow> is_store p \<Longrightarrow>
     edge c (Lookup req) (WriteBack (Sending p) way)"
| clean_victim:
    "\<not> (is_store req \<and> is_no_write_allocate (write_policy c)) \<Longrightarrow> \<not> is_store p \<Longrightarrow>
     get_len p = 2 ^ offset_bit_width c \<Longrightarrow> edge c (Lookup req) (Allocate (Sending p) way)"
| writing_back: "waits tx tx' \<Longrightarrow> edge c (WriteBack tx way) (WriteBack tx' way)"
| written_back:
    "\<not> is_store p \<Longrightarrow> get_len p = 2 ^ offset_bit_width c \<Longrightarrow>
     edge c (WriteBack (Waiting r) way) (Allocate (Sending p) way)"
| allocating: "waits tx tx' \<Longrightarrow> edge c (Allocate tx way) (Allocate tx' way)"
| allocated: "edge c (Allocate (Waiting r) way) (AdditionalMissPenalty (miss_penalty c))"
| counting: "edge c (AdditionalMissPenalty (Suc n)) (AdditionalMissPenalty n)"
| counted: "backup_req c = Some req \<Longrightarrow> edge c (AdditionalMissPenalty 0) (Lookup req)"
| committing: "waits tx tx' \<Longrightarrow> edge c (WriteThroughCommit tx req) (WriteThroughCommit tx' req)"
| committed: "edge c (WriteThroughCommit (Waiting r) req) Idle"
| going_around: "waits tx tx' \<Longrightarrow> edge c (WriteAround tx req) (WriteAround tx' req)"
| gone_around: "edge c (WriteAround (Waiting r) req) Idle"

inductive_cases edge_Idle: "edge c Idle s"
inductive_cases edge_Lookup: "edge c (Lookup req) s"

lemma progress_waits:
  assumes "progress try_reg tx m h = Inr (finished, tx', m', h')"
  shows "waits tx tx'" "finished \<Longrightarrow> \<exists>r. tx = Waiting r \<and> tx' = tx"
  using assms by (cases tx; auto simp: bindR_eq_Inr intro: waits.intros split: if_splits)+

subsection \<open>What a lookup changes\<close>

lemma requests_new:
  "is_store (fst (MemoryReqType_store a d h))" "get_addr (fst (MemoryReqType_store a d h)) = a"
  "store_data (fst (MemoryReqType_store a d h)) = Inr d"
  "\<not> is_store (fst (MemoryReqType_load a n h))" "get_addr (fst (MemoryReqType_load a n h)) = a"
  "get_len (fst (MemoryReqType_load a n h)) = n"
  by (simp_all add: MemoryReqType_store_def MemoryReqType_load_def MemoryStoreReq_new_def MemoryLoadReq_new_def
      Let_def store_data_def case_prod_unfold)

text \<open>The fields the diagram and the invariant speak about, apart from the state itself.\<close>

definition same_control :: "'rp GeneralCache \<Rightarrow> 'rp GeneralCache \<Rightarrow> bool" where
  "same_control c c' \<longleftrightarrow>
     pending_req c' = pending_req c \<and> prefetch_in_flight c' = prefetch_in_flight c \<and>
     prefetch_queue c' = prefetch_queue c \<and> miss_penalty c' = miss_penalty c"

lemma same_control_simps [simp]:
  "same_control c (c'\<lparr>fsm := s\<rparr>) = same_control c c'" "same_control c (update_set i u c') = same_control c c'"
  "same_control c (c'\<lparr>backup_req := r\<rparr>) = same_control c c'" "same_control c c"
  "same_control c (count_load p b c') = same_control c c'" "same_control c (count_store p b c') = same_control c c'"
  "backup_req (update_set i u c') = backup_req c'" "backup_req (count_load p b c') = backup_req c'"
  "backup_req (count_store p b c') = backup_req c'"
  by (simp_all add: same_control_def update_set_def count_load_def count_store_def)

lemma lookup_hit_form:
  assumes "lookup_hit R req index offset way pf s c h = Inr (c', h')"
  shows "(\<not> is_store req \<and> (\<exists>u. c' = (count_load pf False (update_set index u c))\<lparr>fsm := Idle\<rparr>)) \<or>
    (is_store req \<and> is_write_back (write_policy c) \<and>
     (\<exists>u. c' = (update_set index u (count_store pf False c))\<lparr>fsm := Idle\<rparr>)) \<or>
    (is_store req \<and> is_write_through (write_policy c) \<and>
     (\<exists>u d. store_data req = Inr d \<and> c' = (update_set index u (count_store pf False c))
        \<lparr>fsm := WriteThroughCommit (Sending (fst (MemoryReqType_store (get_addr req) d h))) req\<rparr>))"
proof (cases req)
  case (LoadReq r)
  with assms show ?thesis by (auto simp: lookup_hit_def bindR_eq_Inr)
next
  case (StoreReq r)
  then have d: "store_data req = Inr (sr_store_data r)" by (simp add: store_data_def)
  show ?thesis
  proof (cases "is_write_through (write_policy c)")
    case True
    with assms StoreReq d show ?thesis
      by (auto simp: lookup_hit_def bindR_eq_Inr Let_def case_prod_unfold LowerMemoryTransaction_new_def)
  next
    case False
    with assms StoreReq show ?thesis
      by (auto simp: lookup_hit_def bindR_eq_Inr Let_def is_write_through_def)
  qed
qed

lemma lookup_hit_edge:
  assumes "lookup_hit R req index offset way pf s c h = Inr (c', h')"
  shows "edge c (Lookup req) (fsm c')" "fsm c' = Idle \<or> (\<exists>tx. fsm c' = WriteThroughCommit tx req \<and> is_store req)"
    "same_control c c'" "backup_req c' = backup_req c"
  using lookup_hit_form [OF assms]
  by (auto simp: requests_new intro!: edge.hit edge.store_through)

lemma lookup_miss_form:
  assumes "lookup_miss R req tag index wb way pf s c h = Inr (c', h')"
  shows "(is_store req \<and> is_no_write_allocate (write_policy c) \<and>
     (\<exists>u d. store_data req = Inr d \<and> same_control c u \<and> backup_req u = backup_req c \<and>
        c' = u\<lparr>fsm := WriteAround (Sending (fst (MemoryReqType_store (get_addr req) d h))) req\<rparr>)) \<or>
    (\<not> (is_store req \<and> is_no_write_allocate (write_policy c)) \<and>
     (\<exists>u a d. same_control c u \<and> backup_req u = Some req \<and>
        (c' = u\<lparr>fsm := WriteBack (Sending (fst (MemoryReqType_store a d h))) way\<rparr> \<or>
         c' = u\<lparr>fsm := Allocate (Sending (fst (MemoryReqType_load a (2 ^ offset_bit_width c) h))) way\<rparr>)))"
proof -
  let ?c = "update_set index s (if is_store req then count_store pf True c else count_load pf True c)"
  have s: "same_control c ?c" "backup_req ?c = backup_req c" by simp_all
  show ?thesis
  proof (cases "is_store req \<and> is_no_write_allocate (write_policy c)")
    case True
    with assms obtain d where "store_data req = Inr d"
      "c' = ?c\<lparr>fsm := WriteAround (Sending (fst (MemoryReqType_store (get_addr req) d h))) req\<rparr>"
      by (auto simp: lookup_miss_def Let_def bindR_eq_Inr case_prod_unfold LowerMemoryTransaction_new_def)
    with True s show ?thesis by blast
  next
    case False
    let ?b = "?c\<lparr>backup_req := Some req\<rparr>"
    have "\<exists>u a d. same_control c u \<and> backup_req u = Some req \<and>
        (c' = u\<lparr>fsm := WriteBack (Sending (fst (MemoryReqType_store a d h))) way\<rparr> \<or>
         c' = u\<lparr>fsm := Allocate (Sending (fst (MemoryReqType_load a (2 ^ offset_bit_width c) h))) way\<rparr>)"
    proof (cases wb)
      case True
      with assms False obtain u a d where
        "c' = (update_set index u ?b)\<lparr>fsm := WriteBack (Sending (fst (MemoryReqType_store a d h))) way\<rparr>"
        unfolding lookup_miss_def Let_def LowerMemoryTransaction_new_def
        by (simp only: if_False if_True bindR_eq_Inr case_prod_unfold) blast
      then show ?thesis using s(1) by (intro exI [of _ "update_set index u ?b"]) auto
    next
      case nwb: False
      with assms False have
        "c' = ?b\<lparr>fsm := Allocate (Sending (fst (MemoryReqType_load (allocate_addr c tag index) (2 ^ offset_bit_width c) h))) way\<rparr>"
        unfolding lookup_miss_def Let_def LowerMemoryTransaction_new_def
        by (simp only: if_False case_prod_unfold sum.inject prod.inject) 
      then show ?thesis using s(1) by (intro exI [of _ ?b]) auto
    qed
    with False show ?thesis by blast
  qed
qed

lemma lookup_miss_edge:
  assumes "lookup_miss R req tag index wb way pf s c h = Inr (c', h')"
  shows "edge c (Lookup req) (fsm c')" "same_control c c'"
    "(\<exists>tx. fsm c' = WriteAround tx req \<and> is_store req \<and> backup_req c' = backup_req c) \<or>
     (\<exists>tx way. fsm c' = WriteBack tx way \<and> is_store (transaction_req tx) \<and> backup_req c' = Some req) \<or>
     (\<exists>tx way. fsm c' = Allocate tx way \<and> \<not> is_store (transaction_req tx) \<and> backup_req c' = Some req)"
  using lookup_miss_form [OF assms]
  by (auto simp: requests_new intro!: edge.store_around edge.dirty_victim edge.clean_victim)

lemma lookup_post_control [simp]:
  "fsm (lookup_post a st pf hit c) = fsm c" "backup_req (lookup_post a st pf hit c) = backup_req c"
  "pending_req (lookup_post a st pf hit c) = pending_req c" "miss_penalty (lookup_post a st pf hit c) = miss_penalty c"
  "prefetch_in_flight (lookup_post a st pf hit c) = (prefetch_in_flight c \<and> \<not> (pf \<and> hit))"
  by (simp_all add: lookup_post_def)

lemma enqueue_predictions_distinct: "distinct q \<Longrightarrow> distinct (enqueue_predictions q as)"
  by (induction q as rule: enqueue_predictions.induct) auto

lemma lookup_post_distinct: "distinct (prefetch_queue c) \<Longrightarrow> distinct (prefetch_queue (lookup_post a st pf hit c))"
  by (simp add: lookup_post_def enqueue_predictions_distinct)

text \<open>A lookup is a hit or a miss, followed by the hooks of the prefetcher.\<close>

lemma tick_lookup_cases:
  assumes "tick_lookup R req c h = Inr (c', h')"
  obtains index offset way s u where
    "lookup_hit R req index offset way (prefetch_in_flight c) s c h = Inr (u, h')"
    "c' = lookup_post (get_addr req) (is_store req) (prefetch_in_flight c) True u"
  | tag index wb way s u where
    "lookup_miss R req tag index wb way (prefetch_in_flight c) s c h = Inr (u, h')"
    "c' = lookup_post (get_addr req) (is_store req) (prefetch_in_flight c) False u"
proof -
  obtain tag index offset where a: "addr_transfer c (get_addr req) = (tag, index, offset)" by (metis prod_cases3)
  with assms obtain s result s1 where r: "tag_compare R tag s = Inr (result, s1)"
    "(case result of
        TagHit way \<Rightarrow> bindR (lookup_hit R req index offset way (prefetch_in_flight c) s1 c h) (\<lambda>(c1, h1).
          Inr (lookup_post (get_addr req) (is_store req) (prefetch_in_flight c) True c1, h1))
      | TagMiss wb way \<Rightarrow> bindR (lookup_miss R req tag index wb way (prefetch_in_flight c) s1 c h) (\<lambda>(c1, h1).
          Inr (lookup_post (get_addr req) (is_store req) (prefetch_in_flight c) False c1, h1))) = Inr (c', h')"
    by (auto simp: tick_lookup_def Let_def bindR_eq_Inr)
  show thesis using r(2) by (cases result) (auto simp: bindR_eq_Inr intro: that)
qed

subsection \<open>Every tick follows the diagram\<close>

text \<open>The states that drive a transaction: it goes on waiting, or the tick moves on.\<close>

lemma tick_write_back_form:
  assumes "tick_write_back try_reg tx way c m h = Inr (c', m', h')"
  shows "(\<exists>tx'. waits tx tx' \<and> c' = c\<lparr>fsm := WriteBack tx' way\<rparr>) \<or>
    (\<exists>r a h1. tx = Waiting r \<and>
       c' = c\<lparr>fsm := Allocate (Sending (fst (MemoryReqType_load a (2 ^ offset_bit_width c) h1))) way\<rparr>)"
proof -
  from assms obtain finished tx1 m1 h1 where p: "progress try_reg tx m h = Inr (finished, tx1, m1, h1)"
    by (auto simp: tick_write_back_def bindR_eq_Inr)
  show ?thesis
  proof (cases finished)
    case True
    with assms p obtain a where
      "c' = c\<lparr>fsm := Allocate (Sending (fst (MemoryReqType_load a (2 ^ offset_bit_width c) h1))) way\<rparr>"
      by (auto simp: tick_write_back_def bindR_eq_Inr Let_def case_prod_unfold LowerMemoryTransaction_new_def)
    with progress_waits(2) [OF p True] show ?thesis by blast
  next
    case False
    with assms p progress_waits(1) [OF p] show ?thesis by (auto simp: tick_write_back_def)
  qed
qed

lemma tick_allocate_form:
  assumes "tick_allocate R try_reg tx way c m h = Inr (c', m', h')"
  shows "(\<exists>tx'. waits tx tx' \<and> c' = c\<lparr>fsm := Allocate tx' way\<rparr>) \<or>
    (\<exists>r index u. tx = Waiting r \<and> c' = (update_set index u c)\<lparr>fsm := AdditionalMissPenalty (miss_penalty c)\<rparr>)"
proof -
  from assms obtain finished tx1 m1 h1 where p: "progress try_reg tx m h = Inr (finished, tx1, m1, h1)"
    by (auto simp: tick_allocate_def bindR_eq_Inr)
  show ?thesis
  proof (cases finished)
    case True
    with assms p obtain index u where "c' = (update_set index u c)\<lparr>fsm := AdditionalMissPenalty (miss_penalty c)\<rparr>"
      by (auto simp: tick_allocate_def bindR_eq_Inr Let_def case_prod_unfold)
    with progress_waits(2) [OF p True] show ?thesis by blast
  next
    case False
    with assms p progress_waits(1) [OF p] show ?thesis by (auto simp: tick_allocate_def)
  qed
qed

lemma tick_propagate_form:
  assumes "tick_propagate rebuild try_reg tx req c m h = Inr (c', m', h')"
  shows "(\<exists>tx'. waits tx tx' \<and> c' = c\<lparr>fsm := rebuild tx'\<rparr>) \<or> (\<exists>r. tx = Waiting r \<and> c' = c\<lparr>fsm := Idle\<rparr>)"
proof -
  from assms obtain finished tx1 m1 h1 where p: "progress try_reg tx m h = Inr (finished, tx1, m1, h1)"
    by (auto simp: tick_propagate_def bindR_eq_Inr)
  with assms progress_waits [OF p] show ?thesis
    by (cases finished) (auto simp: tick_propagate_def bindR_eq_Inr)
qed

lemma prefetch_edge:
  "pending_req c = None \<Longrightarrow> \<not> prefetch_in_flight c \<Longrightarrow> prefetch_queue c = addr # q \<Longrightarrow>
   edge c Idle (Lookup (fst (MemoryReqType_load addr (block_size_bytes c) h)))"
  by (rule edge.prefetch) (simp_all add: requests_new)

lemma tick_edge:
  assumes "GeneralCache_tick R try_reg c m h = Inr (c', m', h')"
  shows "edge c (fsm c) (fsm c')"
proof (cases "fsm c")
  case Idle
  with assms show ?thesis
    by (auto simp: GeneralCache_tick_def bindR_eq_Inr tick_idle_def Let_def case_prod_unfold
        split: option.splits if_splits list.splits intro: edge.rest edge.demand prefetch_edge)
next
  case (Lookup req)
  with assms obtain h1 where "tick_lookup R req c h = Inr (c', h1)" by (auto simp: GeneralCache_tick_def bindR_eq_Inr)
  then show ?thesis using Lookup by (cases rule: tick_lookup_cases) (auto dest: lookup_hit_edge lookup_miss_edge)
next
  case (WriteBack tx way)
  with assms have "tick_write_back try_reg tx way c m h = Inr (c', m', h')" by (simp add: GeneralCache_tick_def)
  from tick_write_back_form [OF this] WriteBack show ?thesis
    by (auto simp: requests_new intro!: edge.writing_back edge.written_back)
next
  case (Allocate tx way)
  with assms have "tick_allocate R try_reg tx way c m h = Inr (c', m', h')" by (simp add: GeneralCache_tick_def)
  from tick_allocate_form [OF this] Allocate show ?thesis by (auto intro: edge.allocating edge.allocated)
next
  case (AdditionalMissPenalty n)
  with assms show ?thesis
    by (cases n) (auto simp: GeneralCache_tick_def tick_miss_penalty_def bindR_eq_Inr unwrapR_eq_Inr
        intro: edge.counting edge.counted)
next
  case (WriteThroughCommit tx req)
  with assms have "tick_propagate (\<lambda>tx. WriteThroughCommit tx req) try_reg tx req c m h = Inr (c', m', h')"
    by (simp add: GeneralCache_tick_def)
  from tick_propagate_form [OF this] WriteThroughCommit show ?thesis by (auto intro: edge.committing edge.committed)
next
  case (WriteAround tx req)
  with assms have "tick_propagate (\<lambda>tx. WriteAround tx req) try_reg tx req c m h = Inr (c', m', h')"
    by (simp add: GeneralCache_tick_def)
  from tick_propagate_form [OF this] WriteAround show ?thesis by (auto intro: edge.going_around edge.gone_around)
qed

subsection \<open>Reachable controllers\<close>

text \<open>
  A request set aside by a miss is kept exactly while the miss is handled, a demand request is pending
  only in the idle state, a prefetch is a load and never waits in the idle or in a store state, the
  transactions carry requests of the right kind, the countdown is within the penalty, and no address
  is queued twice.
\<close>

definition fsm_ok :: "'rp GeneralCache \<Rightarrow> bool" where
  "fsm_ok c \<longleftrightarrow> distinct (prefetch_queue c) \<and>
     (let refilling = (\<exists>req. backup_req c = Some req \<and> (prefetch_in_flight c \<longrightarrow> \<not> is_store req)) in
      case fsm c of
        Idle \<Rightarrow> backup_req c = None \<and> \<not> prefetch_in_flight c
      | Lookup req \<Rightarrow> pending_req c = None \<and> backup_req c = None \<and> (prefetch_in_flight c \<longrightarrow> \<not> is_store req)
      | WriteBack tx _ \<Rightarrow> pending_req c = None \<and> refilling \<and> is_store (transaction_req tx)
      | Allocate tx _ \<Rightarrow> pending_req c = None \<and> refilling \<and> \<not> is_store (transaction_req tx)
      | AdditionalMissPenalty n \<Rightarrow> pending_req c = None \<and> refilling \<and> n \<le> miss_penalty c
      | WriteThroughCommit tx req \<Rightarrow>
          pending_req c = None \<and> backup_req c = None \<and> \<not> prefetch_in_flight c \<and> is_store req
      | WriteAround tx req \<Rightarrow>
          pending_req c = None \<and> backup_req c = None \<and> \<not> prefetch_in_flight c \<and> is_store req)"

inductive reachable :: "'rp rp_ops \<Rightarrow> 'm lower \<Rightarrow> 'rp GeneralCache \<Rightarrow> bool" for R try_reg where
  new: "GeneralCache_new R config = Inr c \<Longrightarrow> reachable R try_reg c"
| tick: "reachable R try_reg c \<Longrightarrow> GeneralCache_tick R try_reg c m h = Inr (c', m', h') \<Longrightarrow> reachable R try_reg c'"
| register:
    "reachable R try_reg c \<Longrightarrow> GeneralCache_try_register_req R try_reg req c m h = Inr (ok, c', m', h') \<Longrightarrow>
     reachable R try_reg c'"

lemma waits_req: "waits tx tx' \<Longrightarrow> transaction_req tx' = transaction_req tx"
  by (induction rule: waits.induct) simp_all

lemma tick_fsm_ok:
  assumes "fsm_ok c" "GeneralCache_tick R try_reg c m h = Inr (c', m', h')"
  shows "fsm_ok c'"
proof (cases "fsm c")
  case Idle
  with assms show ?thesis
    by (auto simp: GeneralCache_tick_def bindR_eq_Inr tick_idle_def Let_def case_prod_unfold fsm_ok_def requests_new
        split: option.splits if_splits list.splits)
next
  case (Lookup req)
  with assms obtain h1 where "tick_lookup R req c h = Inr (c', h1)" by (auto simp: GeneralCache_tick_def bindR_eq_Inr)
  then show ?thesis
  proof (cases rule: tick_lookup_cases)
    case (1 index offset way s u)
    note e = lookup_hit_edge [OF 1(1)]
    show ?thesis using e(2-4) assms(1) Lookup
      by (auto simp: 1(2) fsm_ok_def Let_def same_control_def lookup_post_distinct)
  next
    case (2 tag index wb way s u)
    note e = lookup_miss_edge [OF 2(1)]
    show ?thesis using e(2,3) assms(1) Lookup
      by (auto simp: 2(2) fsm_ok_def Let_def same_control_def lookup_post_distinct)
  qed
next
  case (WriteBack tx way)
  with assms(2) have "tick_write_back try_reg tx way c m h = Inr (c', m', h')" by (simp add: GeneralCache_tick_def)
  from tick_write_back_form [OF this] assms(1) WriteBack show ?thesis
    by (auto simp: fsm_ok_def Let_def requests_new dest: waits_req)
next
  case (Allocate tx way)
  with assms(2) have "tick_allocate R try_reg tx way c m h = Inr (c', m', h')" by (simp add: GeneralCache_tick_def)
  from tick_allocate_form [OF this] assms(1) Allocate show ?thesis
    by (auto simp: fsm_ok_def Let_def update_set_def dest: waits_req)
next
  case (AdditionalMissPenalty n)
  with assms show ?thesis
    by (auto simp: GeneralCache_tick_def tick_miss_penalty_def bindR_eq_Inr unwrapR_eq_Inr fsm_ok_def Let_def
        split: if_splits)
next
  case (WriteThroughCommit tx req)
  with assms(2) have "tick_propagate (\<lambda>tx. WriteThroughCommit tx req) try_reg tx req c m h = Inr (c', m', h')"
    by (simp add: GeneralCache_tick_def)
  from tick_propagate_form [OF this] assms(1) WriteThroughCommit show ?thesis by (auto simp: fsm_ok_def Let_def)
next
  case (WriteAround tx req)
  with assms(2) have "tick_propagate (\<lambda>tx. WriteAround tx req) try_reg tx req c m h = Inr (c', m', h')"
    by (simp add: GeneralCache_tick_def)
  from tick_propagate_form [OF this] assms(1) WriteAround show ?thesis by (auto simp: fsm_ok_def Let_def)
qed

lemma register_fsm_ok:
  assumes "fsm_ok c" "GeneralCache_try_register_req R try_reg req c m h = Inr (ok, c', m', h')"
  shows "fsm_ok c'"
proof (cases "fsm c = Idle \<and> pending_req c = None")
  case True
  with assms obtain c1 m1 h1 where
    t: "GeneralCache_tick R try_reg (c\<lparr>pending_req := Some req\<rparr>) m h = Inr (c1, m1, h1)"
      "GeneralCache_tick R try_reg c1 m1 h1 = Inr (c', m', h')"
    by (auto simp: GeneralCache_try_register_req_def bindR_eq_Inr)
  have "fsm_ok (c\<lparr>pending_req := Some req\<rparr>)" using assms(1) True by (simp add: fsm_ok_def)
  from tick_fsm_ok [OF tick_fsm_ok [OF this t(1)] t(2)] show ?thesis .
next
  case False
  with assms show ?thesis by (auto simp: GeneralCache_try_register_req_def bindR_eq_Inr split: if_splits)
qed

lemma reachable_fsm_ok: "reachable R try_reg c \<Longrightarrow> fsm_ok c"
proof (induction rule: reachable.induct)
  case (new config c)
  then show ?case by (auto simp: GeneralCache_new_def Let_def bindR_eq_Inr fsm_ok_def)
qed (blast intro: tick_fsm_ok register_fsm_ok)+

text \<open>Outside the lookup and the insertion of a refill, only the next level can make a tick panic.\<close>

lemma fsm_ok_panic_source:
  assumes "fsm_ok c" "GeneralCache_tick R try_reg c m h = Inl e"
  shows "(\<exists>req. fsm c = Lookup req) \<or> (\<exists>tx way. fsm c = Allocate tx way) \<or> (\<exists>req. try_reg req m h = Inl e)"
proof -
  have p: "progress try_reg tx m h = Inl e \<Longrightarrow> \<exists>req. try_reg req m h = Inl e" for tx e
    by (cases tx) (auto simp: bindR_def split: sum.splits)
  have s: "complete_store req h' \<noteq> Inl e" if "is_store req" for req h' and e :: panic
    using that by (cases req) (simp_all add: complete_store_def)
  show ?thesis
    using assms p s
    by (cases "fsm c")
      (auto simp: GeneralCache_tick_def fsm_ok_def tick_idle_def tick_miss_penalty_def tick_write_back_def
        tick_propagate_def unwrapR_def bindR_def Let_def case_prod_unfold
        split: sum.splits if_splits option.splits list.splits)
qed

subsection \<open>Properties\<close>



text \<open>
  C13. Every controller state that can be reached, by building a cache and then ticking it and
  registering requests in any order over any next level, is well formed: the request of a miss is set
  aside exactly while the miss is handled, demand requests are pending in the idle state only, a
  prefetch is never a store and leaves the flag cleared when it ends, no address is queued twice.
  Hence no \<open>unwrap\<close> of the controller fails: outside the lookup and the insertion of a refill a tick
  panics only if the next level does.
\<close>

theorem reachable_cache_ok:
  assumes "reachable R try_reg c"
  shows "fsm_ok c \<and>
    (\<forall>m h e. GeneralCache_tick R try_reg c m h = Inl e \<longrightarrow>
       (\<exists>req. fsm c = Lookup req) \<or> (\<exists>tx way. fsm c = Allocate tx way) \<or> (\<exists>req. try_reg req m h = Inl e))"
  using reachable_fsm_ok [OF assms] by (auto dest: fsm_ok_panic_source)

theorem reachable_cache_ok_witness:
  "case GeneralCache_try_register_req fifo_ops SimpleDram_try_register_req
      (LoadReq \<lparr>lr_addr = 8, lr_len = 4, lr_cell = 0\<rparr>) next_line_cache tiny_dram
      [\<lparr>cell_done = False, cell_buffer = [0, 0, 0, 0]\<rparr>] of
     Inr (ok, c, _) \<Rightarrow> ok \<and> fsm c \<noteq> Idle \<and> fsm_ok c | _ \<Rightarrow> False"
proof -
  let ?r = "GeneralCache_try_register_req fifo_ops SimpleDram_try_register_req
      (LoadReq \<lparr>lr_addr = 8, lr_len = 4, lr_cell = 0\<rparr>) next_line_cache tiny_dram
      [\<lparr>cell_done = False, cell_buffer = [0, 0, 0, 0]\<rparr>]"
  have "case ?r of Inr (ok, c, _) \<Rightarrow> ok \<and> fsm c \<noteq> Idle | _ \<Rightarrow> False" by code_simp
  then obtain c m h where r: "?r = Inr (True, c, m, h)" "fsm c \<noteq> Idle" by (auto split: sum.splits)
  have "reachable fifo_ops SimpleDram_try_register_req c"
    using r(1) by (rule reachable.register [OF reachable.new [OF next_line_cache_new]])
  from reachable_cache_ok [OF this] r show ?thesis by simp
qed

end
