(* ===== verification/Workloads.thy ===== *)
theory Workloads
  imports Prelude "HOL-Library.Multiset"
begin

text \<open>
  The kernels of the guest workloads (\<open>runtime/bin\<close>): factorial, matrix multiplication, quicksort
  and merge sort.  They are modelled in the debug profile the simulator loads by default: indexing
  is bounds-checked and arithmetic that leaves the range of its type panics.  The sorts are generic
  over a linear order, as the source is over \<open>Ord + Clone\<close>, and work in place on a vector.
\<close>

subsection \<open>Factorial\<close>

definition u32_checked_mul :: "nat \<Rightarrow> nat \<Rightarrow> nat res" where
  "u32_checked_mul a b = (if a * b < 2 ^ 32 then Inr (a * b) else Inl ArithmeticOverflow)"

text \<open>A \<open>u32\<close> argument as a natural number below \<open>2 ^ 32\<close>.\<close>

fun factorial :: "nat \<Rightarrow> nat res" where
  "factorial n =
     (if n = 0 \<or> n = 1 then Inr n
      else bindR (factorial (n - 1)) (u32_checked_mul n))"

declare factorial.simps [simp del]

lemma fact_12: "fact 12 < (2 ^ 32 :: nat)" and fact_13: "(2 ^ 32 :: nat) \<le> fact 13"
  by (simp_all add: fact_numeral)

lemma factorial_ok: "1 \<le> n \<Longrightarrow> n \<le> 12 \<Longrightarrow> factorial n = Inr (fact n)"
proof (induction n rule: nat_induct_at_least)
  case base
  then show ?case by (simp add: factorial.simps)
next
  case (Suc n)
  have "fact (Suc n) \<le> (fact 12 :: nat)" using Suc.prems by (intro fact_mono) simp
  then have "Suc n * fact n < (2 ^ 32 :: nat)" using fact_12 by simp
  with Suc show ?case by (simp add: factorial.simps [of "Suc n"] u32_checked_mul_def)
qed

lemma factorial_overflow: "13 \<le> n \<Longrightarrow> factorial n = Inl ArithmeticOverflow"
proof (induction n rule: nat_induct_at_least)
  case base
  have "factorial 12 = Inr (fact 12)" by (rule factorial_ok) simp_all
  moreover have "\<not> 13 * fact 12 < (2 ^ 32 :: nat)" using fact_13 by (simp add: fact_numeral)
  ultimately show ?case by (simp add: factorial.simps [of 13] u32_checked_mul_def)
next
  case (Suc n)
  then show ?case by (simp add: factorial.simps [of "Suc n"])
qed

text \<open>
  C40.  The factorial workload: the recursion returns \<open>n!\<close> exactly for arguments 1 to 12 (and 0 for
  the argument 0); for every larger argument, the 20 of the workload included, a multiplication
  overflows and the program panics.
\<close>

theorem factorial_spec:
  "factorial n =
     (if n = 0 then Inr 0 else if n \<le> 12 then Inr (fact n) else Inl ArithmeticOverflow)"
  using factorial_ok [of n] factorial_overflow [of n] by (auto simp: factorial.simps [of 0])

subsection \<open>Quicksort\<close>

definition swapR :: "'a list \<Rightarrow> nat \<Rightarrow> nat \<Rightarrow> 'a list res" where
  "swapR v i j = bindR (idx v i) (\<lambda>x. bindR (idx v j) (\<lambda>y. Inr (v[i := y, j := x])))"

text \<open>The loop \<open>for j in low..high\<close>, over the values of \<open>j\<close> still to come.\<close>

fun partition_loop :: "'a::linorder \<Rightarrow> nat list \<Rightarrow> nat \<Rightarrow> 'a list \<Rightarrow> (nat \<times> 'a list) res" where
  "partition_loop pivot [] i v = Inr (i, v)"
| "partition_loop pivot (j # js) i v =
     bindR (idx v j) (\<lambda>x.
     if x \<le> pivot then bindR (swapR v i j) (partition_loop pivot js (i + 1))
     else partition_loop pivot js i v)"

definition qs_partition :: "'a::linorder list \<Rightarrow> nat \<Rightarrow> nat \<Rightarrow> (nat \<times> 'a list) res" where
  "qs_partition v low high =
     bindR (idx v high) (\<lambda>pivot.
     bindR (partition_loop pivot [low..<high] low v) (\<lambda>(i, v1).
     bindR (swapR v1 i high) (\<lambda>v2. Inr (i, v2))))"

lemma partition_loop_index:
  "partition_loop p js i v = Inr (i', v') \<Longrightarrow> i \<le> i' \<and> i' \<le> i + length js"
proof (induction p js i v rule: partition_loop.induct)
  case (2 p j js i v)
  then show ?case
    by (fastforce simp: bindR_def swapR_def split: sum.splits if_splits)
qed simp

lemma qs_partition_index:
  "qs_partition v low high = Inr (p, v') \<Longrightarrow> low \<le> high \<Longrightarrow> low \<le> p \<and> p \<le> high"
  by (auto simp: qs_partition_def bindR_def split: sum.splits dest!: partition_loop_index)

function quick_sort_range :: "'a::linorder list \<Rightarrow> nat \<Rightarrow> nat \<Rightarrow> 'a list res" where
  "quick_sort_range v low high =
     (if low < high then
        bindR (qs_partition v low high) (\<lambda>(pivot_index, v1).
        bindR (if pivot_index > 0 then quick_sort_range v1 low (pivot_index - 1) else Inr v1) (\<lambda>v2.
        if pivot_index < high then quick_sort_range v2 (pivot_index + 1) high else Inr v2))
      else Inr v)"
  by pat_completeness auto
termination
  by (relation "measure (\<lambda>(v, low, high). high - low)") (auto dest!: qs_partition_index)

declare quick_sort_range.simps [simp del]

definition quick_sort :: "'a::linorder list \<Rightarrow> 'a list res" where
  "quick_sort v = (if length v \<le> 1 then Inr v else quick_sort_range v 0 (length v - 1))"

text \<open>\<open>window l u v v'\<close>: \<open>v'\<close> permutes the positions \<open>l\<close> to \<open>u - 1\<close> of \<open>v\<close> and keeps the others.\<close>

definition window :: "nat \<Rightarrow> nat \<Rightarrow> 'a list \<Rightarrow> 'a list \<Rightarrow> bool" where
  "window l u v v' \<longleftrightarrow> take l v' = take l v \<and> drop u v' = drop u v \<and> mset v' = mset v \<and> length v' = length v"

definition range_of :: "nat \<Rightarrow> nat \<Rightarrow> 'a list \<Rightarrow> 'a list" where
  "range_of l u v = take (u - l) (drop l v)"

lemma window_refl [simp]: "window l u v v"
  by (simp add: window_def)

lemma window_trans: "window l u v v1 \<Longrightarrow> window l u v1 v2 \<Longrightarrow> window l u v v2"
  by (simp add: window_def)

lemma take_eq_le: "take n xs = take n ys \<Longrightarrow> m \<le> n \<Longrightarrow> take m xs = take m ys"
  by (metis min.absorb1 take_take)

lemma drop_eq_le: "drop n xs = drop n ys \<Longrightarrow> n \<le> m \<Longrightarrow> drop m xs = drop m ys"
  by (metis drop_drop le_add_diff_inverse2)

lemma window_mono: "window l u v v' \<Longrightarrow> l' \<le> l \<Longrightarrow> u \<le> u' \<Longrightarrow> window l' u' v v'"
  unfolding window_def using take_eq_le drop_eq_le by blast

lemma window_nth:
  assumes "window l u v v'" "i < l \<or> u \<le> i" "i < length v"
  shows "v' ! i = v ! i"
proof (cases "i < l")
  case True
  with assms show ?thesis by (metis window_def nth_take)
next
  case False
  with assms have i: "u \<le> i" and d: "drop u v' = drop u v" and len: "length v' = length v"
    by (auto simp: window_def)
  from i assms(3) len have "v' ! i = drop u v' ! (i - u)" "v ! i = drop u v ! (i - u)"
    by (subst nth_drop; simp)+
  with d show ?thesis by simp
qed

lemma window_split: "l \<le> u \<Longrightarrow> u \<le> length v \<Longrightarrow> v = take l v @ range_of l u v @ drop u v"
proof -
  assume "l \<le> u"
  then have "drop u v = drop (u - l) (drop l v)" by simp
  then show ?thesis unfolding range_of_def by (metis append_take_drop_id)
qed

lemma window_slice:
  assumes "window l u v v'" "l \<le> u" "u \<le> length v"
  shows "mset (range_of l u v') = mset (range_of l u v)"
proof -
  have "mset w = mset (take l w) + mset (range_of l u w) + mset (drop u w)" if "length w = length v" for w
    using window_split [of l u w] assms that by (metis mset_append add.assoc)
  from this [of v'] this [of v] assms(1) show ?thesis
    unfolding window_def by (metis add_left_cancel add_right_cancel)
qed

lemma set_slice: "u \<le> length v \<Longrightarrow> set (range_of l u v) = {v ! k |k. l \<le> k \<and> k < u}"
proof -
  assume u: "u \<le> length v"
  have "x \<in> set (range_of l u v) \<longleftrightarrow> (\<exists>i < u - l. x = v ! (l + i))" for x
    using u by (auto simp: range_of_def in_set_conv_nth)
  moreover have "(\<exists>i < u - l. x = v ! (l + i)) \<longleftrightarrow> (\<exists>k. l \<le> k \<and> k < u \<and> x = v ! k)" for x
    by (metis add_diff_inverse_nat le_add1 less_diff_conv2 add.commute linorder_not_less nat_le_linear less_diff_conv)
  ultimately show ?thesis by blast
qed

lemma window_set:
  assumes "window l u v v'" "l \<le> u" "u \<le> length v"
  shows "{v' ! k |k. l \<le> k \<and> k < u} = {v ! k |k. l \<le> k \<and> k < u}"
  using set_slice [of u v' l] set_slice [of u v l] mset_eq_setD [OF window_slice [OF assms]] assms
  by (simp add: window_def)

lemma swapR_window:
  assumes "i < length v" "j < length v" "l \<le> i" "l \<le> j" "i < u" "j < u"
  shows "swapR v i j = Inr (v[i := v ! j, j := v ! i])" "window l u v (v[i := v ! j, j := v ! i])"
  using assms by (simp_all add: swapR_def idx_def window_def mset_swap)

text \<open>The loop invariant: positions below \<open>i\<close> hold elements up to the pivot, those up to \<open>j\<close> larger ones.\<close>

lemma partition_loop_spec:
  assumes "low \<le> i" "i \<le> j" "j \<le> high" "high < length v"
    and "\<forall>k. low \<le> k \<and> k < i \<longrightarrow> v ! k \<le> pivot" "\<forall>k. i \<le> k \<and> k < j \<longrightarrow> pivot < v ! k"
  shows "\<exists>i' v'. partition_loop pivot [j..<high] i v = Inr (i', v') \<and> i \<le> i' \<and> i' \<le> high \<and>
    window low high v v' \<and> (\<forall>k. low \<le> k \<and> k < i' \<longrightarrow> v' ! k \<le> pivot) \<and>
    (\<forall>k. i' \<le> k \<and> k < high \<longrightarrow> pivot < v' ! k)"
  using assms
proof (induction "high - j" arbitrary: i j v)
  case 0
  then show ?case by auto
next
  case (Suc n)
  then have j: "j < high" "[j..<high] = j # [Suc j..<high]" by (simp_all add: upt_conv_Cons)
  have len: "j < length v" using j Suc.prems by simp
  show ?case
  proof (cases "v ! j \<le> pivot")
    case False
    have "\<exists>i' v'. partition_loop pivot [Suc j..<high] i v = Inr (i', v') \<and> i \<le> i' \<and> i' \<le> high \<and>
      window low high v v' \<and> (\<forall>k. low \<le> k \<and> k < i' \<longrightarrow> v' ! k \<le> pivot) \<and>
      (\<forall>k. i' \<le> k \<and> k < high \<longrightarrow> pivot < v' ! k)"
      by (rule Suc.hyps) (use Suc.hyps(2) Suc.prems j False in \<open>auto simp: less_Suc_eq\<close>)
    with False j(2) len show ?thesis by (simp add: idx_def)
  next
    case True
    let ?w = "v[i := v ! j, j := v ! i]"
    have i: "i < length v" using Suc.prems j by simp
    note sw = swapR_window [OF i len Suc.prems(1), of high]
    have "\<exists>i' v'. partition_loop pivot [Suc j..<high] (Suc i) ?w = Inr (i', v') \<and> Suc i \<le> i' \<and> i' \<le> high \<and>
      window low high ?w v' \<and> (\<forall>k. low \<le> k \<and> k < i' \<longrightarrow> v' ! k \<le> pivot) \<and>
      (\<forall>k. i' \<le> k \<and> k < high \<longrightarrow> pivot < v' ! k)"
      by (rule Suc.hyps)
        (use Suc.hyps(2) Suc.prems j True i len in \<open>auto simp: less_Suc_eq nth_list_update\<close>)
    then obtain i' v' where r: "partition_loop pivot [Suc j..<high] (Suc i) ?w = Inr (i', v')"
      "Suc i \<le> i'" "i' \<le> high" "window low high ?w v'" "\<forall>k. low \<le> k \<and> k < i' \<longrightarrow> v' ! k \<le> pivot"
      "\<forall>k. i' \<le> k \<and> k < high \<longrightarrow> pivot < v' ! k" by blast
    have "window low high v v'"
      using window_trans [OF _ r(4)] sw(2) Suc.prems j by simp
    moreover have "partition_loop pivot [j..<high] i v = Inr (i', v')"
      using True j len sw(1) Suc.prems r(1) by (simp add: idx_def)
    ultimately show ?thesis using r(2-3,5-6) by (meson Suc_leD)
  qed
qed

lemma qs_partition_spec:
  assumes "low < high" "high < length v"
  shows "\<exists>p v'. qs_partition v low high = Inr (p, v') \<and> low \<le> p \<and> p \<le> high \<and>
    window low (Suc high) v v' \<and> (\<forall>k. low \<le> k \<and> k < p \<longrightarrow> v' ! k \<le> v' ! p) \<and>
    (\<forall>k. p < k \<and> k \<le> high \<longrightarrow> v' ! p \<le> v' ! k)"
proof -
  let ?p = "v ! high"
  have e: "\<forall>k. low \<le> k \<and> k < low \<longrightarrow> v ! k \<le> ?p" "\<forall>k. low \<le> k \<and> k < low \<longrightarrow> ?p < v ! k" by auto
  from partition_loop_spec [OF order_refl order_refl _ assms(2) e] assms(1) obtain i v1 where
    l: "partition_loop ?p [low..<high] low v = Inr (i, v1)" "low \<le> i" "i \<le> high"
      "window low high v v1" "\<forall>k. low \<le> k \<and> k < i \<longrightarrow> v1 ! k \<le> ?p"
      "\<forall>k. i \<le> k \<and> k < high \<longrightarrow> ?p < v1 ! k" by auto
  have len: "length v1 = length v" and hi: "v1 ! high = ?p"
    using l(4) window_nth [OF l(4), of high] assms by (auto simp: window_def)
  let ?w = "v1[i := v1 ! high, high := v1 ! i]"
  have sw: "swapR v1 i high = Inr ?w" "window low (Suc high) v1 ?w"
    using swapR_window [of i v1 high low "Suc high"] l(2,3) assms len by auto
  have w: "window low (Suc high) v ?w"
    by (rule window_trans [OF window_mono [OF l(4)] sw(2)]) auto
  have n: "?w ! k = (if k = high then v1 ! i else if k = i then ?p else v1 ! k)" if "k \<le> high" for k
    using that l(3) assms len hi by (auto simp: nth_list_update)
  have ni: "?w ! i = ?p" using n [OF l(3)] hi by simp
  have "\<forall>k. low \<le> k \<and> k < i \<longrightarrow> ?w ! k \<le> ?w ! i" unfolding ni using n l(3,5) by simp
  moreover have "\<forall>k. i < k \<and> k \<le> high \<longrightarrow> ?w ! i \<le> ?w ! k"
  proof (intro allI impI)
    fix k assume k: "i < k \<and> k \<le> high"
    have "?w ! k = v1 ! (if k = high then i else k)" using n [of k] k by simp
    moreover have "?p < v1 ! (if k = high then i else k)" using l(6) k by auto
    ultimately show "?w ! i \<le> ?w ! k" unfolding ni by simp
  qed
  ultimately show ?thesis using l(1-3) sw(1) w assms by (simp add: qs_partition_def idx_def)
qed

definition sorted_between :: "nat \<Rightarrow> nat \<Rightarrow> 'a::linorder list \<Rightarrow> bool" where
  "sorted_between l u v \<longleftrightarrow> (\<forall>a b. l \<le> a \<and> a \<le> b \<and> b < u \<longrightarrow> v ! a \<le> v ! b)"

lemma sorted_between_window:
  "sorted_between l u v \<Longrightarrow> window l' u' v v' \<Longrightarrow> u \<le> l' \<or> u' \<le> l \<Longrightarrow> u \<le> length v \<Longrightarrow>
   sorted_between l u v'"
  by (auto simp: sorted_between_def window_nth)

text \<open>Joining the two sorted sides of a pivot.\<close>

lemma sorted_between_join:
  assumes "sorted_between l p v" "sorted_between (Suc p) u v"
    "\<And>k. l \<le> k \<Longrightarrow> k < p \<Longrightarrow> v ! k \<le> v ! p" "\<And>k. p < k \<Longrightarrow> k < u \<Longrightarrow> v ! p \<le> v ! k"
  shows "sorted_between l u v"
  unfolding sorted_between_def
proof (intro allI impI)
  fix a b assume ab: "l \<le> a \<and> a \<le> b \<and> b < u"
  consider "b < p" | "b = p" | "p < b" "a \<le> p" | "p < a" using ab by linarith
  then show "v ! a \<le> v ! b"
  proof cases
    case 1
    then show ?thesis using ab assms(1) by (simp add: sorted_between_def)
  next
    case 2
    then show ?thesis using ab assms(3) [of a] by (cases "a = p") auto
  next
    case 3
    then have "v ! a \<le> v ! p" using ab assms(3) [of a] by (cases "a = p") auto
    also have "v ! p \<le> v ! b" using 3 ab assms(4) by simp
    finally show ?thesis .
  next
    case 4
    then show ?thesis using ab assms(2) by (simp add: sorted_between_def)
  qed
qed

lemma bound_window:
  assumes "window l u v v'" "l \<le> u" "u \<le> length v" "\<And>k. l \<le> k \<Longrightarrow> k < u \<Longrightarrow> P (v ! k)" "l \<le> k" "k < u"
  shows "P (v' ! k)"
proof -
  have "v' ! k \<in> {v' ! k |k. l \<le> k \<and> k < u}" using assms(5,6) by blast
  then obtain n where "v' ! k = v ! n" "l \<le> n" "n < u" unfolding window_set [OF assms(1-3)] by blast
  with assms(4) [of n] show ?thesis by simp
qed

lemma quick_sort_range_spec:
  "high < length v \<Longrightarrow>
   \<exists>v'. quick_sort_range v low high = Inr v' \<and> window low (Suc high) v v' \<and> sorted_between low (Suc high) v'"
proof (induction "high - low" arbitrary: v low high rule: less_induct)
  case less
  show ?case
  proof (cases "low < high")
    case False
    have "a = b" if "low \<le> a" "a \<le> b" "b < Suc high" for a b using that False by linarith
    then have "sorted_between low (Suc high) v" unfolding sorted_between_def by blast
    with False show ?thesis by (subst quick_sort_range.simps) simp
  next
    case lh: True
    from qs_partition_spec [OF lh less.prems] obtain p v1 where
      p: "qs_partition v low high = Inr (p, v1)" "low \<le> p" "p \<le> high" "window low (Suc high) v v1"
        "\<forall>k. low \<le> k \<and> k < p \<longrightarrow> v1 ! k \<le> v1 ! p" "\<forall>k. p < k \<and> k \<le> high \<longrightarrow> v1 ! p \<le> v1 ! k" by blast
    have len1: "length v1 = length v" using p(4) by (simp add: window_def)
    have "\<exists>v2. (if p > 0 then quick_sort_range v1 low (p - 1) else Inr v1) = Inr v2 \<and>
      window low p v1 v2 \<and> sorted_between low p v2"
    proof (cases "p > 0")
      case True
      then show ?thesis
        using less.hyps [of "p - 1" low v1] p(2,3) lh less.prems len1 by simp
    next
      case False
      with p(2) have "p = 0" "low = 0" by auto
      then show ?thesis by (auto simp: sorted_between_def)
    qed
    then obtain v2 where v2: "(if p > 0 then quick_sort_range v1 low (p - 1) else Inr v1) = Inr v2"
      "window low p v1 v2" "sorted_between low p v2" by blast
    have len2: "length v2 = length v" using v2(2) len1 by (simp add: window_def)
    have "\<exists>v3. (if p < high then quick_sort_range v2 (p + 1) high else Inr v2) = Inr v3 \<and>
      window (Suc p) (Suc high) v2 v3 \<and> sorted_between (Suc p) (Suc high) v3"
    proof (cases "p < high")
      case True
      then show ?thesis using less.hyps [of high "p + 1" v2] p(2) less.prems len2 by simp
    next
      case False
      with p(3) show ?thesis by (auto simp: sorted_between_def)
    qed
    then obtain v3 where v3: "(if p < high then quick_sort_range v2 (p + 1) high else Inr v2) = Inr v3"
      "window (Suc p) (Suc high) v2 v3" "sorted_between (Suc p) (Suc high) v3" by blast
    have w: "window low (Suc high) v v3"
      using p window_mono [OF v2(2), of low "Suc high"] window_mono [OF v3(2), of low "Suc high"]
      by (meson le_SucI order_refl window_trans)
    have pl: "p < length v1" using p(3) less.prems len1 by simp
    have pv: "v2 ! p = v1 ! p" "v3 ! p = v1 ! p"
      using window_nth [OF v2(2) _ pl] window_nth [OF v3(2), of p] pl len1 len2 by auto
    have lo2: "v2 ! k \<le> v1 ! p" if "low \<le> k" "k < p" for k
      by (rule bound_window [OF v2(2), where P = "\<lambda>x. x \<le> v1 ! p"]) (use that p pl in auto)
    have hi2: "v1 ! p \<le> v2 ! k" if "p < k" "k \<le> high" for k
      using window_nth [OF v2(2), of k] that p(6) less.prems len1 by simp
    have lo3: "v3 ! k \<le> v3 ! p" if "low \<le> k" "k < p" for k
      using window_nth [OF v3(2), of k] that lo2 pv p(3) less.prems len2 by simp
    have hi3: "v3 ! p \<le> v3 ! k" if "p < k" "k < Suc high" for k
      unfolding pv by (rule bound_window [OF v3(2), where P = "\<lambda>x. v1 ! p \<le> x"])
        (use that hi2 less.prems len2 in auto)
    have "sorted_between low p v3"
      by (rule sorted_between_window [OF v2(3) v3(2)]) (use pl len1 len2 in auto)
    from sorted_between_join [OF this v3(3) lo3 hi3] have "sorted_between low (Suc high) v3" by blast
    with w p(1) v2(1) v3(1) lh show ?thesis by (simp add: quick_sort_range.simps [of v])
  qed
qed

text \<open>
  C29.  Quicksort terminates on every vector without an out-of-range access and returns the sorted
  vector: in-place partitioning and recursion on index ranges compute the library sort.
\<close>

theorem quick_sort_sorts: "quick_sort v = Inr (sort v)"
proof (cases "length v \<le> 1")
  case True
  then have "sort v = v" by (cases v) auto
  with True show ?thesis by (simp add: quick_sort_def)
next
  case False
  then obtain v' where v': "quick_sort_range v 0 (length v - 1) = Inr v'" "window 0 (length v) v v'"
    "sorted_between 0 (length v) v'" using quick_sort_range_spec [of "length v - 1" v 0]
    by (metis Suc_diff_1 diff_less less_one linorder_not_less nat_less_le order.strict_trans2 zero_less_one)
  then have "sorted v'" "mset v' = mset v"
    by (auto simp: window_def sorted_between_def sorted_iff_nth_mono)
  with False v'(1) show ?thesis by (simp add: quick_sort_def properties_for_sort)
qed

subsection \<open>Merge sort\<close>

text \<open>The main loop of \<open>merge\<close>, with its three cursors.\<close>

function merge_loop ::
  "'a::linorder list \<Rightarrow> 'a list \<Rightarrow> nat \<Rightarrow> nat \<Rightarrow> nat \<Rightarrow> 'a list \<Rightarrow> (nat \<times> nat \<times> nat \<times> 'a list) res" where
  "merge_loop left right i j k v =
     (if i < length left \<and> j < length right then
        if left ! i \<le> right ! j
        then bindR (upd v k (left ! i)) (merge_loop left right (i + 1) j (k + 1))
        else bindR (upd v k (right ! j)) (merge_loop left right i (j + 1) (k + 1))
      else Inr (i, j, k, v))"
  by pat_completeness auto
termination
  by (relation "measure (\<lambda>(l, r, i, j, k, v). (length l - i) + (length r - j))") auto

text \<open>The loops that copy what is left of one side.\<close>

function copy_rest :: "'a list \<Rightarrow> nat \<Rightarrow> nat \<Rightarrow> 'a list \<Rightarrow> (nat \<times> 'a list) res" where
  "copy_rest xs i k v =
     (if i < length xs then bindR (upd v k (xs ! i)) (copy_rest xs (i + 1) (k + 1))
      else Inr (k, v))"
  by pat_completeness auto
termination
  by (relation "measure (\<lambda>(xs, i, k, v). length xs - i)") auto

declare merge_loop.simps [simp del] copy_rest.simps [simp del]

definition merge_ranges :: "'a::linorder list \<Rightarrow> nat \<Rightarrow> nat \<Rightarrow> nat \<Rightarrow> 'a list res" where
  "merge_ranges v start mid end =
     bindR (get_range v start mid) (\<lambda>left.
     bindR (get_range v mid end) (\<lambda>right.
     bindR (merge_loop left right 0 0 start v) (\<lambda>(i, j, k, v1).
     bindR (copy_rest left i k v1) (\<lambda>(k1, v2).
     bindR (copy_rest right j k1 v2) (\<lambda>(k2, v3). Inr v3)))))"

function merge_sort_range :: "'a::linorder list \<Rightarrow> nat \<Rightarrow> nat \<Rightarrow> 'a list res" where
  "merge_sort_range v start end =
     (if end - start \<le> 1 then Inr v
      else let mid = start + (end - start) div 2 in
        bindR (merge_sort_range v start mid) (\<lambda>v1.
        bindR (merge_sort_range v1 mid end) (\<lambda>v2.
        merge_ranges v2 start mid end)))"
  by pat_completeness auto
termination
  by (relation "measure (\<lambda>(v, start, end). end - start)") auto

declare merge_sort_range.simps [simp del]

definition merge_sort :: "'a::linorder list \<Rightarrow> 'a list res" where
  "merge_sort v = (if length v \<le> 1 then Inr v else merge_sort_range v 0 (length v))"

text \<open>The merge of two lists, as the reference for the loops.\<close>

fun merged :: "'a::linorder list \<Rightarrow> 'a list \<Rightarrow> 'a list" where
  "merged [] ys = ys"
| "merged xs [] = xs"
| "merged (x # xs) (y # ys) = (if x \<le> y then x # merged xs (y # ys) else y # merged (x # xs) ys)"

lemma merged_Nil2 [simp]: "merged xs [] = xs"
  by (cases xs) simp_all

lemma mset_merged: "mset (merged xs ys) = mset xs + mset ys"
  by (induction xs ys rule: merged.induct) auto

lemma length_merged: "length (merged xs ys) = length xs + length ys"
  using arg_cong [OF mset_merged, of size xs ys] by simp

lemma sorted_merged: "sorted xs \<Longrightarrow> sorted ys \<Longrightarrow> sorted (merged xs ys)"
proof (induction xs ys rule: merged.induct)
  case (3 x xs y ys)
  have "set (merged us ws) = set us \<union> set ws" for us ws :: "'a list"
    using mset_merged [of us ws] by (metis set_mset_mset set_mset_union)
  with 3 show ?case by (fastforce simp: not_le)
qed auto

lemma put_seg_Cons:
  "k + length ys < length v \<Longrightarrow> put_seg (Suc k) ys (v[k := x]) = put_seg k (x # ys) v"
  by (rule nth_equalityI) (auto simp: nth_put_seg nth_list_update nth_Cons')

lemma put_seg_Nil [simp]: "put_seg k [] v = v"
  by (simp add: put_seg_def)

lemma copy_rest_spec:
  "k + (length xs - i) \<le> length v \<Longrightarrow>
   copy_rest xs i k v = Inr (k + (length xs - i), put_seg k (drop i xs) v)"
proof (induction xs i k v rule: copy_rest.induct)
  case (1 xs i k v)
  show ?case
  proof (cases "i < length xs")
    case True
    with 1 have "copy_rest xs i k v = Inr (Suc k + (length xs - Suc i), put_seg (Suc k) (drop (Suc i) xs) (v[k := xs ! i]))"
      by (subst copy_rest.simps) (simp add: upd_def)
    moreover have "drop i xs = xs ! i # drop (Suc i) xs" using True by (rule Cons_nth_drop_Suc [symmetric])
    ultimately show ?thesis using True 1(2) put_seg_Cons [of k "drop (Suc i) xs" v "xs ! i"] by simp
  qed (simp add: copy_rest.simps)
qed

lemma merge_loop_spec:
  "k + (length l - i) + (length r - j) \<le> length v \<Longrightarrow>
   bindR (merge_loop l r i j k v) (\<lambda>(i, j, k, v1).
     bindR (copy_rest l i k v1) (\<lambda>(k1, v2). bindR (copy_rest r j k1 v2) (\<lambda>(k2, v3). Inr v3))) =
   Inr (put_seg k (merged (drop i l) (drop j r)) v)"
proof (induction l r i j k v rule: merge_loop.induct)
  case (1 l r i j k v)
  show ?case
  proof (cases "i < length l \<and> j < length r")
    case True
    then have d: "drop i l = l ! i # drop (Suc i) l" "drop j r = r ! j # drop (Suc j) r"
      by (simp_all add: Cons_nth_drop_Suc)
    have k: "k < length v" "upd v k x = Inr (v[k := x])" for x using True 1(3) by (auto simp: upd_def)
    show ?thesis
    proof (cases "l ! i \<le> r ! j")
      case le: True
      let ?m = "merged (drop (Suc i) l) (drop j r)"
      have "k + length ?m < length v" unfolding length_merged length_drop using True 1(3) by linarith
      with 1(1) [of "v[k := l ! i]"] 1(3) True le k d put_seg_Cons [of k ?m v "l ! i"] show ?thesis
        by (subst merge_loop.simps) simp
    next
      case gt: False
      let ?m = "merged (drop i l) (drop (Suc j) r)"
      have "k + length ?m < length v" unfolding length_merged length_drop using True 1(3) by linarith
      with 1(2) [of "v[k := r ! j]"] 1(3) True gt k d put_seg_Cons [of k ?m v "r ! j"] show ?thesis
        by (subst merge_loop.simps) simp
    qed
  next
    case False
    then have "drop i l = [] \<or> drop j r = []" by auto
    with False 1(3) show ?thesis
      by (subst merge_loop.simps) (auto simp: copy_rest_spec)
  qed
qed

lemma merge_ranges_spec:
  assumes "start \<le> mid" "mid \<le> end" "end \<le> length v"
  shows "merge_ranges v start mid end =
    Inr (put_seg start (merged (seg start (mid - start) v) (seg mid (end - mid) v)) v)"
proof -
  let ?l = "seg start (mid - start) v" and ?r = "seg mid (end - mid) v"
  have "length ?l = mid - start" "length ?r = end - mid" using assms by auto
  with merge_loop_spec [of start ?l 0 ?r 0 v] assms show ?thesis
    by (simp add: merge_ranges_def get_range_def)
qed

lemma sort_split:
  assumes "start \<le> mid" "mid \<le> end" "end \<le> length v"
  shows "merged (sort (seg start (mid - start) v)) (sort (seg mid (end - mid) v)) =
    sort (seg start (end - start) v)"
proof -
  have "seg start (end - start) v = seg start (mid - start) v @ seg mid (end - mid) v"
  proof -
    have e: "end - start = (mid - start) + (end - mid)" and d: "drop mid v = drop (mid - start) (drop start v)"
      using assms by simp_all
    show ?thesis unfolding seg_def e take_add d ..
  qed
  then show ?thesis
    by (intro properties_for_sort [symmetric]) (simp_all add: mset_merged sorted_merged)
qed

lemma merge_sort_range_spec:
  "start \<le> end \<Longrightarrow> end \<le> length v \<Longrightarrow>
   merge_sort_range v start end = Inr (put_seg start (sort (seg start (end - start) v)) v)"
proof (induction v start "end" rule: merge_sort_range.induct)
  case (1 v start "end")
  let ?n = "end - start"
  show ?case
  proof (cases "?n \<le> 1")
    case True
    then have "sort (seg start ?n v) = seg start ?n v"
      by (intro sort_key_id_if_sorted sorted01) simp
    then show ?thesis
      using True put_seg_seg_same [of start ?n v] 1(3,4) by (simp add: merge_sort_range.simps)
  next
    case False
    define mid where "mid = start + ?n div 2"
    have m: "start \<le> mid" "mid < end" "start < mid" using False by (auto simp: mid_def)
    let ?L = "sort (seg start (mid - start) v)" and ?R = "sort (seg mid (end - mid) v)"
    have len: "length ?L = mid - start" "length ?R = end - mid" using m 1(4) by auto
    let ?v1 = "put_seg start ?L v"
    have v1: "merge_sort_range v start mid = Inr ?v1" "length ?v1 = length v"
      using 1(1) [OF False mid_def] m 1(4) len by auto
    have s1: "seg mid (end - mid) ?v1 = seg mid (end - mid) v"
      by (rule seg_put_seg_disjoint) (use m 1(4) len in auto)
    let ?v2 = "put_seg mid ?R ?v1"
    have v2: "merge_sort_range ?v1 mid end = Inr ?v2" "length ?v2 = length v"
      using 1(2) [OF False mid_def v1(1)] m 1(4) v1(2) s1 len by auto
    have sl: "seg start (mid - start) ?v2 = ?L"
    proof -
      have "seg start (mid - start) ?v2 = seg start (mid - start) ?v1"
        by (rule seg_put_seg_disjoint) (use m 1(4) len v1(2) in auto)
      then show ?thesis using seg_put_seg_same [of start ?L v] len m 1(4) by simp
    qed
    have sr: "seg mid (end - mid) ?v2 = ?R"
      using seg_put_seg_same [of mid ?R ?v1] len m 1(4) v1(2) by simp
    have "merge_ranges ?v2 start mid end = Inr (put_seg start (sort (seg start ?n v)) ?v2)"
      using merge_ranges_spec [of start mid "end" ?v2] m 1(4) v2(2) sl sr sort_split [of start mid "end" v]
      by simp
    also have "put_seg start (sort (seg start ?n v)) ?v2 = put_seg start (sort (seg start ?n v)) v"
      using m 1(4) v1(2) v2(2) len by (intro nth_equalityI) (auto simp: nth_put_seg)
    finally show ?thesis
      using False v1(1) v2(1) by (subst merge_sort_range.simps) (simp add: mid_def [symmetric])
  qed
qed

text \<open>
  C30.  Merge sort terminates on every vector without an out-of-range access and returns the sorted
  vector.
\<close>

theorem merge_sort_sorts: "merge_sort v = Inr (sort v)"
proof (cases "length v \<le> 1")
  case True
  then have "sort v = v" by (cases v) auto
  with True show ?thesis by (simp add: merge_sort_def)
next
  case False
  have "seg 0 (length v) v = v" "put_seg 0 (sort v) v = sort v" by (simp_all add: seg_def put_seg_def)
  with False merge_sort_range_spec [of 0 "length v" v] show ?thesis by (simp add: merge_sort_def)
qed

subsection \<open>Matrix multiplication\<close>

definition i32_checked :: "int \<Rightarrow> int res" where
  "i32_checked x = (if - (2 ^ 31) \<le> x \<and> x < 2 ^ 31 then Inr x else Inl ArithmeticOverflow)"

text \<open>A \<open>for\<close> loop over index values with a state.\<close>

fun for_each :: "(nat \<Rightarrow> 's \<Rightarrow> 's res) \<Rightarrow> nat list \<Rightarrow> 's \<Rightarrow> 's res" where
  "for_each body [] s = Inr s"
| "for_each body (x # xs) s = bindR (body x s) (for_each body xs)"

definition push_counter :: "nat \<Rightarrow> int list \<times> int \<Rightarrow> (int list \<times> int) res" where
  "push_counter _ = (\<lambda>(row, counter).
     bindR (i32_checked (counter + 1)) (\<lambda>counter'. Inr (row @ [counter], counter')))"

definition push_row :: "nat \<Rightarrow> nat \<Rightarrow> int list list \<times> int \<Rightarrow> (int list list \<times> int) res" where
  "push_row sz _ = (\<lambda>(matrix, counter).
     bindR (for_each push_counter [0..<sz] ([], counter)) (\<lambda>(row, counter').
     Inr (matrix @ [row], counter')))"

definition generate_large_matrix :: "nat \<Rightarrow> int list list res" where
  "generate_large_matrix sz =
     bindR (for_each (push_row sz) [0..<sz] ([], 1)) (\<lambda>(matrix, counter). Inr matrix)"

definition matmul_step ::
  "int list list \<Rightarrow> int list list \<Rightarrow> nat \<Rightarrow> nat \<Rightarrow> nat \<Rightarrow> int list list \<Rightarrow> int list list res" where
  "matmul_step a b i j k result =
     bindR (idx a i) (\<lambda>a_i. bindR (idx a_i k) (\<lambda>x.
     bindR (idx b k) (\<lambda>b_k. bindR (idx b_k j) (\<lambda>y.
     bindR (i32_checked (x * y)) (\<lambda>prod.
     bindR (idx result i) (\<lambda>r_i. bindR (idx r_i j) (\<lambda>r.
     bindR (i32_checked (r + prod)) (\<lambda>sum. Inr (result[i := r_i[j := sum]])))))))))"

definition matrix_multiply :: "int list list \<Rightarrow> int list list \<Rightarrow> int list list option res" where
  "matrix_multiply a b =
     (if a = [] \<or> b = [] \<or> length (a ! 0) \<noteq> length b then Inr None
      else
        let rows_a = length a; cols_a = length (a ! 0); cols_b = length (b ! 0) in
        bindR (for_each (\<lambda>i. for_each (\<lambda>j. for_each (matmul_step a b i j) [0..<cols_a]) [0..<cols_b])
                 [0..<rows_a] (replicate rows_a (replicate cols_b 0)))
          (\<lambda>result. Inr (Some result)))"

text \<open>The mathematical product, and the partial sums of an entry.\<close>

definition dot :: "int list list \<Rightarrow> int list list \<Rightarrow> nat \<Rightarrow> nat \<Rightarrow> nat \<Rightarrow> int" where
  "dot a b i j m = (\<Sum>k < m. a ! i ! k * b ! k ! j)"

definition matrix_product :: "int list list \<Rightarrow> int list list \<Rightarrow> int list list" where
  "matrix_product a b =
     map (\<lambda>i. map (\<lambda>j. dot a b i j (length b)) [0..<length (b ! 0)]) [0..<length a]"

definition rectangular :: "nat \<Rightarrow> nat \<Rightarrow> int list list \<Rightarrow> bool" where
  "rectangular n m a \<longleftrightarrow> length a = n \<and> (\<forall>row \<in> set a. length row = m)"

definition i32_range :: "int \<Rightarrow> bool" where
  "i32_range x \<longleftrightarrow> - (2 ^ 31) \<le> x \<and> x < 2 ^ 31"

lemma i32_range_small: "0 \<le> x \<Longrightarrow> x \<le> 1000000 \<Longrightarrow> i32_range x"
  by (simp add: i32_range_def)

lemma for_each_append:
  "for_each f (xs @ ys) s = bindR (for_each f xs s) (for_each f ys)"
  by (induction xs arbitrary: s) (auto intro: bindR_cong)

lemma for_each_upt:
  "(\<And>k. k < n \<Longrightarrow> f k (S k) = Inr (S (Suc k))) \<Longrightarrow> for_each f [0..<n] (S 0) = Inr (S n)"
  by (induction n) (simp_all add: for_each_append)

text \<open>The result matrix while entry \<open>(i, j)\<close> holds its first \<open>k\<close> terms.\<close>

definition progress_matrix ::
  "int list list \<Rightarrow> int list list \<Rightarrow> nat \<Rightarrow> nat \<Rightarrow> nat \<Rightarrow> nat \<Rightarrow> nat \<Rightarrow> int list list" where
  "progress_matrix a b n p i j k =
     map (\<lambda>i'. map (\<lambda>j'. if i' < i \<or> i' = i \<and> j' < j then dot a b i' j' (length b)
                       else if i' = i \<and> j' = j then dot a b i j k else 0) [0..<p]) [0..<n]"

lemma progress_matrix_next:
  "progress_matrix a b n p i j (length b) = progress_matrix a b n p i (Suc j) 0"
  "progress_matrix a b n p i p 0 = progress_matrix a b n p (Suc i) 0 0"
  by (auto simp: progress_matrix_def dot_def less_Suc_eq)

lemma matmul_step_progress:
  assumes "rectangular n m a" "rectangular m p b" "i < n" "j < p" "k < m"
    and "i32_range (a ! i ! k * b ! k ! j)" "i32_range (dot a b i j (Suc k))"
  shows "matmul_step a b i j k (progress_matrix a b n p i j k) =
    Inr (progress_matrix a b n p i j (Suc k))"
proof -
  have len: "length a = n" "length b = m" "length (a ! i) = m" "length (b ! k) = p"
    using assms by (auto simp: rectangular_def)
  let ?P = "progress_matrix a b n p i j"
  have P: "length (?P k) = n" "length (?P k ! i) = p" "?P k ! i ! j = dot a b i j k"
    using assms by (simp_all add: progress_matrix_def)
  have d: "dot a b i j k + a ! i ! k * b ! k ! j = dot a b i j (Suc k)" by (simp add: dot_def)
  have "(?P k)[i := (?P k ! i)[j := dot a b i j (Suc k)]] = ?P (Suc k)"
    using assms(3,4) by (intro nth_equalityI)
      (auto simp: progress_matrix_def nth_list_update intro!: nth_equalityI)
  with assms(3-7) len P d show ?thesis
    by (simp add: matmul_step_def idx_def i32_checked_def i32_range_def)
qed

lemma matrix_multiply_correct:
  assumes "rectangular n m a" "rectangular m p b" "0 < n" "0 < m"
    and "\<forall>i < n. \<forall>j < p. \<forall>k < m. i32_range (a ! i ! k * b ! k ! j) \<and> i32_range (dot a b i j (Suc k))"
  shows "matrix_multiply a b = Inr (Some (matrix_product a b))"
proof -
  let ?P = "progress_matrix a b n p"
  have len: "length a = n" "length b = m" "length (a ! 0) = m" "length (b ! 0) = p"
    using assms by (auto simp: rectangular_def)
  have inner: "for_each (matmul_step a b i j) [0..<m] (?P i j 0) = Inr (?P i (Suc j) 0)"
    if "i < n" "j < p" for i j
    using for_each_upt [of m "matmul_step a b i j" "?P i j"] that assms(5)
      matmul_step_progress [OF assms(1,2) that] progress_matrix_next(1) [of a b n p i j] len by simp
  have middle: "for_each (\<lambda>j. for_each (matmul_step a b i j) [0..<m]) [0..<p] (?P i 0 0) = Inr (?P (Suc i) 0 0)"
    if "i < n" for i
    using for_each_upt [of p "\<lambda>j. for_each (matmul_step a b i j) [0..<m]" "\<lambda>j. ?P i j 0"] inner that
    by (simp add: progress_matrix_next)
  have "for_each (\<lambda>i. for_each (\<lambda>j. for_each (matmul_step a b i j) [0..<m]) [0..<p]) [0..<n] (?P 0 0 0) =
      Inr (?P n 0 0)"
    using for_each_upt [of n "\<lambda>i. for_each (\<lambda>j. for_each (matmul_step a b i j) [0..<m]) [0..<p]" "\<lambda>i. ?P i 0 0"]
      middle by simp
  moreover have "?P 0 0 0 = replicate n (replicate p 0)"
    by (auto simp: progress_matrix_def dot_def list_eq_iff_nth_eq)
  moreover have "?P n 0 0 = matrix_product a b"
    using len by (auto simp: progress_matrix_def matrix_product_def)
  moreover have "a \<noteq> []" "b \<noteq> []" using len assms(3,4) by auto
  ultimately show ?thesis using len by (simp add: matrix_multiply_def Let_def)
qed

text \<open>
  C31.  Matrix multiplication returns the mathematical product of any rectangular matrices with
  matching dimensions whose products and partial sums fit \<open>i32\<close>: no index is out of range, no
  operation overflows.
\<close>

theorem matrix_multiply_product:
  assumes "rectangular n m a" "rectangular m p b" "0 < n" "0 < m"
    and "\<forall>i < n. \<forall>j < p. \<forall>k < m. i32_range (a ! i ! k * b ! k ! j) \<and> i32_range (dot a b i j (Suc k))"
  shows "matrix_multiply a b = Inr (Some (matrix_product a b))"
  using assms by (rule matrix_multiply_correct)

theorem matrix_multiply_product_witness:
  "matrix_multiply [[1, 2], [3, 4]] [[5], [6]] = Inr (Some (matrix_product [[1, 2], [3, 4]] [[5], [6]]))"
  by (rule matrix_multiply_product [of 2 2 _ 1])
    (auto simp: rectangular_def i32_range_def dot_def less_Suc_eq numeral_2_eq_2)

lemma push_counter_row:
  "c + int n < 2 ^ 31 \<Longrightarrow> 0 \<le> c \<Longrightarrow>
   for_each push_counter [0..<n] ([], c) = Inr (map (\<lambda>j. c + int j) [0..<n], c + int n)"
  using for_each_upt [of n push_counter "\<lambda>k. (map (\<lambda>j. c + int j) [0..<k], c + int k)"]
  by (simp add: push_counter_def i32_checked_def)

lemma generate_large_matrix_spec:
  assumes "int (n * n) + 1 < 2 ^ 31"
  shows "generate_large_matrix n = Inr (map (\<lambda>i. map (\<lambda>j. 1 + int (i * n) + int j) [0..<n]) [0..<n])"
proof -
  let ?S = "\<lambda>i. (map (\<lambda>i. map (\<lambda>j. 1 + int (i * n) + int j) [0..<n]) [0..<i], 1 + int (i * n))"
  have "push_row n i (?S i) = Inr (?S (Suc i))" if "i < n" for i
  proof -
    have "Suc i * n \<le> n * n" using that by (intro mult_le_mono1) simp
    then have "int (Suc i * n) \<le> int (n * n)" by (simp only: of_nat_le_iff)
    then have "1 + int (i * n) + int n < 2 ^ 31" using assms by (simp add: algebra_simps)
    from push_counter_row [OF this] show ?thesis by (simp add: push_row_def algebra_simps)
  qed
  from for_each_upt [of n "push_row n" ?S, OF this] show ?thesis by (simp add: generate_large_matrix_def)
qed

text \<open>The matrix workload generates this matrix, numbering the elements row by row.\<close>

definition counting_matrix :: "int list list" where
  "counting_matrix = map (\<lambda>i. map (\<lambda>j. 1 + int (i * 15) + int j) [0..<15]) [0..<15]"

lemma matmul_workload:
  shows "generate_large_matrix 15 = Inr counting_matrix"
    and "matrix_multiply counting_matrix counting_matrix = Inr (Some (matrix_product counting_matrix counting_matrix))"
proof -
  let ?m = counting_matrix
  have m: "?m ! i ! j = 1 + int (i * 15) + int j" if "i < 15" "j < 15" for i j
    using that by (simp add: counting_matrix_def)
  show "generate_large_matrix 15 = Inr ?m" using generate_large_matrix_spec [of 15] by (simp add: counting_matrix_def)
  have r: "rectangular 15 15 ?m" by (auto simp: rectangular_def counting_matrix_def)
  have e: "0 \<le> ?m ! i ! k * ?m ! k ! j \<and> ?m ! i ! k * ?m ! k ! j \<le> 225 * 225"
    if "i < 15" "j < 15" "k < 15" for i j k :: nat
  proof -
    have "(1 + int (i * 15) + int k) * (1 + int (k * 15) + int j) \<le> 225 * 225"
      by (rule mult_mono) (use that in auto)
    with that show ?thesis by (simp add: m)
  qed
  have d: "0 \<le> dot ?m ?m i j k \<and> dot ?m ?m i j k \<le> int k * (225 * 225)"
    if "i < 15" "j < 15" "k \<le> 15" for i j k
    using that(3)
  proof (induction k)
    case (Suc k)
    with e [of i j k] that show ?case by (simp add: dot_def)
  qed (simp add: dot_def)
  show "matrix_multiply ?m ?m = Inr (Some (matrix_product ?m ?m))"
  proof (rule matrix_multiply_correct [OF r r])
    show "\<forall>i < 15. \<forall>j < 15. \<forall>k < 15. i32_range (?m ! i ! k * ?m ! k ! j) \<and> i32_range (dot ?m ?m i j (Suc k))"
    proof (intro allI impI)
      fix i j k :: nat assume b: "i < 15" "j < 15" "k < 15"
      have sk: "Suc k \<le> 15" using b by simp
      then have "int (Suc k) * (225 * 225) \<le> 1000000" by simp
      then have "dot ?m ?m i j (Suc k) \<le> 1000000" using d [OF b(1,2) sk] by linarith
      then show "i32_range (?m ! i ! k * ?m ! k ! j) \<and> i32_range (dot ?m ?m i j (Suc k))"
        using e [OF b] d [OF b(1,2) sk] by (intro conjI i32_range_small) linarith+
    qed
  qed simp_all
qed

end
