(* ===== verification/Runtime_Allocator.thy ===== *)
theory Runtime_Allocator
  imports Prelude
begin

text \<open>
  The heap of the guest runtime (\<open>runtime/src/allocator.rs\<close>): the bump allocator behind the global
  allocator and the dummy allocator.  \<open>u32\<close> and \<open>usize\<close> values of the 32-bit guest are natural
  numbers below \<open>2 ^ 32\<close>; additions that the source leaves unchecked panic on overflow, as in the
  debug build the simulator loads by default.  A null pointer is \<open>None\<close>.
\<close>

record Layout =
  lay_size :: nat
  lay_align :: nat

record BumpAllocator =
  heap_start :: nat
  heap_end :: nat
  bump_next :: nat
  num_alloc :: nat

definition u32_checked_add :: "nat \<Rightarrow> nat \<Rightarrow> nat option" where
  "u32_checked_add a b = (if a + b < 2 ^ 32 then Some (a + b) else None)"

definition bump_new :: BumpAllocator where
  "bump_new = \<lparr>heap_start = 0, heap_end = 0, bump_next = 0, num_alloc = 0\<rparr>"

definition bump_init :: "nat \<Rightarrow> nat \<Rightarrow> BumpAllocator \<Rightarrow> BumpAllocator" where
  "bump_init start end a = a\<lparr>heap_start := start, bump_next := start, heap_end := end\<rparr>"

text \<open>The start address: the next free address, rounded up to the alignment.\<close>

definition alloc_start :: "Layout \<Rightarrow> BumpAllocator \<Rightarrow> nat res" where
  "alloc_start layout a =
     (if lay_align layout = 0 then Inl DivisionByZero
      else if bump_next a mod lay_align layout = 0 then Inr (bump_next a)
      else unwrapR ArithmeticOverflow
             (u32_checked_add (bump_next a - bump_next a mod lay_align layout) (lay_align layout)))"

definition bump_alloc :: "Layout \<Rightarrow> BumpAllocator \<Rightarrow> (nat option \<times> BumpAllocator) res" where
  "bump_alloc layout a =
     bindR (alloc_start layout a) (\<lambda>start.
     case u32_checked_add start (lay_size layout) of
       None \<Rightarrow> Inr (None, a)
     | Some alloc_end \<Rightarrow>
         (if alloc_end > heap_end a then Inr (None, a)
          else bindR (unwrapR ArithmeticOverflow (u32_checked_add (num_alloc a) 1)) (\<lambda>n.
               Inr (Some start, a\<lparr>num_alloc := n, bump_next := alloc_end\<rparr>))))"

definition bump_dealloc :: "BumpAllocator \<Rightarrow> BumpAllocator res" where
  "bump_dealloc a =
     (if num_alloc a = 0 then Inl DeallocationError
      else let a1 = a\<lparr>num_alloc := num_alloc a - 1\<rparr> in
        Inr (if num_alloc a1 = 0 then a1\<lparr>bump_next := heap_start a1\<rparr> else a1))"

definition dummy_alloc :: "Layout \<Rightarrow> nat option" where
  "dummy_alloc layout = None"

definition dummy_dealloc :: "nat \<Rightarrow> Layout \<Rightarrow> unit res" where
  "dummy_dealloc ptr layout = Inl Unimplemented"

subsection \<open>Blocks handed out\<close>

text \<open>
  A history of allocations and deallocations, with the blocks handed out since the heap was last
  empty.
\<close>

datatype heap_op = Alloc Layout | Dealloc

type_synonym block = "nat \<times> Layout"

fun heap_step :: "heap_op \<Rightarrow> BumpAllocator \<times> block list \<Rightarrow> (BumpAllocator \<times> block list) res" where
  "heap_step (Alloc layout) (a, bs) =
     bindR (bump_alloc layout a) (\<lambda>(ptr, a1).
     Inr (a1, case ptr of None \<Rightarrow> bs | Some p \<Rightarrow> (p, layout) # bs))"
| "heap_step Dealloc (a, bs) =
     bindR (bump_dealloc a) (\<lambda>a1. Inr (a1, if num_alloc a1 = 0 then [] else bs))"

fun heap_run :: "heap_op list \<Rightarrow> BumpAllocator \<times> block list \<Rightarrow> (BumpAllocator \<times> block list) res" where
  "heap_run [] s = Inr s"
| "heap_run (op # ops) s = bindR (heap_step op s) (heap_run ops)"

definition block_ok :: "nat \<Rightarrow> nat \<Rightarrow> block \<Rightarrow> bool" where
  "block_ok lo hi b \<longleftrightarrow> (case b of (p, layout) \<Rightarrow>
     lo \<le> p \<and> p + lay_size layout \<le> hi \<and> lay_align layout dvd p)"

definition disjoint :: "block \<Rightarrow> block \<Rightarrow> bool" where
  "disjoint b c \<longleftrightarrow> fst b + lay_size (snd b) \<le> fst c \<or> fst c + lay_size (snd c) \<le> fst b"

definition heap_inv :: "nat \<Rightarrow> nat \<Rightarrow> BumpAllocator \<times> block list \<Rightarrow> bool" where
  "heap_inv lo hi = (\<lambda>(a, bs).
     heap_start a = lo \<and> heap_end a = hi \<and> lo \<le> bump_next a \<and> bump_next a \<le> hi \<and>
     list_all (block_ok lo (bump_next a)) bs \<and> sorted_wrt disjoint bs)"

lemma alloc_start_spec:
  assumes "alloc_start layout a = Inr s"
  shows "bump_next a \<le> s \<and> lay_align layout dvd s \<and> s < bump_next a + lay_align layout"
proof (cases "bump_next a mod lay_align layout = 0")
  case True
  with assms show ?thesis by (auto simp: alloc_start_def dvd_eq_mod_eq_0 split: if_splits)
next
  case False
  let ?n = "bump_next a" and ?al = "lay_align layout"
  from False assms have al: "0 < ?al" and s: "s = ?n - ?n mod ?al + ?al"
    by (auto simp: alloc_start_def unwrapR_def u32_checked_add_def split: if_splits)
  have "?n mod ?al < ?al" using al by simp
  moreover have "?al dvd ?n - ?n mod ?al" by (rule dvd_minus_mod)
  moreover have "?n mod ?al \<le> ?n" by simp
  ultimately show ?thesis unfolding s using False by (intro conjI dvd_add) auto
qed

lemma bump_alloc_cases:
  assumes "bump_alloc layout a = Inr (ptr, a1)"
  shows "ptr = None \<and> a1 = a \<or>
    (\<exists>s. ptr = Some s \<and> alloc_start layout a = Inr s \<and> s + lay_size layout \<le> heap_end a \<and>
       a1 = a\<lparr>num_alloc := num_alloc a + 1, bump_next := s + lay_size layout\<rparr>)"
  using assms by (auto simp: bump_alloc_def bindR_def u32_checked_add_def unwrapR_def
      split: sum.splits option.splits if_splits)

lemma heap_step_inv:
  assumes "heap_inv lo hi st" "heap_step op st = Inr st'" shows "heap_inv lo hi st'"
proof -
  obtain a bs where st: "st = (a, bs)" by (cases st)
  show ?thesis
  proof (cases op)
    case (Alloc layout)
    then obtain ptr a1 where r: "bump_alloc layout a = Inr (ptr, a1)"
      and st': "st' = (a1, case ptr of None \<Rightarrow> bs | Some p \<Rightarrow> (p, layout) # bs)"
      using assms(2) st by (auto simp: bindR_def split: sum.splits)
    from bump_alloc_cases [OF r] show ?thesis
    proof
      assume "ptr = None \<and> a1 = a"
      then show ?thesis using assms(1) st st' by simp
    next
      assume "\<exists>s. ptr = Some s \<and> alloc_start layout a = Inr s \<and> s + lay_size layout \<le> heap_end a \<and>
        a1 = a\<lparr>num_alloc := num_alloc a + 1, bump_next := s + lay_size layout\<rparr>"
      then obtain s where s: "ptr = Some s" "alloc_start layout a = Inr s"
        "s + lay_size layout \<le> heap_end a"
        "a1 = a\<lparr>num_alloc := num_alloc a + 1, bump_next := s + lay_size layout\<rparr>" by blast
      note sp = alloc_start_spec [OF s(2)]
      have "list_all (block_ok lo (s + lay_size layout)) bs" "\<forall>b \<in> set bs. disjoint (s, layout) b"
        using assms(1) st sp by (fastforce simp: heap_inv_def list_all_iff block_ok_def disjoint_def)+
      then show ?thesis using assms(1) st st' s sp by (auto simp: heap_inv_def block_ok_def)
    qed
  next
    case Dealloc
    with assms st show ?thesis
      by (auto simp: heap_inv_def bump_dealloc_def bindR_def Let_def split: if_splits)
  qed
qed

lemma heap_run_inv:
  "heap_inv lo hi st \<Longrightarrow> heap_run ops st = Inr st' \<Longrightarrow> heap_inv lo hi st'"
proof (induction ops arbitrary: st)
  case (Cons op ops)
  then obtain st1 where "heap_step op st = Inr st1" "heap_run ops st1 = Inr st'"
    by (auto simp: bindR_def split: sum.splits)
  with Cons heap_step_inv show ?case by blast
qed simp

text \<open>
  C27.  Heap safety of the guest allocator: after any sequence of allocations and deallocations that
  does not panic, the blocks handed out since the heap was last empty are aligned as requested,
  lie inside the heap, and are pairwise disjoint.
\<close>

theorem bump_allocator_blocks:
  assumes "lo \<le> hi" "heap_run ops (bump_init lo hi bump_new, []) = Inr (a, bs)"
  shows "list_all (block_ok lo hi) bs \<and> sorted_wrt disjoint bs"
proof -
  have "heap_inv lo hi (bump_init lo hi bump_new, [])"
    using assms(1) by (simp add: heap_inv_def bump_init_def bump_new_def)
  from heap_run_inv [OF this assms(2)] show ?thesis
    by (fastforce simp: heap_inv_def list_all_iff block_ok_def)
qed

theorem bump_allocator_blocks_witness:
  "\<exists>a bs. heap_run [Alloc \<lparr>lay_size = 5, lay_align = 1\<rparr>, Alloc \<lparr>lay_size = 8, lay_align = 4\<rparr>]
      (bump_init 0x100 0x200 bump_new, []) = Inr (a, bs) \<and> length bs = 2 \<and>
    list_all (block_ok 0x100 0x200) bs \<and> sorted_wrt disjoint bs"
proof -
  let ?ops = "[Alloc \<lparr>lay_size = 5, lay_align = 1\<rparr>, Alloc \<lparr>lay_size = 8, lay_align = 4\<rparr>]"
  obtain a bs where r: "heap_run ?ops (bump_init 0x100 0x200 bump_new, []) = Inr (a, bs)" "length bs = 2"
    by (simp add: bump_alloc_def alloc_start_def bump_init_def bump_new_def u32_checked_add_def unwrapR_def)
  with bump_allocator_blocks [OF _ r(1)] show ?thesis by auto
qed

text \<open>
  C28.  Allocation succeeds exactly when the request fits: from a state whose next free address lies
  in the heap of a 32-bit address space, a request with a power-of-two alignment returns the lowest
  aligned address at or above the next free one if the block ends inside the heap, and null
  otherwise; it panics only if rounding up or the allocation counter leaves the 32-bit range.
\<close>

theorem bump_alloc_fits:
  assumes "0 < lay_align layout" "heap_end a < 2 ^ 32" "num_alloc a + 1 < 2 ^ 32"
    and "s = lay_align layout * ((bump_next a + lay_align layout - 1) div lay_align layout)" "s < 2 ^ 32"
  shows "bump_alloc layout a =
    (if s + lay_size layout \<le> heap_end a
     then Inr (Some s, a\<lparr>num_alloc := num_alloc a + 1, bump_next := s + lay_size layout\<rparr>)
     else Inr (None, a))"
proof -
  let ?n = "bump_next a" and ?al = "lay_align layout"
  have "alloc_start layout a = Inr s"
  proof (cases "?n mod ?al = 0")
    case True
    then obtain q where q: "?n = ?al * q" by blast
    have "(?al * q + ?al - 1) div ?al = q"
    proof -
      have "?al * q + ?al - 1 = (?al - 1) + ?al * q" using assms(1) by simp
      then show ?thesis using assms(1) by (simp only: div_mult_self2) simp
    qed
    with True q assms show ?thesis by (simp add: alloc_start_def)
  next
    case False
    have e: "?n = ?al * (?n div ?al) + ?n mod ?al" by simp
    have "(?n + ?al - 1) div ?al = ?n div ?al + 1"
    proof -
      have "?n + ?al - 1 = ?al * (?n div ?al + 1) + (?n mod ?al - 1)"
      proof -
        have "?al * (?n div ?al + 1) = ?al * (?n div ?al) + ?al" by simp
        then show ?thesis using False e by linarith
      qed
      moreover have "?n mod ?al - 1 < ?al" using assms(1) by (simp add: less_imp_diff_less)
      ultimately show ?thesis using assms(1) by (metis div_mult_self4 div_less add.right_neutral add.commute less_numeral_extra(3))
    qed
    then have "s = ?n - ?n mod ?al + ?al" using assms(4) by (simp add: algebra_simps minus_mod_eq_mult_div)
    with False assms show ?thesis by (simp add: alloc_start_def u32_checked_add_def unwrapR_def)
  qed
  with assms show ?thesis
    by (auto simp: bump_alloc_def u32_checked_add_def unwrapR_def)
qed

theorem bump_alloc_fits_witness:
  "bump_alloc \<lparr>lay_size = 8, lay_align = 4\<rparr> (bump_init 0x101 0x200 bump_new) =
     Inr (Some 0x104, (bump_init 0x101 0x200 bump_new)\<lparr>num_alloc := 1, bump_next := 0x10c\<rparr>)"
  using bump_alloc_fits [of "\<lparr>lay_size = 8, lay_align = 4\<rparr>" "bump_init 0x101 0x200 bump_new" "0x104"]
  by (simp add: bump_init_def bump_new_def)

end
