(* ===== verification/Rust_Format.thy ===== *)
theory Rust_Format
  imports Runner
begin

text \<open>
  Formatting: the parts of Rust's \<open>fmt\<close> that the sources use (decimal and hexadecimal numbers, padding,
  debug output of vectors and plain words) and the \<open>Display\<close> texts of the error types.  A \<open>str\<close> is the list
  of its characters; all of them are below 256.  Numbers can be read back from their decimal text, so two
  different configuration errors never print the same message.
\<close>

subsection \<open>Numbers\<close>

definition digit :: "nat \<Rightarrow> char" where
  "digit d = char_of (48 + d)"

fun dec :: "nat \<Rightarrow> string" where
  "dec n = (if n < 10 then [digit n] else dec (n div 10) @ [digit (n mod 10)])"

declare dec.simps [simp del]

definition dec_int :: "int \<Rightarrow> string" where
  "dec_int i = (if i < 0 then ''-'' @ dec (nat (- i)) else dec (nat i))"

text \<open>\<open>{:3}\<close> aligns numbers to the right.\<close>

definition pad_left :: "nat \<Rightarrow> string \<Rightarrow> string" where
  "pad_left w s = replicate (w - length s) CHR '' '' @ s"

text \<open>\<open>{:#x}\<close>, and \<open>{:#08X}\<close> with its zeros between the prefix and the digits.\<close>

definition hex_digit :: "nat \<Rightarrow> nat \<Rightarrow> char" where
  "hex_digit letter_a d = char_of (if d < 10 then 48 + d else letter_a + (d - 10))"

fun hex :: "nat \<Rightarrow> nat \<Rightarrow> string" where
  "hex letter_a n =
     (if n < 16 then [hex_digit letter_a n] else hex letter_a (n div 16) @ [hex_digit letter_a (n mod 16)])"

declare hex.simps [simp del]

definition hex_lower :: "u32 \<Rightarrow> string" where
  "hex_lower w = ''0x'' @ hex 97 (unat w)"

definition hex_upper_08 :: "u32 \<Rightarrow> string" where
  "hex_upper_08 w = (let h = hex 65 (unat w) in ''0x'' @ replicate (6 - length h) CHR ''0'' @ h)"

text \<open>Debug output of a vector, and of a word that needs no escapes.\<close>

fun join :: "string list \<Rightarrow> string" where
  "join [] = []"
| "join [s] = s"
| "join (s # ss) = s @ '', '' @ join ss"

definition debug_vec :: "('a \<Rightarrow> string) \<Rightarrow> 'a list \<Rightarrow> string" where
  "debug_vec f xs = ''['' @ join (map f xs) @ '']''"

definition debug_word :: "string \<Rightarrow> string" where
  "debug_word s = CHR 0x22 # s @ [CHR 0x22]"

subsection \<open>Reading numbers back\<close>

definition is_digit :: "char \<Rightarrow> bool" where
  "is_digit c \<longleftrightarrow> 48 \<le> (of_char c :: nat) \<and> (of_char c :: nat) < 58"

definition parse_dec :: "string \<Rightarrow> nat" where
  "parse_dec s = foldl (\<lambda>n c. 10 * n + (of_char c - 48)) 0 s"

lemma of_char_digit: "d < 10 \<Longrightarrow> (of_char (digit d) :: nat) = 48 + d"
  by (simp add: digit_def of_char_of take_bit_eq_mod)

lemma is_digit_digit: "d < 10 \<Longrightarrow> is_digit (digit d)"
  by (simp add: is_digit_def of_char_digit)

lemma dec_digits: "list_all is_digit (dec n)"
  by (induction n rule: dec.induct) (subst dec.simps, simp add: is_digit_digit)

lemma parse_dec_dec: "parse_dec (dec n) = n"
proof (induction n rule: dec.induct)
  case (1 n)
  show ?case
  proof (cases "n < 10")
    case True
    then show ?thesis by (simp add: dec.simps [of n] parse_dec_def of_char_digit)
  next
    case False
    with 1 have "parse_dec (dec (n div 10)) = n div 10" by simp
    with False show ?thesis by (simp add: dec.simps [of n] parse_dec_def of_char_digit)
  qed
qed

lemma dec_inject: "dec m = dec n \<longleftrightarrow> m = n"
  using parse_dec_dec by metis

text \<open>A number followed by something that is no digit is read off the front.\<close>

lemma takeWhile_dec:
  assumes "\<not> is_digit c"
  shows "takeWhile is_digit (dec n @ c # s) = dec n"
  using assms dec_digits [of n] by (simp add: takeWhile_append2 list_all_iff)

lemma dec_prefix_inject:
  assumes "\<not> is_digit c" "\<not> is_digit c'" "dec m @ c # s = dec n @ c' # t"
  shows "m = n \<and> c # s = c' # t"
proof -
  have "dec m = dec n" using takeWhile_dec [OF assms(1), of m s] takeWhile_dec [OF assms(2), of n t] assms(3) by simp
  then show ?thesis using assms(3) dec_inject by simp
qed

subsection \<open>Error messages\<close>

fun GeneralCacheConfigError_fmt :: "GeneralCacheConfigError \<Rightarrow> string" where
  "GeneralCacheConfigError_fmt ZeroTotalSize = ''total size must be greater than zero''"
| "GeneralCacheConfigError_fmt ZeroBlockSize = ''block size must be greater than zero''"
| "GeneralCacheConfigError_fmt (BlockSizeNotPowerOfTwo block_size) =
     ''block size must be a power of two, got '' @ dec block_size"
| "GeneralCacheConfigError_fmt ZeroAssociativity = ''associativity must be greater than zero''"
| "GeneralCacheConfigError_fmt (SetCapacityOverflow block_size num_of_way) =
     ''block size '' @ dec block_size @ '' and associativity '' @ dec num_of_way @ '' overflow set capacity''"
| "GeneralCacheConfigError_fmt (TotalSizeNotSetMultiple total_size block_size num_of_way) =
     ''total size '' @ dec total_size @ '' must be a multiple of block size '' @ dec block_size @
     '' x associativity '' @ dec num_of_way"
| "GeneralCacheConfigError_fmt (NumSetsNotPowerOfTwo num_sets) =
     ''number of sets must be a power of two, got '' @ dec num_sets"

fun DecodeError_fmt :: "DecodeError \<Rightarrow> string" where
  "DecodeError_fmt (DecodeIllegalInstruction raw_inst pc) =
     ''Unknown instruction: '' @ hex_upper_08 raw_inst @ '' at PC: '' @ hex_lower pc"
| "DecodeError_fmt (DecodeUnsupportedFence pc) = ''FENCE is not implemented at PC: '' @ hex_lower pc"

lemma dec_Nil [simp]: "dec n \<noteq> []"
  by (subst dec.simps) simp

lemma dec_starts_digit:
  assumes "\<not> is_digit c"
  shows "c # s \<noteq> dec n @ t" "dec n @ t \<noteq> c # s"
  using assms dec_digits [of n] by (cases "dec n"; auto)+

lemma letters_no_digits [simp]: "\<not> is_digit CHR '' ''" "\<not> is_digit CHR ''m''"
  by (simp_all add: is_digit_def)

lemma GeneralCacheConfigError_fmt_inject:
  "GeneralCacheConfigError_fmt e = GeneralCacheConfigError_fmt e' \<longleftrightarrow> e = e'"
proof -
  have space: "dec m @ CHR '' '' # s = dec n @ CHR '' '' # t \<longleftrightarrow> m = n \<and> s = t" for m n s t
    using dec_prefix_inject [of "CHR '' ''" "CHR '' ''" m s n t] by auto
  show ?thesis
    by (cases e; cases e') (simp_all add: space dec_inject dec_starts_digit)
qed

fun SimulationConfigError_fmt :: "SimulationConfigError \<Rightarrow> string" where
  "SimulationConfigError_fmt (CacheError level source) =
     ''invalid '' @ level @ '' cache config: '' @ GeneralCacheConfigError_fmt source"
| "SimulationConfigError_fmt (PseudoLruAssociativity level num_of_way) =
     ''invalid '' @ level @ '' replacement config: PLRU associativity must be a power of two, got '' @ dec num_of_way"

fun SimulationConfigError_source :: "SimulationConfigError \<Rightarrow> GeneralCacheConfigError option" where
  "SimulationConfigError_source (CacheError level source) = Some source"
| "SimulationConfigError_source (PseudoLruAssociativity level num_of_way) = None"

text \<open>The message identifies the error: of all errors validation can report, no two print alike.\<close>

lemma SimulationConfigError_fmt_inject:
  assumes "cache_configs c = Inl e" "cache_configs c' = Inl e'"
  shows "SimulationConfigError_fmt e = SimulationConfigError_fmt e' \<longleftrightarrow> e = e'"
proof -
  let ?levels = "{''L1-I$'', ''L1-D$'', ''L2$''}"
  have level: "(case e of CacheError l _ \<Rightarrow> l | PseudoLruAssociativity l _ \<Rightarrow> l) \<in> ?levels"
    if "cache_configs c = Inl e" for c e
    using that by (auto simp: cache_configs_def validate_replacement_policy_def level_config_def
        split: sum.splits if_splits)
  show ?thesis
    using level [OF assms(1)] level [OF assms(2)]
    by (cases e; cases e') (auto simp: dec_inject GeneralCacheConfigError_fmt_inject)
qed

end
