(* ===== verification/Guest_Programs.thy ===== *)
theory Guest_Programs
  imports Workloads Runtime_Allocator Rust_Format "HOL-Library.List_Lexorder" "HOL-Library.Char_ord"
begin

text \<open>
  The guest's console and start-up code (\<open>runtime/src/basic_io.rs\<close>, \<open>runtime/src/lib.rs\<close>) and the \<open>main\<close>
  functions of the workloads (\<open>runtime/bin\<close>).  What a program does to the outside is the list of its
  environment calls, each with the values of \<open>a0\<close> and \<open>a1\<close>: 1 writes a character, 0 ends the program.
  The text of a panic comes from the standard library and is an argument.
\<close>

subsection \<open>Console\<close>

type_synonym syscall = "u32 \<times> u32"

definition internal_syscall :: "u32 \<Rightarrow> u32 \<Rightarrow> syscall list" where
  "internal_syscall reg_a0 reg_a1 = [(reg_a0, reg_a1)]"

definition platform_outb :: "char \<Rightarrow> syscall list" where
  "platform_outb single_char = internal_syscall 1 (of_char single_char)"

text \<open>The simulation ends at this call; the \<open>unreachable!()\<close> behind it is never reached.\<close>

definition exit_success :: "syscall list" where
  "exit_success = internal_syscall 0 0"

definition write_str :: "string \<Rightarrow> syscall list" where
  "write_str s = concat (map platform_outb s)"

text \<open>A computation that writes to the console and may panic on the way.\<close>

type_synonym 'a con = "syscall list \<times> 'a res"

fun bindC :: "'a con \<Rightarrow> ('a \<Rightarrow> 'b con) \<Rightarrow> 'b con" where
  "bindC (t, Inl e) f = (t, Inl e)"
| "bindC (t, Inr x) f = (t @ fst (f x), snd (f x))"

definition lift_res :: "'a res \<Rightarrow> 'a con" where
  "lift_res r = ([], r)"

definition put :: "string \<Rightarrow> unit con" where
  "put s = (write_str s, Inr ())"

definition putln :: "string \<Rightarrow> unit con" where
  "putln s = put (s @ [CHR 0x0A])"

fun each :: "('a \<Rightarrow> unit con) \<Rightarrow> 'a list \<Rightarrow> unit con" where
  "each f [] = ([], Inr ())"
| "each f (x # xs) = bindC (f x) (\<lambda>_. each f xs)"

subsection \<open>Start-up\<close>

definition HEAP_SIZE :: nat where "HEAP_SIZE = 0x4000"
definition STACK_SIZE :: nat where "STACK_SIZE = 0x4000"

definition terminate :: "syscall list" where
  "terminate = exit_success"

definition panic_handler :: "string \<Rightarrow> syscall list" where
  "panic_handler message = write_str (''Panicked! '' @ message @ [CHR 0x0A]) @ terminate"

text \<open>The byte stores of the loop over the \<open>.bss\<close> section.\<close>

definition clear_bss :: "nat \<Rightarrow> nat \<Rightarrow> u8 list \<Rightarrow> u8 list" where
  "clear_bss bss_start bss_end mem = fold (\<lambda>a m. m[a := 0]) [bss_start..<bss_end] mem"

text \<open>Where the linker places the sections.\<close>

record Sections =
  bss_start :: nat
  bss_end :: nat
  heap_lo :: nat
  heap_hi :: nat

definition start ::
  "(panic \<Rightarrow> string) \<Rightarrow> Sections \<Rightarrow> unit con \<Rightarrow> u8 list \<Rightarrow> BumpAllocator \<Rightarrow> syscall list \<times> u8 list \<times> BumpAllocator" where
  "start message s main mem allocator =
     ((case main of
         (t, Inr _) \<Rightarrow> t @ terminate
       | (t, Inl e) \<Rightarrow> t @ panic_handler (message e)),
      clear_bss (bss_start s) (bss_end s) mem, bump_init (heap_lo s) (heap_hi s) allocator)"

subsection \<open>Programs\<close>

definition hello_main :: "unit con" where
  "hello_main = putln ''Hello, World!''"

definition print_nums_main :: "unit con" where
  "print_nums_main = each (\<lambda>i. putln (dec_int i)) [-100, 20, 124, 33, 123, 12, 1]"

definition factorial_main :: "unit con" where
  "factorial_main =
     bindC (lift_res (factorial 20)) (\<lambda>r. putln (''The result of factorial(20) is '' @ dec r))"

definition qsort_main :: "unit con" where
  "qsort_main =
     (let numbers = [64, 34, 25, 12, 22, 11, 90];
          words = [''banana'', ''apple'', ''cherry'', ''date''] in
      bindC (putln (''Before: '' @ debug_vec dec_int numbers)) (\<lambda>_.
      bindC (lift_res (quick_sort numbers)) (\<lambda>numbers1.
      bindC (putln (''After: '' @ debug_vec dec_int numbers1)) (\<lambda>_.
      bindC (putln (CHR 0x0A # ''Before: '' @ debug_vec debug_word words)) (\<lambda>_.
      bindC (lift_res (quick_sort words)) (\<lambda>words1.
      putln (''After: '' @ debug_vec debug_word words1)))))))"

definition msort_main :: "unit con" where
  "msort_main =
     (let numbers = [64, 34, 25, 12, 22, 11, 90, 88, 76, 50, 42] in
      bindC (putln (''Before sorting: '' @ debug_vec dec_int numbers)) (\<lambda>_.
      bindC (lift_res (merge_sort numbers)) (\<lambda>numbers1.
      putln (''After sorting: '' @ debug_vec dec_int numbers1))))"

definition print_row :: "int list \<Rightarrow> unit con" where
  "print_row row =
     bindC (put ''['') (\<lambda>_.
     bindC (each (\<lambda>(i, val). bindC (if i > 0 then put '', '' else ([], Inr ())) (\<lambda>_. put (pad_left 3 (dec_int val))))
              (enumerate 0 row)) (\<lambda>_.
     putln '']''))"

definition print_matrix :: "int list list \<Rightarrow> string \<Rightarrow> unit con" where
  "print_matrix matrix name =
     bindC (putln (name @ '':'')) (\<lambda>_. bindC (each print_row matrix) (\<lambda>_. putln ''''))"

definition matmul_main :: "unit con" where
  "matmul_main =
     bindC (lift_res (generate_large_matrix 15)) (\<lambda>matrix_a.
     bindC (lift_res (generate_large_matrix 15)) (\<lambda>matrix_b.
     bindC (print_matrix matrix_a ''Matrix A'') (\<lambda>_.
     bindC (print_matrix matrix_b ''Matrix B'') (\<lambda>_.
     bindC (lift_res (matrix_multiply matrix_a matrix_b)) (\<lambda>product.
     case product of
       Some result \<Rightarrow> print_matrix result (''A '' @ [CHR 0xD7] @ '' B Result'')
     | None \<Rightarrow> putln ''Matmul fail!!!'')))))"

subsection \<open>What the programs print\<close>

text \<open>The calls of a program that prints a text and ends.\<close>

definition transcript :: "string \<Rightarrow> syscall list" where
  "transcript text = write_str text @ [(0, 0)]"

definition row_text :: "int list \<Rightarrow> string" where
  "row_text row = ''['' @ join (map (\<lambda>v. pad_left 3 (dec_int v)) row) @ '']'' @ [CHR 0x0A]"

definition matrix_text :: "string \<Rightarrow> int list list \<Rightarrow> string" where
  "matrix_text name matrix = name @ '':'' @ [CHR 0x0A] @ concat (map row_text matrix) @ [CHR 0x0A]"

definition lines :: "string list \<Rightarrow> string" where
  "lines ls = concat (map (\<lambda>l. l @ [CHR 0x0A]) ls)"

lemma write_str_calls: "write_str s = map (\<lambda>c. (1, of_char c)) s"
  by (induction s) (simp_all add: write_str_def platform_outb_def internal_syscall_def)

lemma write_str_Nil: "write_str [] = []"
  by (simp add: write_str_calls)

lemma write_str_append: "write_str (s @ t) = write_str s @ write_str t"
  by (simp add: write_str_calls)

text \<open>A run of the console that prints \<open>s\<close> and does not panic.\<close>

abbreviation prints :: "unit con \<Rightarrow> string \<Rightarrow> bool" where
  "prints m s \<equiv> m = (write_str s, Inr ())"

lemma bindC_prints:
  assumes "prints m s" "prints (f ()) t"
  shows "prints (bindC m f) (s @ t)"
  using assms by (simp add: write_str_append)

lemma put_prints: "prints (put s) s" "prints (putln s) (s @ [CHR 0x0A])"
  by (simp_all add: put_def putln_def)

lemma each_prints:
  assumes "\<And>x. x \<in> set xs \<Longrightarrow> prints (f x) (g x)"
  shows "prints (each f xs) (concat (map g xs))"
  using assms by (induction xs) (simp_all add: write_str_Nil write_str_append)

lemma concat_enumerate:
  assumes "0 < n"
  shows "concat (map (\<lambda>(i, s). (if 0 < i then '', '' else []) @ s) (enumerate n ss)) =
    concat (map (\<lambda>s. '', '' @ s) ss)"
  using assms by (induction ss arbitrary: n) simp_all

lemma join_Cons: "join (s # ss) = s @ concat (map (\<lambda>s. '', '' @ s) ss)"
  by (induction ss arbitrary: s) simp_all

lemma join_enumerate:
  "concat (map (\<lambda>(i, s). (if 0 < i then '', '' else []) @ s) (enumerate 0 ss)) = join ss"
  by (cases ss) (simp_all add: concat_enumerate join_Cons)

lemma print_row_prints: "prints (print_row row) (row_text row)"
proof -
  let ?cell = "\<lambda>(i, v). (if (0::nat) < i then '', '' else []) @ pad_left 3 (dec_int v)"
  have "prints (each (\<lambda>(i, val). bindC (if i > 0 then put '', '' else ([], Inr ())) (\<lambda>_. put (pad_left 3 (dec_int val))))
      (enumerate 0 row)) (concat (map ?cell (enumerate 0 row)))"
    by (rule each_prints) (auto simp: put_prints write_str_append write_str_Nil)
  moreover have "map ?cell (enumerate 0 row) =
      map (\<lambda>(i, s). (if 0 < i then '', '' else []) @ s) (enumerate 0 (map (\<lambda>v. pad_left 3 (dec_int v)) row))"
    by (simp add: enumerate_eq_zip zip_map2 case_prod_unfold)
  ultimately have "prints (each (\<lambda>(i, val). bindC (if i > 0 then put '', '' else ([], Inr ()))
      (\<lambda>_. put (pad_left 3 (dec_int val)))) (enumerate 0 row)) (join (map (\<lambda>v. pad_left 3 (dec_int v)) row))"
    by (simp only: join_enumerate)
  then show ?thesis
    unfolding print_row_def row_text_def by (intro bindC_prints put_prints)
qed

lemma print_matrix_prints: "prints (print_matrix matrix name) (matrix_text name matrix)"
proof -
  have "prints (each print_row matrix) (concat (map row_text matrix))" by (rule each_prints) (rule print_row_prints)
  then show ?thesis
    by (simp add: print_matrix_def matrix_text_def put_prints write_str_calls)
qed

lemma start_prints:
  "prints main s \<Longrightarrow> fst (start message sections main mem allocator) = transcript s"
  by (simp add: start_def transcript_def terminate_def exit_success_def internal_syscall_def)

text \<open>The section is all zeros when \<open>main\<close> starts, and nothing else has changed.\<close>

lemma clear_bss_nth:
  assumes "i < length mem"
  shows "clear_bss lo hi mem ! i = (if lo \<le> i \<and> i < hi then 0 else mem ! i)"
proof -
  have "fold (\<lambda>a m. m[a := 0]) as mem ! i = (if i \<in> set as then 0 else mem ! i)" for as
    using assms by (induction as arbitrary: mem) (simp_all add: nth_list_update)
  then show ?thesis by (simp add: clear_bss_def)
qed

text \<open>
  C32.  The matrix workload as it is run, from the start-up code to the end: it generates its 15 by 15
  matrices, prints both, multiplies them without an overflow or an index out of range, prints the
  mathematical product, row by row with every number aligned to three places, and ends with the
  exit call; no other call is made.
\<close>

theorem matmul_main_output:
  "fst (start message sections matmul_main mem allocator) =
     transcript (matrix_text ''Matrix A'' counting_matrix @ matrix_text ''Matrix B'' counting_matrix @
       matrix_text (''A '' @ [CHR 0xD7] @ '' B Result'') (matrix_product counting_matrix counting_matrix))"
proof (rule start_prints)
  show "prints matmul_main (matrix_text ''Matrix A'' counting_matrix @ matrix_text ''Matrix B'' counting_matrix @
       matrix_text (''A '' @ [CHR 0xD7] @ '' B Result'') (matrix_product counting_matrix counting_matrix))"
    by (simp add: matmul_main_def lift_res_def matmul_workload print_matrix_prints write_str_append)
qed

lemma qsort_main_prints:
  "prints qsort_main (lines [''Before: [64, 34, 25, 12, 22, 11, 90]'', ''After: [11, 12, 22, 25, 34, 64, 90]'', '''',
     ''Before: ['' @ join (map debug_word [''banana'', ''apple'', ''cherry'', ''date'']) @ '']'',
     ''After: ['' @ join (map debug_word [''apple'', ''banana'', ''cherry'', ''date'']) @ '']''])"
  by code_simp

lemma msort_main_prints:
  "prints msort_main (lines [''Before sorting: [64, 34, 25, 12, 22, 11, 90, 88, 76, 50, 42]'',
     ''After sorting: [11, 12, 22, 25, 34, 42, 50, 64, 76, 88, 90]''])"
  by code_simp

lemma hello_main_prints: "prints hello_main (lines [''Hello, World!''])"
  by (simp add: hello_main_def put_prints lines_def)

lemma print_nums_main_prints:
  "prints print_nums_main (lines [''-100'', ''20'', ''124'', ''33'', ''123'', ''12'', ''1''])"
  by code_simp

lemma factorial_main_panics: "factorial_main = ([], Inl ArithmeticOverflow)"
  by (simp add: factorial_main_def lift_res_def factorial_overflow)

lemma start_panics:
  "main = ([], Inl e) \<Longrightarrow>
   fst (start message sections main mem allocator) = transcript (''Panicked! '' @ message e @ [CHR 0x0A])"
  by (simp add: start_def panic_handler_def transcript_def terminate_def exit_success_def internal_syscall_def)

text \<open>
  C33.  The complete console transcripts of the other workloads, from the start-up code to the exit call:
  the greeting, the numbers, both sorting programs with their data before and after sorting, and the
  factorial program, which never prints a result: 20! overflows \<open>u32\<close> and the panic handler reports it.
\<close>

theorem workload_outputs:
  "let run_main = (\<lambda>main. fst (start message sections main mem allocator)) in
   run_main hello_main = transcript (lines [''Hello, World!'']) \<and>
   run_main print_nums_main = transcript (lines [''-100'', ''20'', ''124'', ''33'', ''123'', ''12'', ''1'']) \<and>
   run_main qsort_main = transcript (lines
     [''Before: [64, 34, 25, 12, 22, 11, 90]'', ''After: [11, 12, 22, 25, 34, 64, 90]'', '''',
      ''Before: ['' @ join (map debug_word [''banana'', ''apple'', ''cherry'', ''date'']) @ '']'',
      ''After: ['' @ join (map debug_word [''apple'', ''banana'', ''cherry'', ''date'']) @ '']'']) \<and>
   run_main msort_main = transcript (lines
     [''Before sorting: [64, 34, 25, 12, 22, 11, 90, 88, 76, 50, 42]'',
      ''After sorting: [11, 12, 22, 25, 34, 42, 50, 64, 76, 88, 90]'']) \<and>
   run_main factorial_main = transcript (lines [''Panicked! '' @ message ArithmeticOverflow])"
  unfolding Let_def
  using start_prints [OF hello_main_prints] start_prints [OF print_nums_main_prints] start_prints [OF qsort_main_prints]
    start_prints [OF msort_main_prints] start_panics [OF factorial_main_panics]
  by (simp only: lines_def list.map concat.simps append_Nil2 append_assoc simp_thms)

end
