(* ===== verification/Spec2Isabelle.thy ===== *)
theory Spec2Isabelle
  imports Program_Image Cache_Diagram Guest_Programs
begin

text \<open>
  \<^bold>\<open>SimplePipeSim.\<close>  The repository holds a cycle-accurate simulator of a five-stage RV32IM pipeline
  with two first-level caches, a shared second-level cache and a main memory (crate \<open>simulator\<close>), and the
  bare-metal runtime and workloads it runs (crate \<open>runtime\<close>).  This development translates both, function
  by function, and proves that the simulator executes programs: the pipeline over its caches refines a
  reference machine that executes one instruction after the other on a flat memory, and every run of a
  program that exits ends with that machine's registers.

  \<^bold>\<open>Conventions.\<close>  Definitions keep the names of the source; methods carry the type's name as a prefix.
  A panic is a value of \<open>panic\<close>, a computation that may panic returns \<open>'a res\<close> (\<open>Inl\<close> the panic), and
  \<open>bindR\<close> sequences.  \<open>u8\<close>, \<open>u32\<close> and \<open>u64\<close> are machine words and wrap as in the release build of the
  simulator; \<open>usize\<close> is \<open>nat\<close> (the counters cannot overflow in any feasible run); reported rates are reals.
  Completion cells that requests share with their callers (\<open>Rc<RefCell<..>>\<close>) are handles into an
  explicit store \<open>cells\<close>.  Generic parameters of the source are arguments: a replacement policy is a record
  of operations \<open>rp_ops\<close>, the next memory level a registration function \<open>'m lower\<close>.  Code that is not in the
  repository is an argument too: the \<open>object\<close> crate's parser and the random number generator.

  \<^bold>\<open>Instruction set\<close> (\<open>riscv/\<close>).  \<open>Riscv_Format\<close>: formats, fields and immediates; all immediates are the
  two's complement values of the instruction set.  \<open>Riscv_Instruction\<close>: the decoder of words; it agrees with
  the mask/match table of RV32IM and panics exactly on the MISC-MEM opcode.

  \<^bold>\<open>Stage functions\<close> (\<open>hardware/uop.rs\<close>, \<open>pipeline_processor/{decode,execute}.rs\<close>, \<open>branch_predictor/\<close>).
  \<open>Uop\<close>, \<open>Decode_Execute\<close>, \<open>Branch_Predictor\<close>: micro-operations, decode, operand selection, the ALU
  (against integer arithmetic), branch conditions, dummy and bimodal prediction behind a locale of
  trainable predictors.

  \<^bold>\<open>Memory\<close> (\<open>hardware/mem/\<close>).  \<open>Memory_Request\<close>: requests, cells, and the locale every memory level
  satisfies (it serves one request at a time, within a bound, with the contents of a flat array).
  \<open>Simple_Mem\<close>, \<open>Simple_Dram\<close>: both main memories, with exact latencies.  \<open>Replacement_Policy\<close>,
  \<open>Cache_Config\<close>, \<open>Cache_Set\<close>, \<open>General_Cache\<close>: policies, geometry, ways and the cache controller as a state
  machine.  \<open>Cache_Address\<close>, \<open>Cache_Lines\<close>, \<open>Cache_Invariant\<close>, \<open>Cache_Correct\<close>: its invariant, and that a
  cache over a memory level is again a memory level with the same flat contents (a locale from the locale,
  so that levels stack).  \<open>Hierarchy\<close>: the interpretations for FIFO, random and pseudo-LRU caches over both
  memories and over another cache.  \<open>Cache_Diagram\<close>: the documented state diagram of the controller as a
  relation every tick follows, and the states it can reach, for every configuration, prefetching
  included.  \<open>Cache_Statistics\<close>: the counters, under every configuration.
  \<open>Cache_Client\<close>, \<open>Read_Only_Cache\<close>, \<open>Split_Caches\<close>, \<open>Split_Progress\<close>: two first-level caches that share
  the second level, as the pipeline's fetch and memory stages drive them, and a measure of the work they
  still have to do.

  \<^bold>\<open>Pipeline\<close> (\<open>pipeline_processor/{pipe,memory_access,statistic}.rs\<close>).  \<open>Memory_Transaction\<close>, \<open>Pipeline\<close>:
  every stage function, forwarding, the load-use check, branch recovery, bubbles and the clock.
  \<open>Isa_Model\<close>: the reference machine.  \<open>Uop_Execution\<close>: one instruction through decode, forwarding and
  execute does what the reference machine does.  \<open>Processor_Ports\<close>: fetch and memory stage over the
  caches.  \<open>Pipeline_Refines\<close>, \<open>Pipeline_Front\<close>, \<open>Pipeline_Cycle\<close>: the refinement invariant (the operations
  in WB and MEM are the next steps of the reference machine, those in EXE and ID the predicted
  continuation), each stage against it, and a whole cycle; a cycle that retires nothing descends in a
  well-founded order.  \<open>Pipeline_Statistics\<close>: what holds of every run whatsoever.

  \<^bold>\<open>Simulator\<close> (\<open>sim/\<close>, \<open>main.rs\<close>).  \<open>Elf_Loader\<close>: the files it accepts and the image it makes of them.
  \<open>Runner\<close>: configurations, their
  validation, command-line arguments, the run loop and the report.  \<open>Pipeline_Correct\<close>: total correctness of
  runs.  \<open>Program_Image\<close>: programs in a larger memory.  The theorems about whole runs, from a program or from an
  ELF file and a command line to the report, are in this theory.

  \<^bold>\<open>Guest\<close> (\<open>runtime/\<close>).  \<open>Runtime_Allocator\<close>: the bump allocator, with overflow checks.  \<open>Workloads\<close>:
  factorial, matrix multiplication, quicksort and merge sort in the debug profile.  \<open>Guest_Programs\<close>: the
  console, the start-up code, the panic handler and the \<open>main\<close> functions, as the list of environment calls
  they make, with the complete transcript of every workload.  \<open>Rust_Format\<close>: the formatting they use, and
  the \<open>Display\<close> texts of the simulator's errors, which tell any two configuration errors apart.

  \<^bold>\<open>Fuel.\<close>  The run loop of the source has no bound, so \<open>run\<close> takes fuel, a number of cycles, and \<open>None\<close> is
  a run that is still going; \<open>run_terminates\<close> gives the exact number that is enough.  Access loops in the
  memory theorems take fuel as well and the theorems give a sufficient bound from the latencies.

  \<^bold>\<open>Scope of the run theorems.\<close>  Configurations with next-line prefetching or write-back without
  allocation are outside \<open>usable_simulation\<close>: the latter loses stores, and prefetching may read past the
  end of memory and panic (both proved in \<open>Hierarchy\<close>).  Programs must not store into their code region, which also has to contain
  every address the predictor may suggest; the pipeline decodes up to three words beyond the exit call.
  JALR's target is not rounded down to an even address, as in the code; the reference machine only goes on
  from aligned addresses, so programs that rely on the rounding are outside the theorems.

  \<^bold>\<open>Not modelled.\<close>  Printing and JSON output of \<open>main\<close>, which formats floating-point rates the model has as
  reals and calls a serialiser that is not in the repository; the argument parser; the
  assembly that sets the guest's global and stack pointers; the machine code the Rust compiler makes of the
  guest, so the run theorems and the transcripts of the workloads are about different levels; the test modules;
  \<open>konata_log_dumper.rs\<close> and \<open>shell.rs\<close>, which are empty; the plotting script.
\<close>

section \<open>Whole runs of the simulator\<close>

subsection \<open>A program\<close>

text \<open>
  A loop that sums 3, 2, 1 into a register, stores and reloads the sum, uses the loaded value in the
  next instruction, and exits: taken and mispredicted branches, forwarding, a load-use stall and an
  exit call, in front of a 64-byte data area.
\<close>

definition sum_program :: "u8 list" where
  "sum_program = concat (map to_le_bytes
     [0x300293, 0x530333, 0xfff28293, 0xfe029ce3, 0x4602023, 0x4002383, 0x738433, 0x73,
      0x13, 0x13, 0x13, 0x13, 0x13, 0x13, 0x13, 0x13]) @ replicate 64 0"

definition sum_registers :: "u32 list" where
  "sum_registers = (replicate 32 0)[6 := 6, 7 := 6, 8 := 12]"

lemma sum_program_code: "code_check 0 64 sum_program"
  by code_simp

lemma sum_program_isa:
  "case isa_run 0 64 20 (boot 0 sum_program) of
     None \<Rightarrow> False
   | Some (k, A) \<Rightarrow> k = 13 \<and> isa_regs A = sum_registers \<and> isa_steps 0 64 3 A \<noteq> None"
  by code_simp

lemma sum_program_length: "length sum_program = 128"
  by (simp add: sum_program_def to_le_bytes_def)

lemma sum_program_ok: "code_ok 0 64 sum_program"
  by (rule code_ok_check [OF sum_program_code]) (simp add: sum_program_length)

text \<open>The default configuration, and the same with random replacement.\<close>

abbreviation random_config :: SimulationConfig where
  "random_config \<equiv> SimulationConfig_default\<lparr>sc_replacement_policy := RpRandom\<rparr>"

lemma default_runs_accepted:
  "\<exists>g. cache_configs SimulationConfig_default = Inr g" "\<exists>g. cache_configs random_config = Inr g"
  using default_geometries small_powers
  by (auto simp: SimulationConfig_default_def CacheLevelConfig_new_def cache_configs_def
      validate_replacement_policy_def level_config_def into_general_cache_config_def
      GeneralCacheConfig_new_def CacheGeometry_accept_iff [symmetric])

lemma default_runs_usable: "usable_simulation 128 SimulationConfig_default" "usable_simulation 128 random_config"
  by (simp_all add: usable_simulation_def SimulationConfig_default_def CacheLevelConfig_new_def
      default_write_policy_def default_prefetcher_kind_def MEM_SIZE_def)

lemma sum_program_setup:
  assumes "config = SimulationConfig_default \<or> config = random_config"
  obtains g A where "cache_configs config = Inr g"
    "usable_simulation (length sum_program) config" "code_ok 0 64 sum_program"
    "halts_at 0 64 (boot 0 sum_program) 13 A" "isa_regs A = sum_registers"
  using assms default_runs_accepted default_runs_usable sum_program_length sum_program_ok
    sum_program_isa isa_run_halts_at [of 0 64 20 "boot 0 sum_program"] by (auto split: option.splits)

lemma zero_generator: "0 < n \<Longrightarrow> fst (0, g) < (n :: nat)"
  by simp

subsection \<open>The simulator executes programs\<close>

text \<open>
  C1. The simulator refines the instruction set.  For every program whose code region holds legal
  instructions and which the reference machine runs to an exit call after \<open>k\<close> instructions (with the
  three instructions the pipeline may look at beyond it), and every accepted and usable configuration
  (FIFO, pseudo-LRU or random replacement, the last with any generator that draws in range; either main
  memory; either predictor; write-back or write-through with allocation, write-through without), a run
  never panics, whatever its fuel: it is still going, or it has reported exactly the reference machine's
  registers at the exit call, with \<open>k + 1\<close> instructions retired.  Fetch through the instruction cache,
  prediction and recovery, forwarding, load-use stalls, the data cache and the shared second-level cache
  are invisible in the result.
\<close>

theorem run_refines_isa:
  fixes random_range :: "nat \<Rightarrow> 'g \<Rightarrow> nat \<times> 'g" and gen :: 'g
  assumes "\<And>n g. 0 < n \<Longrightarrow> fst (random_range n g) < n"
    "cache_configs config = Inr g" "usable_simulation (length body) config" "code_ok lo hi body"
    "halts_at lo hi (boot entry body) k A'"
  shows "run random_range gen fuel \<lparr>entry_pc = entry, prog_body = body\<rparr> config = Inr None \<or>
    (\<exists>rep. run random_range gen fuel \<lparr>entry_pc = entry, prog_body = body\<rparr> config = Inr (Some (Inr rep)) \<and>
       rep_final_registers rep = isa_regs A' \<and> inst_retire (rep_pipeline rep) = Suc k)"
proof -
  from run_total [where random_range = random_range and gen = gen, OF assms] obtain cycles rep where
    "rep_final_registers rep = isa_regs A'" "inst_retire (rep_pipeline rep) = Suc k"
    "run random_range gen fuel \<lparr>entry_pc = entry, prog_body = body\<rparr> config =
       Inr (if fuel < cycles then None else Some (Inr rep))" by blast
  then show ?thesis by simp
qed

theorem run_refines_isa_witness:
  "run (\<lambda>n g. (0, g)) () 1000 \<lparr>entry_pc = 0, prog_body = sum_program\<rparr> SimulationConfig_default = Inr None \<or>
   (\<exists>rep. run (\<lambda>n g. (0, g)) () 1000 \<lparr>entry_pc = 0, prog_body = sum_program\<rparr> SimulationConfig_default =
        Inr (Some (Inr rep)) \<and> rep_final_registers rep = sum_registers \<and> inst_retire (rep_pipeline rep) = 14)"
proof -
  obtain g A where s: "cache_configs SimulationConfig_default = Inr g"
    "usable_simulation (length sum_program) SimulationConfig_default" "code_ok 0 64 sum_program"
    "halts_at 0 64 (boot 0 sum_program) 13 A" "isa_regs A = sum_registers" using sum_program_setup by blast
  from run_refines_isa [where random_range = "\<lambda>n g. (0, g)" and gen = "()" and fuel = 1000,
      OF zero_generator s(1-4)] s(5) show ?thesis by simp
qed

text \<open>
  C2. Such a run ends.  There is a number of cycles from which on, and not before, the run with that much
  fuel returns; the report counts exactly these cycles, and its instructions per cycle are the \<open>k + 1\<close>
  instructions divided by them.  No pipeline stall, cache refill or recovery can go on for ever.
\<close>

theorem run_terminates:
  fixes random_range :: "nat \<Rightarrow> 'g \<Rightarrow> nat \<times> 'g" and gen :: 'g
  assumes "\<And>n g. 0 < n \<Longrightarrow> fst (random_range n g) < n"
    "cache_configs config = Inr g" "usable_simulation (length body) config" "code_ok lo hi body"
    "halts_at lo hi (boot entry body) k A'"
  shows "\<exists>cycles rep. k < cycles \<and> total_ticked_cycle (rep_pipeline rep) = cycles \<and>
    ipc (rep_pipeline rep) = real (Suc k) / real cycles \<and>
    (\<forall>fuel. run random_range gen fuel \<lparr>entry_pc = entry, prog_body = body\<rparr> config =
       Inr (if fuel < cycles then None else Some (Inr rep)))"
proof -
  from run_total [where random_range = random_range and gen = gen, OF assms] obtain cycles rep where
    r: "inst_retire (rep_pipeline rep) = Suc k" "total_ticked_cycle (rep_pipeline rep) = cycles"
      "\<And>fuel. run random_range gen fuel \<lparr>entry_pc = entry, prog_body = body\<rparr> config =
         Inr (if fuel < cycles then None else Some (Inr rep))" by blast
  have "report_ok rep" using run_report r(3) [of cycles] by simp
  with r(1,2) have "k < cycles" "ipc (rep_pipeline rep) = real (Suc k) / real cycles"
    by (auto simp: report_ok_def safe_ratio_def Let_def)
  with r(2,3) show ?thesis by blast
qed

theorem run_terminates_witness:
  "\<exists>cycles rep. 13 < cycles \<and> total_ticked_cycle (rep_pipeline rep) = cycles \<and> ipc (rep_pipeline rep) = 14 / real cycles \<and>
    run (\<lambda>n g. (0, g)) () cycles \<lparr>entry_pc = 0, prog_body = sum_program\<rparr> random_config =
      Inr (Some (Inr rep))"
proof -
  obtain g A where s: "cache_configs random_config = Inr g"
    "usable_simulation (length sum_program) random_config" "code_ok 0 64 sum_program"
    "halts_at 0 64 (boot 0 sum_program) 13 A" "isa_regs A = sum_registers" using sum_program_setup by blast
  from run_terminates [where random_range = "\<lambda>n g. (0, g)" and gen = "()", OF zero_generator s(1-4)] show ?thesis by force
qed

text \<open>
  C3. The whole program, from the file to the report.  For every ELF file the loader accepts, every
  command line whose configuration is accepted and usable for the simulated memory, and every program the
  reference machine runs on the file's image to an exit call, \<open>main\<close> gets, after a certain number of cycles
  and not before, a report with the reference machine's registers at the exit call, \<open>k + 1\<close> retired
  instructions and that number of cycles.  It never panics and never runs for ever.
\<close>

theorem main_runs_elf:
  fixes random_range :: "nat \<Rightarrow> 'g \<Rightarrow> nat \<times> 'g" and gen :: 'g
  assumes "\<And>n g. 0 < n \<Longrightarrow> fst (random_range n g) < n"
    "parse bytes = Some obj" "elf_ok obj"
    "cache_configs (simulation_config args) = Inr g" "usable_simulation ELF_MEM_SIZE (simulation_config args)"
    "code_ok lo hi (elf_image (obj_segments obj))"
    "halts_at lo hi (boot (ucast (obj_entry obj)) (elf_image (obj_segments obj))) k A'"
  shows "\<exists>cycles rep. rep_final_registers rep = isa_regs A' \<and> inst_retire (rep_pipeline rep) = Suc k \<and>
    total_ticked_cycle (rep_pipeline rep) = cycles \<and>
    (\<forall>fuel. main_run parse random_range gen fuel (Some bytes) args =
       Inr (if fuel < cycles then None else Some (Inr rep)))"
proof -
  let ?img = "elf_image (obj_segments obj)"
  have "elf_loader parse (Some bytes) = Inr \<lparr>entry_pc = ucast (obj_entry obj), prog_body = ?img\<rparr>"
    unfolding elf_loader_Inr_iff using assms(2,3) by blast
  moreover have "usable_simulation (length ?img) (simulation_config args)" using assms(5) by (simp add: elf_image_def)
  ultimately show ?thesis
    using run_total [where random_range = random_range and gen = gen, OF assms(1,4) _ assms(6,7)]
    by (simp add: main_run_def)
qed

definition sum_object :: ObjectFile where
  "sum_object =
     \<lparr>obj_is_elf32 = True, obj_is_riscv32 = True, obj_is_executable = True, obj_is_little_endian = True,
      obj_segments = [\<lparr>seg_address = 0, seg_size = of_nat (length sum_program), seg_data = Some sum_program\<rparr>],
      obj_entry = 0\<rparr>"

theorem main_runs_elf_witness:
  "\<exists>cycles rep. rep_final_registers rep = sum_registers \<and> inst_retire (rep_pipeline rep) = 14 \<and>
    main_run (\<lambda>_. Some sum_object) (\<lambda>n g. (0, g)) () cycles (Some []) Args_default = Inr (Some (Inr rep))"
proof -
  obtain g A where s: "cache_configs SimulationConfig_default = Inr g" "code_ok 0 64 sum_program"
    "halts_at 0 64 (boot 0 sum_program) 13 A" "isa_regs A = sum_registers" using sum_program_setup by blast
  define t where "t = replicate (ELF_MEM_SIZE - 128) (0 :: u8)"
  have l: "length sum_program < ELF_MEM_SIZE" "length sum_program + length t \<le> 2 ^ 32"
    by (simp_all add: sum_program_length ELF_MEM_SIZE_def t_def)
  have img: "elf_image (obj_segments sum_object) = sum_program @ t" and ok: "elf_ok sum_object"
    using elf_image_one [OF l(1)] by (simp_all add: sum_object_def elf_ok_def t_def sum_program_length)
  have "grown t (boot 0 sum_program) = boot (ucast (obj_entry sum_object)) (sum_program @ t)"
    by (simp add: grown_def boot_def sum_object_def)
  then have h: "halts_at 0 64 (boot (ucast (obj_entry sum_object)) (elf_image (obj_segments sum_object))) 13 (grown t A)"
    using halts_at_extend [OF s(3), of t] by (simp add: img boot_def sum_program_length)
  have c: "code_ok 0 64 (elf_image (obj_segments sum_object))" using code_ok_append [OF s(2) l(2)] img by simp
  have a: "cache_configs (simulation_config Args_default) = Inr g" using s(1) by (simp add: default_args_default_config)
  have u: "usable_simulation ELF_MEM_SIZE (simulation_config Args_default)"
    by (simp add: default_args_default_config usable_simulation_def SimulationConfig_default_def CacheLevelConfig_new_def
        default_write_policy_def default_prefetcher_kind_def MEM_SIZE_def ELF_MEM_SIZE_def)
  from main_runs_elf [where random_range = "\<lambda>n g. (0, g)" and gen = "()" and parse = "\<lambda>_. Some sum_object" and bytes = "[]",
      OF zero_generator refl ok a u c h] s(4)
  obtain cycles rep where "rep_final_registers rep = sum_registers" "inst_retire (rep_pipeline rep) = Suc 13"
    "main_run (\<lambda>_. Some sum_object) (\<lambda>n g. (0, g)) () cycles (Some []) Args_default = Inr (Some (Inr rep))" by force
  then show ?thesis by (intro exI [of _ cycles] exI [of _ rep]) simp
qed

lemma sum_program_run:
  obtains cycles rep where
    "run (\<lambda>n g. (0, g)) () cycles \<lparr>entry_pc = 0, prog_body = sum_program\<rparr> SimulationConfig_default = Inr (Some (Inr rep))"
proof -
  obtain g A where s: "cache_configs SimulationConfig_default = Inr g"
    "usable_simulation (length sum_program) SimulationConfig_default" "code_ok 0 64 sum_program"
    "halts_at 0 64 (boot 0 sum_program) 13 A" "isa_regs A = sum_registers" using sum_program_setup by blast
  from run_total [where random_range = "\<lambda>n g. (0, g)" and gen = "()", OF zero_generator s(1-4)] obtain cycles rep where
    "run (\<lambda>n g. (0, g)) () cycles \<lparr>entry_pc = 0, prog_body = sum_program\<rparr> SimulationConfig_default = Inr (Some (Inr rep))"
    by fastforce
  then show ?thesis by (rule that)
qed

subsection \<open>Reports of arbitrary runs\<close>

text \<open>
  C34. The register file keeps its shape: every report of every run, whatever the program, the
  configuration and the memory, shows 32 registers, and register 0 is zero.
\<close>

theorem report_registers:
  "run random_range gen fuel prog config = Inr (Some (Inr rep)) \<Longrightarrow>
   length (rep_final_registers rep) = 32 \<and> rep_final_registers rep ! 0 = 0"
  using run_report [of random_range gen fuel prog config rep] by (simp add: report_ok_def Let_def)

theorem report_registers_witness:
  "\<exists>cycles rep. run (\<lambda>n g. (0, g)) () cycles \<lparr>entry_pc = 0, prog_body = sum_program\<rparr> SimulationConfig_default =
      Inr (Some (Inr rep)) \<and> length (rep_final_registers rep) = 32 \<and> rep_final_registers rep ! 0 = 0"
  using sum_program_run report_registers by metis

text \<open>
  C35. The pipeline counters account for every instruction: each fetched instruction has retired, was
  flushed after a misprediction, or is one of the at most four still in the pipeline; no more branches
  are mispredicted than resolved, and instructions per cycle and miss rate lie between 0 and 1.
\<close>

theorem report_counters:
  assumes "run random_range gen fuel prog config = Inr (Some (Inr rep))"
  shows "inst_retire (rep_pipeline rep) + actual_flushed_inst_cnt (rep_pipeline rep) \<le> inst_fetched (rep_pipeline rep) \<and>
    inst_fetched (rep_pipeline rep) \<le> inst_retire (rep_pipeline rep) + actual_flushed_inst_cnt (rep_pipeline rep) + 4 \<and>
    branch_miss_cnt (rep_pipeline rep) \<le> branch_inst_cnt (rep_pipeline rep) \<and>
    ipc (rep_pipeline rep) \<in> {0..1} \<and> branch_miss_rate (rep_pipeline rep) \<in> {0..1}"
  using run_report [OF assms] safe_ratio_range by (simp add: report_ok_def Let_def)

theorem report_counters_witness:
  "\<exists>cycles rep. run (\<lambda>n g. (0, g)) () cycles \<lparr>entry_pc = 0, prog_body = sum_program\<rparr> SimulationConfig_default =
      Inr (Some (Inr rep)) \<and> ipc (rep_pipeline rep) \<in> {0..1}"
  using sum_program_run report_counters by metis

text \<open>
  C36. The counters of all three caches in every report are consistent, and every reported miss rate lies
  between 0 and 1.
\<close>

theorem report_cache_rates:
  assumes "run random_range gen fuel prog config = Inr (Some (Inr rep))"
  shows "list_all (\<lambda>s. load_miss_cnt s \<le> load_cnt s \<and> store_miss_cnt s \<le> store_cnt s \<and>
      load_miss_rate s \<in> {0..1} \<and> store_miss_rate s \<in> {0..1} \<and> overall_miss_rate s \<in> {0..1})
    [rep_l1i rep, rep_l1d rep, rep_l2 rep]"
proof -
  have "load_miss_rate s \<in> {0..1} \<and> store_miss_rate s \<in> {0..1} \<and> overall_miss_rate s \<in> {0..1}"
    if "cache_statistic_ok s" "s = finalize_rates s" for s
    using finalize_rates_range [OF that(1)] that(2) by simp
  with run_report [OF assms] show ?thesis by (simp add: report_ok_def cache_statistic_ok_def)
qed

theorem report_cache_rates_witness:
  "\<exists>cycles rep. run (\<lambda>n g. (0, g)) () cycles \<lparr>entry_pc = 0, prog_body = sum_program\<rparr> SimulationConfig_default =
      Inr (Some (Inr rep)) \<and> load_miss_rate (rep_l1d rep) \<in> {0..1}"
proof -
  obtain cycles rep where r: "run (\<lambda>n g. (0, g)) () cycles \<lparr>entry_pc = 0, prog_body = sum_program\<rparr>
      SimulationConfig_default = Inr (Some (Inr rep))" by (rule sum_program_run)
  from report_cache_rates [OF r] r show ?thesis by auto
qed

subsection \<open>Errors and divergences\<close>

lemma dram_new_Inr_iff: "(\<exists>d. SimpleDram_new body t = Inr d) \<longleftrightarrow> 1 \<le> t_rcd t \<and> 1 \<le> t_cl t \<and> 1 \<le> t_rp t"
  by (auto simp: SimpleDram_new_def assert_valid_def bindR_eq_Inr assertR_eq_Inr)

lemma run_with_memory_error_iff:
  "run_with_memory R mtry mtick fuel entry m config f = Inr (Some (Inl e)) \<longleftrightarrow> cache_configs config = Inl e"
  by (auto simp: run_with_memory_def bindR_eq_Inr split: sum.splits prod.splits option.splits)

lemma run_with_policy_error_iff:
  "run_with_policy R fuel entry body config = Inr (Some (Inl e)) \<longleftrightarrow>
   cache_configs config = Inl e \<and>
   (case sc_backing_memory config of BmSimpleMem \<Rightarrow> True
    | BmSimpleDram t \<Rightarrow> 1 \<le> t_rcd t \<and> 1 \<le> t_cl t \<and> 1 \<le> t_rp t)"
  using dram_new_Inr_iff [of body]
  by (auto simp: run_with_policy_def bindR_eq_Inr run_with_memory_error_iff split: BackingMemoryKind.splits)

text \<open>
  C37. A run reports a configuration error exactly when the configuration is rejected, and then the error
  of the validation, whatever the program; only the assertion on the DRAM timing comes before it.
\<close>

theorem run_config_error_iff:
  "run random_range gen fuel prog config = Inr (Some (Inl e)) \<longleftrightarrow>
   cache_configs config = Inl e \<and>
   (case sc_backing_memory config of BmSimpleMem \<Rightarrow> True
    | BmSimpleDram t \<Rightarrow> 1 \<le> t_rcd t \<and> 1 \<le> t_cl t \<and> 1 \<le> t_rp t)"
  by (auto simp: run_def run_with_policy_error_iff split: ReplacementPolicyKind.splits)

text \<open>
  C39. A multiplication or division holds EXE for one extra cycle, not for the 8 or 32 cycles of the stall
  table: EXE enters the stall with the operation in place, and the next time it runs with MEM free it
  takes the non-empty countdown, whatever its value, as the end of the stall.
\<close>

theorem mul_div_stalls_one_cycle:
  assumes "p_mem_op p = None" "p_exe_op p = Some op" "m_extension_stall (op_inst op) = Some n"
    "p_int_mul_div_stall_countdown p = None" "alu_operands op = Inr (a, b)"
  shows "\<exists>p1 p2. pipe_stage_exe p = Inr p1 \<and> p_exe_op p1 = Some op \<and> p_mem_op p1 = None \<and>
    p_int_mul_div_stall_countdown p1 = Some n \<and>
    pipe_stage_exe p1 = Inr p2 \<and> p_mem_op p2 = Some (executed op a b) \<and> p_exe_op p2 = None"
proof -
  have k: "\<not> is_ecall (op_inst op)" "\<not> is_control_flow (op_inst op)" using assms(3) by (cases "op_inst op"; simp)+
  have i: "op_inst (executed op a b) = op_inst op" by (simp add: executed_def Let_def set_writeback_value_def)
  let ?p = "p\<lparr>p_int_mul_div_stall_countdown := Some n\<rparr>"
  have "pipe_stage_exe p = Inr ?p"
    using assms k by (simp add: pipe_stage_exe_def Let_def countdown_step_def)
  moreover have "\<exists>p2. pipe_stage_exe ?p = Inr p2 \<and> p_mem_op p2 = Some (executed op a b) \<and> p_exe_op p2 = None"
    using assms k i
    by (simp add: pipe_stage_exe_def Let_def countdown_step_def branch_resolution_inputs_def resolve_branch_def)
  ultimately show ?thesis using assms(1,2) by auto
qed

definition div_op :: PreDecodeMicroOp where
  "div_op = PreDecodeMicroOp_default\<lparr>op_inst := Instruction.Div (RType 0x02c5c533),
     op_alu_op1_sel := RegRs1, op_alu_op2_sel := RegRs2, op_rs1 := Some (11, 7), op_rs2 := Some (12, 2)\<rparr>"

theorem mul_div_stalls_one_cycle_witness:
  "\<exists>(p :: FifoRP PipelineProcessor) p1 p2. pipe_stage_exe p = Inr p1 \<and> p_exe_op p1 = Some div_op \<and>
     p_int_mul_div_stall_countdown p1 = Some 32 \<and> pipe_stage_exe p1 = Inr p2 \<and>
     p_mem_op p2 = Some (executed div_op 7 2) \<and> p_exe_op p2 = None"
proof -
  obtain g1 g2 g3 where "cache_configs SimulationConfig_default = Inr (g1, g2, g3)" using default_runs_accepted(1) by auto
  then obtain cpu where n: "new_with_predictor fifo_ops 0 g1 g2 g3 DummyPredictor = Inr cpu"
    using new_with_predictor_total [of SimulationConfig_default g1 g2 g3 fifo_ops 0 DummyPredictor]
    by (auto simp: fifo_ops_def FifoRP_new_def)
  let ?p = "cpu\<lparr>p_exe_op := Some div_op\<rparr>"
  have "p_mem_op ?p = None" "p_int_mul_div_stall_countdown ?p = None"
    using n by (auto simp: new_with_predictor_def bindR_eq_Inr)
  moreover have "m_extension_stall (op_inst div_op) = Some 32" "alu_operands div_op = Inr (7, 2)"
    by (simp_all add: div_op_def DIV_REM_STALL_def alu_operands_def)
  ultimately show ?thesis using mul_div_stalls_one_cycle [of ?p div_op 32 7 2] by auto
qed

end
